(* ===== verification/Cpp_Prelude.thy ===== *)
theory Cpp_Prelude
  imports Main "HOL-Library.Word" "HOL-Library.Multiset" "HOL-Library.Char_ord"
    "HOL-Library.List_Lexorder"
begin

text \<open>
  What every component shares: the machine integer types, C++ exceptions as values, and
  generic lemmas on lists and words.

  \<^item> \<open>std::uint64_t\<close> is \<open>u64\<close>, \<open>std::uint32_t\<close> is \<open>u32\<close>: words, so arithmetic wraps as the
    code's does. A \<open>std::size_t\<close> that indexes or measures a container is a \<open>nat\<close>: it is bounded
    by the container's length.
  \<^item> A thrown exception is the \<open>Inl\<close> of \<open>cpp_exception + 'a\<close>, named by its C++ class, with the
    message the code builds.
\<close>

section \<open>Machine integers\<close>

type_synonym u8 = "8 word"
type_synonym u32 = "32 word"
type_synonym u64 = "64 word"
type_synonym i16 = "16 word"

section \<open>Exceptions\<close>

datatype cpp_exception =
    Runtime_error string
  | Invalid_argument string
  | Out_of_range string

type_synonym 'a result = "cpp_exception + 'a"

definition bind_result :: "'a result \<Rightarrow> ('a \<Rightarrow> 'b result) \<Rightarrow> 'b result" where
  "bind_result r f = (case r of Inl e \<Rightarrow> Inl e | Inr x \<Rightarrow> f x)"

lemma bind_result_simps [simp]:
  "bind_result (Inl e) f = Inl e"
  "bind_result (Inr x) f = f x"
  by (simp_all add: bind_result_def)

lemma bind_result_Inr_iff:
  "bind_result r f = Inr y \<longleftrightarrow> (\<exists>x. r = Inr x \<and> f x = Inr y)"
  by (cases r) auto

lemma bind_result_Inl_iff:
  "bind_result r f = Inl e \<longleftrightarrow> r = Inl e \<or> (\<exists>x. r = Inr x \<and> f x = Inl e)"
  by (cases r) auto

lemma bind_result_cong [fundef_cong]:
  "r = r' \<Longrightarrow> (\<And>x. r' = Inr x \<Longrightarrow> f x = g x) \<Longrightarrow> bind_result r f = bind_result r' g"
  by (cases r') auto

section \<open>Words\<close>

lemma u32_less_iff: "(a::u32) < b \<longleftrightarrow> unat a < unat b"
  by (simp add: word_less_nat_alt)

lemma unat_dec: "(w :: 'a::len word) \<noteq> 0 \<Longrightarrow> unat (w - 1) = unat w - 1"
  by (rule unat_minus_one)

lemma unat_inc_below: "(w :: 'a::len word) < v \<Longrightarrow> unat (w + 1) = Suc (unat w)"
proof -
  assume "w < v"
  then have "unat w < unat v" by (simp add: word_less_nat_alt)
  moreover have "unat v < 2 ^ LENGTH('a)" by simp
  ultimately have "unat w + 1 < 2 ^ LENGTH('a)" by linarith
  then show ?thesis by (simp add: unat_word_ariths)
qed

lemma word_inc_le_below: "(w :: 'a::len word) < v \<Longrightarrow> w + 1 \<le> v"
  by (rule inc_le)

section \<open>Lists\<close>

lemma takeWhile_notin [simp]: "d \<notin> set s \<Longrightarrow> takeWhile (\<lambda>c. c \<noteq> d) s = s"
  by (auto simp: takeWhile_eq_all_conv)

lemma dropWhile_notin [simp]: "d \<notin> set s \<Longrightarrow> dropWhile (\<lambda>c. c \<noteq> d) s = []"
  by (auto simp: dropWhile_eq_Nil_conv)

lemma takeWhile_notin_append [simp]:
  "d \<notin> set s \<Longrightarrow> takeWhile (\<lambda>c. c \<noteq> d) (s @ d # t) = s"
  by (induction s) auto

lemma dropWhile_notin_append [simp]:
  "d \<notin> set s \<Longrightarrow> dropWhile (\<lambda>c. c \<noteq> d) (s @ d # t) = d # t"
  by (induction s) auto

lemma takeWhile_all: "\<forall>x \<in> set xs. P x \<Longrightarrow> takeWhile P xs = xs"
  by (simp add: takeWhile_eq_all_conv)

text \<open>A sum over a list in which one element is replaced.\<close>

lemma sum_list_map_update:
  "i < length ws \<Longrightarrow> (\<Sum>w\<leftarrow>ws[i := v]. f w) + f (ws ! i) = (\<Sum>w\<leftarrow>ws. f w) + (f v :: 'a :: comm_monoid_add)"
proof (induction ws arbitrary: i)
  case (Cons w ws)
  show ?case
  proof (cases i)
    case (Suc j)
    then show ?thesis using Cons.IH [of j] Cons.prems by (simp add: add.assoc)
  qed (simp add: ac_simps)
qed simp

end
