(* ===== verification/Cpp_Map.thy ===== *)
theory Cpp_Map
  imports Cpp_Prelude
begin

text \<open>
  \<open>std::map<K, V>\<close> as an association list kept in key order, which is the order the code
  iterates in: \<open>omap_get\<close> is \<open>find\<close>, \<open>omap_put\<close> the assignment \<open>m[k] = v\<close>, \<open>omap_at\<close> the value
  \<open>m[k]\<close> reads (an absent key reads as the zero \<open>operator[]\<close> inserts).

  The locale \<open>counter_map\<close> states the laws that the statistics of the simulator rely on and
  proves the counter lemmas once; the ordered association list is its provider.
\<close>

section \<open>The interface\<close>

locale counter_map =
  fixes get :: "'m \<Rightarrow> 'k \<Rightarrow> 'v :: comm_monoid_add option"
    and put :: "'k \<Rightarrow> 'v \<Rightarrow> 'm \<Rightarrow> 'm"
    and wf :: "'m \<Rightarrow> bool"
  assumes get_put: "wf m \<Longrightarrow> get (put k v m) k' = (if k' = k then Some v else get m k')"
    and wf_put: "wf m \<Longrightarrow> wf (put k v m)"
begin

lemma keys_put: "wf m \<Longrightarrow> dom (get (put k v m)) = insert k (dom (get m))"
  by (auto simp: get_put split: if_splits)

lemma add_get:
  "wf m \<Longrightarrow> get (put k (v + a) m) k' = (if k' = k then Some (v + a) else get m k')"
  by (rule get_put)

lemma add_twice:
  "wf m \<Longrightarrow> get (put k (v + a + b) (put k (v + a) m)) = get (put k (v + (a + b)) m)"
  by (auto simp: get_put wf_put add.assoc)

lemma keep_get: "wf m \<Longrightarrow> k' \<noteq> k \<Longrightarrow> get (put k v m) k' = get m k'"
  by (simp add: get_put)

end

section \<open>The ordered association list\<close>

type_synonym ('k, 'v) omap = "('k \<times> 'v) list"

definition omap_get :: "('k, 'v) omap \<Rightarrow> 'k \<Rightarrow> 'v option" where
  "omap_get m k = map_of m k"

fun omap_put :: "'k::linorder \<Rightarrow> 'v \<Rightarrow> ('k, 'v) omap \<Rightarrow> ('k, 'v) omap" where
  "omap_put k v [] = [(k, v)]"
| "omap_put k v ((k', v') # m) =
     (if k < k' then (k, v) # (k', v') # m
      else if k = k' then (k, v) # m
      else (k', v') # omap_put k v m)"

definition omap_at :: "('k, 'v::zero) omap \<Rightarrow> 'k \<Rightarrow> 'v" where
  "omap_at m k = (case omap_get m k of None \<Rightarrow> 0 | Some v \<Rightarrow> v)"

definition omap_wf :: "('k::linorder, 'v) omap \<Rightarrow> bool" where
  "omap_wf m \<longleftrightarrow> sorted_wrt (<) (map fst m)"

lemma set_fst_omap_put: "set (map fst (omap_put k v m)) = insert k (set (map fst m))"
  by (induction k v m rule: omap_put.induct) auto

lemma omap_wf_Nil [simp]: "omap_wf []"
  by (simp add: omap_wf_def)

lemma omap_wf_put [simp]: "omap_wf m \<Longrightarrow> omap_wf (omap_put k v m)"
proof (induction k v m rule: omap_put.induct)
  case (1 k v)
  show ?case by (simp add: omap_wf_def)
next
  case (2 k v k' v' m)
  then show ?case
    using set_fst_omap_put [of k v m]
    by (fastforce simp: omap_wf_def)
qed

lemma omap_get_put [simp]:
  "omap_wf m \<Longrightarrow> omap_get (omap_put k v m) k' = (if k' = k then Some v else omap_get m k')"
  by (induction k v m rule: omap_put.induct) (auto simp: omap_wf_def omap_get_def)

interpretation om: counter_map omap_get omap_put omap_wf
  by unfold_locales simp_all

lemma omap_at_put:
  "omap_wf m \<Longrightarrow> omap_at (omap_put k v m) k' = (if k' = k then v else omap_at m k')"
  by (simp add: omap_at_def)

lemma omap_wf_distinct: "omap_wf m \<Longrightarrow> distinct (map fst m)"
  unfolding omap_wf_def using strict_sorted_iff by blast

lemma omap_entry_iff: "omap_wf m \<Longrightarrow> (k, v) \<in> set m \<longleftrightarrow> omap_get m k = Some v"
  by (simp add: omap_get_def omap_wf_distinct)

text \<open>Two maps with the same lookups are the same list: iteration order is determined.\<close>

lemma omap_ext:
  assumes "omap_wf m" and "omap_wf m'" and "omap_get m = omap_get m'"
  shows "m = m'"
proof -
  have s: "set m = set m'"
  proof (rule set_eqI)
    fix p show "p \<in> set m \<longleftrightarrow> p \<in> set m'"
      using assms by (cases p) (simp add: omap_entry_iff)
  qed
  have "map fst m = map fst m'"
    using assms s unfolding omap_wf_def
    by (intro strict_sorted_equal) (auto simp: strict_sorted_iff)
  moreover have "inj_on fst (set m \<union> set m')"
    using omap_wf_distinct [OF assms(1)] s by (simp add: distinct_map)
  ultimately show ?thesis by (rule map_inj_on)
qed

end
