(* ===== verification/Cpp_String.thy ===== *)
theory Cpp_String
  imports Cpp_Prelude
begin

text \<open>
  The parts of the C++ string library that the program's text input and output use, on
  \<open>string\<close> (a list of bytes): \<open>std::toupper\<close> and \<open>std::isspace\<close> in the C locale, the
  \<open>std::getline\<close> loop, \<open>find_first_not_of\<close> and \<open>find_last_not_of\<close>, \<open>std::stoull\<close> and \<open>std::stoul\<close>
  (both over the 64-bit \<open>unsigned long\<close> of the LP64 ABI) and \<open>std::to_string\<close>.
\<close>

section \<open>Characters\<close>

definition cpp_toupper :: "char \<Rightarrow> char" where
  "cpp_toupper c =
     (let n = (of_char c :: nat) in if 97 \<le> n \<and> n \<le> 122 then char_of (n - 32) else c)"

definition cpp_isspace :: "char \<Rightarrow> bool" where
  "cpp_isspace c = (let n = (of_char c :: nat) in n = 32 \<or> 9 \<le> n \<and> n \<le> 13)"

definition is_digit :: "char \<Rightarrow> bool" where
  "is_digit c = (let n = (of_char c :: nat) in 48 \<le> n \<and> n \<le> 57)"

definition digit_val :: "char \<Rightarrow> nat" where
  "digit_val c = of_char c - 48"

definition digit_char :: "nat \<Rightarrow> char" where
  "digit_char d = char_of (d + 48)"

lemma is_digit_digit_char [simp]: "d < 10 \<Longrightarrow> is_digit (digit_char d)"
  by (simp add: is_digit_def digit_char_def)

lemma digit_val_digit_char [simp]: "d < 10 \<Longrightarrow> digit_val (digit_char d) = d"
  by (simp add: digit_val_def digit_char_def)

lemma digit_not_space: "is_digit c \<Longrightarrow> \<not> cpp_isspace c"
  by (auto simp: is_digit_def cpp_isspace_def Let_def)

lemma digit_not_sign: "is_digit c \<Longrightarrow> c \<noteq> CHR ''-'' \<and> c \<noteq> CHR ''+''"
  by (auto simp: is_digit_def Let_def)

section \<open>Reading lines and fields\<close>

text \<open>
  \<open>while (std::getline(ss, item, delim)) out.push_back(item)\<close>: each call takes the characters up
  to the delimiter and drops it; a call at the end of the input fails.
\<close>

function getline_all :: "char \<Rightarrow> string \<Rightarrow> string list" where
  "getline_all d s =
     (if s = [] then []
      else takeWhile (\<lambda>c. c \<noteq> d) s # getline_all d (tl (dropWhile (\<lambda>c. c \<noteq> d) s)))"
  by pat_completeness auto
termination
proof (relation "measure (\<lambda>(d, s). length s)", goal_cases)
  case (2 d s)
  have "length (tl (dropWhile (\<lambda>c. c \<noteq> d) s)) \<le> length s - 1"
    using length_dropWhile_le [of "\<lambda>c. c \<noteq> d" s] by (simp add: diff_le_mono)
  also have "\<dots> < length s" using 2 by simp
  finally show ?case by simp
qed simp

declare getline_all.simps [simp del]

lemma getline_all_Nil [simp]: "getline_all d [] = []"
  by (simp add: getline_all.simps)

lemma getline_all_single:
  "s \<noteq> [] \<Longrightarrow> d \<notin> set s \<Longrightarrow> getline_all d s = [s]"
  by (subst getline_all.simps) simp

lemma getline_all_append:
  "d \<notin> set s \<Longrightarrow> getline_all d (s @ d # t) = s # getline_all d t"
  by (subst getline_all.simps) simp

lemma getline_all_no_delim: "item \<in> set (getline_all d s) \<Longrightarrow> d \<notin> set item"
proof (induction d s rule: getline_all.induct)
  case (1 d s)
  then show ?case
    by (subst (asm) getline_all.simps) (auto split: if_splits dest: set_takeWhileD)
qed

text \<open>The \<open>n\<close>-th \<open>std::getline(stream, field, ',')\<close> on a stream over a line, into an empty string.\<close>

definition csv_field :: "string \<Rightarrow> nat \<Rightarrow> string" where
  "csv_field line n = (let fs = getline_all (CHR '','') line in if n < length fs then fs ! n else [])"

section \<open>Trimming\<close>

definition find_first_not_of :: "char set \<Rightarrow> string \<Rightarrow> nat option" where
  "find_first_not_of cs v =
     (let n = length (takeWhile (\<lambda>c. c \<in> cs) v) in if n = length v then None else Some n)"

definition find_last_not_of :: "char set \<Rightarrow> string \<Rightarrow> nat option" where
  "find_last_not_of cs v =
     (let n = length (takeWhile (\<lambda>c. c \<in> cs) (rev v)) in
      if n = length v then None else Some (length v - 1 - n))"

definition substr :: "string \<Rightarrow> nat \<Rightarrow> nat \<Rightarrow> string" where
  "substr v pos n = take n (drop pos v)"

section \<open>Numbers\<close>

definition digits_val :: "string \<Rightarrow> nat" where
  "digits_val ds = foldl (\<lambda>v c. 10 * v + digit_val c) 0 ds"

text \<open>
  \<open>std::stoull(s)\<close> is \<open>strtoull(s, &end, 10)\<close>: white space, an optional sign, then the longest run
  of digits; the rest is ignored. No digit throws \<open>invalid_argument\<close>, a magnitude of
  $2^{64}$ or more throws \<open>out_of_range\<close>, and a minus sign negates modulo $2^{64}$. \<open>name\<close> is the
  function the exception's message names.
\<close>

definition sto_u64 :: "string \<Rightarrow> string \<Rightarrow> u64 result" where
  "sto_u64 name s =
     (let s1 = dropWhile cpp_isspace s;
          neg = (s1 \<noteq> [] \<and> hd s1 = CHR ''-'');
          s2 = (if s1 \<noteq> [] \<and> (hd s1 = CHR ''-'' \<or> hd s1 = CHR ''+'') then tl s1 else s1);
          ds = takeWhile is_digit s2;
          v = digits_val ds
      in if ds = [] then Inl (Invalid_argument name)
         else if 2 ^ 64 \<le> v then Inl (Out_of_range name)
         else Inr (if neg then - of_nat v else of_nat v))"

definition stoull :: "string \<Rightarrow> u64 result" where
  "stoull s = sto_u64 ''stoull'' s"

definition stoul :: "string \<Rightarrow> u64 result" where
  "stoul s = sto_u64 ''stoul'' s"

fun dec_string :: "nat \<Rightarrow> string" where
  "dec_string n = (if n < 10 then [digit_char n] else dec_string (n div 10) @ [digit_char (n mod 10)])"

declare dec_string.simps [simp del]

definition to_string_u64 :: "u64 \<Rightarrow> string" where
  "to_string_u64 w = dec_string (unat w)"

lemma dec_string_nonempty [simp]: "dec_string n \<noteq> []"
  by (subst dec_string.simps) simp

lemma dec_string_digits: "\<forall>c \<in> set (dec_string n). is_digit c"
proof (induction n rule: dec_string.induct)
  case (1 n)
  then show ?case by (subst dec_string.simps) auto
qed

lemma digits_val_dec_string [simp]: "digits_val (dec_string n) = n"
proof (induction n rule: dec_string.induct)
  case (1 n)
  show ?case
  proof (cases "n < 10")
    case True
    then show ?thesis by (subst dec_string.simps) (simp add: digits_val_def)
  next
    case False
    then have "digits_val (dec_string n) = 10 * digits_val (dec_string (n div 10)) + n mod 10"
      by (subst dec_string.simps) (simp add: digits_val_def)
    then show ?thesis using 1 False by simp
  qed
qed

lemma hd_dec_string: "is_digit (hd (dec_string n))"
  using dec_string_digits [of n] by (simp add: list.set_sel(1))

lemma sto_u64_dec_string:
  assumes "n < 2 ^ 64"
  shows "sto_u64 name (dec_string n) = Inr (of_nat n)"
proof -
  have "dropWhile cpp_isspace (dec_string n) = dec_string n"
    using hd_dec_string [of n] digit_not_space
    by (cases "dec_string n") auto
  moreover have "hd (dec_string n) \<noteq> CHR ''-'' \<and> hd (dec_string n) \<noteq> CHR ''+''"
    using hd_dec_string digit_not_sign by blast
  ultimately show ?thesis using assms dec_string_digits [of n]
    by (simp add: sto_u64_def Let_def takeWhile_all)
qed

lemma sto_u64_to_string [simp]: "sto_u64 name (to_string_u64 w) = Inr w"
  using sto_u64_dec_string [of "unat w" name] unsigned_less [of w] by (simp add: to_string_u64_def)

end
