(* ===== verification/Instruction_Model.thy ===== *)
theory Instruction_Model
  imports Cpp_Map Cpp_String
begin

text \<open>
  The data of the cycle simulator: operation types and pipeline stages
  (\<open>include/accelsim/model/instruction.hpp\<close>), the configuration (\<open>model/config.hpp\<close>), the
  statistics (\<open>model/stats.hpp\<close>), the memory-operation test (\<open>core/pipeline.hpp\<close>) and the
  dependency test of the scheduler (\<open>src/scheduler.cpp\<close>). The averages of \<open>Stats\<close>, which are
  \<open>double\<close>s, are not in this theory.
\<close>

section \<open>Operation types and stages\<close>

datatype op_type = Compute | Load | Store

datatype stage = Fetch | Decode | Dispatch | Ready | Execute | Retire | Done

definition op_to_string :: "op_type \<Rightarrow> string" where
  "op_to_string op = (case op of Compute \<Rightarrow> ''COMPUTE'' | Load \<Rightarrow> ''LOAD'' | Store \<Rightarrow> ''STORE'')"

definition stage_to_string :: "stage \<Rightarrow> string" where
  "stage_to_string s =
     (case s of Fetch \<Rightarrow> ''Fetch'' | Decode \<Rightarrow> ''Decode'' | Dispatch \<Rightarrow> ''Dispatch''
      | Ready \<Rightarrow> ''Ready'' | Execute \<Rightarrow> ''Execute'' | Retire \<Rightarrow> ''Retire'' | Done \<Rightarrow> ''Done'')"

definition parse_op_type :: "string \<Rightarrow> op_type result" where
  "parse_op_type value0 =
     (let value = map cpp_toupper value0 in
      if value = ''COMPUTE'' then Inr Compute
      else if value = ''LOAD'' then Inr Load
      else if value = ''STORE'' then Inr Store
      else Inl (Runtime_error (''unsupported op_type: '' @ value)))"

definition is_memory_op :: "op_type \<Rightarrow> bool" where
  "is_memory_op op \<longleftrightarrow> op = Load \<or> op = Store"

lemma map_cpp_toupper_op_to_string [simp]: "map cpp_toupper (op_to_string op) = op_to_string op"
  by (cases op) (simp_all add: op_to_string_def cpp_toupper_def)

lemma parse_op_to_string [simp]: "parse_op_type (op_to_string op) = Inr op"
  unfolding parse_op_type_def map_cpp_toupper_op_to_string
  by (cases op) (simp_all add: op_to_string_def)

lemma parse_op_type_Inr:
  "parse_op_type v = Inr op \<longleftrightarrow> map cpp_toupper v = op_to_string op"
  by (cases op) (auto simp: parse_op_type_def op_to_string_def Let_def)

lemma stage_to_string_inject [simp]: "stage_to_string s = stage_to_string t \<longleftrightarrow> s = t"
  by (cases s; cases t) (simp_all add: stage_to_string_def)

text \<open>The stages in pipeline order: an instruction only ever moves forward.\<close>

definition stage_rank :: "stage \<Rightarrow> nat" where
  "stage_rank s =
     (case s of Fetch \<Rightarrow> 0 | Decode \<Rightarrow> 1 | Dispatch \<Rightarrow> 2 | Ready \<Rightarrow> 3 | Execute \<Rightarrow> 4
      | Retire \<Rightarrow> 5 | Done \<Rightarrow> 6)"

lemma stage_rank_inj: "stage_rank s = stage_rank t \<Longrightarrow> s = t"
  by (cases s; cases t) (simp_all add: stage_rank_def)

instantiation stage :: linorder
begin

definition less_eq_stage :: "stage \<Rightarrow> stage \<Rightarrow> bool" where
  "less_eq_stage s t \<longleftrightarrow> stage_rank s \<le> stage_rank t"

definition less_stage :: "stage \<Rightarrow> stage \<Rightarrow> bool" where
  "less_stage s t \<longleftrightarrow> stage_rank s < stage_rank t"

instance
  by standard (auto simp: less_eq_stage_def less_stage_def dest: stage_rank_inj)

end

section \<open>Instructions, configuration, statistics\<close>

record instruction =
  instr_id :: u64
  instr_type :: op_type
  execute_latency :: u32
  memory_bytes :: u32
  deps :: "u64 list"
  instr_stage :: stage
  enqueue_cycle :: u64
  issue_cycle :: u64
  complete_cycle :: u64

definition new_instruction :: instruction where
  "new_instruction =
     \<lparr>instr_id = 0, instr_type = Compute, execute_latency = 1, memory_bytes = 0, deps = [],
      instr_stage = Fetch, enqueue_cycle = 0, issue_cycle = 0, complete_cycle = 0\<rparr>"

record simulator_config =
  fetch_width :: u32
  decode_width :: u32
  dispatch_width :: u32
  issue_width :: u32
  compute_units :: u32
  memory_ports :: u32
  dispatch_queue_capacity :: u32
  ready_queue_capacity :: u32
  workload_name :: string

definition default_config :: simulator_config where
  "default_config =
     \<lparr>fetch_width = 4, decode_width = 4, dispatch_width = 4, issue_width = 2,
      compute_units = 2, memory_ports = 1,
      dispatch_queue_capacity = 16, ready_queue_capacity = 16,
      workload_name = ''unknown''\<rparr>"

record stats =
  total_cycles :: u64
  completed_ops :: u64
  total_latency :: u64
  stage_busy_cycles :: "(string, u64) omap"
  stall_counts :: "(string, u64) omap"
  max_queue_occupancy :: "(string, u64) omap"

definition empty_stats :: stats where
  "empty_stats =
     \<lparr>total_cycles = 0, completed_ops = 0, total_latency = 0,
      stage_busy_cycles = [], stall_counts = [], max_queue_occupancy = []\<rparr>"

text \<open>
  \<open>Stats::top_bottleneck\<close>: the first stall reason, in key order, whose count is strictly above
  every count before it; \<open>None\<close> when every count is zero.
\<close>

fun top_bottleneck_scan :: "(string \<times> u64) list \<Rightarrow> string \<Rightarrow> u64 \<Rightarrow> string" where
  "top_bottleneck_scan [] best best_value = best"
| "top_bottleneck_scan ((name, value) # rest) best best_value =
     (if best_value < value then top_bottleneck_scan rest name value
      else top_bottleneck_scan rest best best_value)"

definition top_bottleneck :: "stats \<Rightarrow> string" where
  "top_bottleneck st = top_bottleneck_scan (stall_counts st) ''None'' 0"

section \<open>The dependency test\<close>

fun deps_scan :: "u64 list \<Rightarrow> u64 set \<Rightarrow> bool" where
  "deps_scan [] retired_ids = True"
| "deps_scan (dep # rest) retired_ids =
     (if dep \<notin> retired_ids then False else deps_scan rest retired_ids)"

definition deps_satisfied :: "instruction \<Rightarrow> u64 set \<Rightarrow> bool" where
  "deps_satisfied instruction retired_ids = deps_scan (deps instruction) retired_ids"

lemma deps_satisfied_iff: "deps_satisfied i R \<longleftrightarrow> set (deps i) \<subseteq> R"
proof -
  have "deps_scan ds R \<longleftrightarrow> set ds \<subseteq> R" for ds
    by (induction ds) auto
  then show ?thesis by (simp add: deps_satisfied_def)
qed

lemma deps_satisfied_mono: "deps_satisfied i R \<Longrightarrow> R \<subseteq> R' \<Longrightarrow> deps_satisfied i R'"
  by (auto simp: deps_satisfied_iff)

section \<open>Top bottleneck: what the scan returns\<close>

lemma top_bottleneck_scan_zero:
  "(\<forall>p \<in> set xs. snd p \<le> b) \<Longrightarrow> top_bottleneck_scan xs best b = best"
  by (induction xs best b rule: top_bottleneck_scan.induct) auto

lemma top_bottleneck_scan_max:
  assumes "\<exists>p \<in> set xs. b < snd p"
  shows "\<exists>v. (top_bottleneck_scan xs best b, v) \<in> set xs \<and> b < v \<and> (\<forall>p \<in> set xs. snd p \<le> v)"
  using assms
proof (induction xs best b rule: top_bottleneck_scan.induct)
  case (1 best b)
  then show ?case by simp
next
  case (2 name v rest best b)
  show ?case
  proof (cases "b < v")
    case True
    show ?thesis
    proof (cases "\<exists>p \<in> set rest. v < snd p")
      case True
      from "2.IH"(1) [OF \<open>b < v\<close> True] show ?thesis
        using \<open>b < v\<close> by (auto intro: less_trans less_imp_le)
    next
      case False
      then have "\<forall>p \<in> set rest. snd p \<le> v" by (simp add: not_less)
      then show ?thesis
        using True by (auto simp: top_bottleneck_scan_zero)
    qed
  next
    case False
    with "2.prems" have "\<exists>p \<in> set rest. b < snd p" by auto
    from "2.IH"(2) [OF False this] show ?thesis
      using False by (auto simp: not_less)
  qed
qed

end
