(* ===== verification/Cycle_Simulator.thy ===== *)
theory Cycle_Simulator
  imports Instruction_Model
begin

text \<open>
  The cycle simulator, \<open>run_workload\<close> of \<open>src/simulator.cpp\<close>, one definition per block of the
  loop body and composed in the order of the source:

  \<^item> \<open>retire_pass\<close>: drain the retire queue (lines 111-119);
  \<^item> \<open>exec_scan\<close> and \<open>complete_one\<close>, together \<open>execute_pass\<close>: age the execution slots, free the
    units of the finished ones and queue them for retirement (121-146);
  \<^item> \<open>ready_pass\<close>: one rotation of the dispatch queue, waking what has its dependencies (148-165);
  \<^item> \<open>issue_pass\<close>: one rotation of the ready queue, issuing to free units (167-200);
  \<^item> \<open>dispatch_pass\<close>, \<open>decode_pass\<close>, \<open>fetch_pass\<close>: the in-order front end (202-232);
  \<^item> \<open>sample_stats\<close>: the busy-cycle and occupancy counters (234-246).

  The local variables of \<open>run_workload\<close> are the fields of \<open>sim_state\<close>; a queue of indices into the
  instruction vector is a list of \<open>nat\<close>. The outer loop need not end (a dependency cycle or a
  configuration without units stalls it for ever), so \<open>run_loop\<close> is a partial function: \<open>None\<close>
  is a run that does not return, \<open>Some (Inl e)\<close> one that throws.
\<close>

section \<open>Counters\<close>

definition bump :: "(string, u64) omap \<Rightarrow> string \<Rightarrow> u64 \<Rightarrow> (string, u64) omap" where
  "bump values key amount = omap_put key (omap_at values key + amount) values"

definition update_max :: "(string, u64) omap \<Rightarrow> string \<Rightarrow> u64 \<Rightarrow> (string, u64) omap" where
  "update_max values key candidate =
     (case omap_get values key of
        None \<Rightarrow> omap_put key candidate values
      | Some v \<Rightarrow> if v < candidate then omap_put key candidate values else values)"

lemma omap_wf_bump [simp]: "omap_wf m \<Longrightarrow> omap_wf (bump m k a)"
  by (simp add: bump_def)

lemma omap_wf_update_max [simp]: "omap_wf m \<Longrightarrow> omap_wf (update_max m k a)"
  by (simp add: update_max_def split: option.split)

lemma omap_get_bump:
  "omap_wf m \<Longrightarrow> omap_get (bump m k a) k' =
     (if k' = k then Some (omap_at m k + a) else omap_get m k')"
  unfolding bump_def by (rule om.get_put)

lemma omap_get_update_max:
  "omap_wf m \<Longrightarrow> omap_get (update_max m k a) k' =
     (if k' = k then Some (max (omap_at m k) a) else omap_get m k')"
  by (auto simp: update_max_def omap_at_def max_def not_less split: option.split)

lemma dom_bump: "omap_wf m \<Longrightarrow> dom (omap_get (bump m k a)) = insert k (dom (omap_get m))"
  unfolding bump_def by (rule om.keys_put)

section \<open>The state of a run\<close>

record exec_slot =
  slot_index :: nat
  slot_remaining :: u32
  slot_uses_memory :: bool

record sim_state =
  sim_instrs :: "instruction list"
  sim_stats :: stats
  fetch_q :: "nat list"
  decode_q :: "nat list"
  dispatch_q :: "nat list"
  ready_q :: "nat list"
  retire_q :: "nat list"
  exec_slots :: "exec_slot list"
  retired_ids :: "u64 set"
  next_to_fetch :: nat
  sim_cycle :: u64
  compute_in_use :: u32
  memory_in_use :: u32

record run_result =
  result_config :: simulator_config
  result_stats :: stats
  result_instructions :: "instruction list"

definition initial_stats :: stats where
  "initial_stats =
     (let busy = bump (stage_busy_cycles empty_stats) ''Fetch'' 0;
          busy = bump busy ''Decode'' 0;
          busy = bump busy ''Dispatch'' 0;
          busy = bump busy ''Issue'' 0;
          busy = bump busy ''Execute'' 0;
          busy = bump busy ''Retire'' 0;
          stalls = bump (stall_counts empty_stats) ''DispatchQueueFull'' 0;
          stalls = bump stalls ''ReadyQueueFull'' 0;
          stalls = bump stalls ''WaitingDependency'' 0;
          stalls = bump stalls ''NoComputeUnit'' 0;
          stalls = bump stalls ''NoMemoryPort'' 0
      in empty_stats\<lparr>stage_busy_cycles := busy, stall_counts := stalls\<rparr>)"

definition initial_state :: "instruction list \<Rightarrow> sim_state" where
  "initial_state workload =
     \<lparr>sim_instrs = workload, sim_stats = initial_stats,
      fetch_q = [], decode_q = [], dispatch_q = [], ready_q = [], retire_q = [],
      exec_slots = [], retired_ids = {}, next_to_fetch = 0, sim_cycle = 0,
      compute_in_use = 0, memory_in_use = 0\<rparr>"

definition has_work_left :: "sim_state \<Rightarrow> bool" where
  "has_work_left s \<longleftrightarrow>
     next_to_fetch s < length (sim_instrs s) \<or> fetch_q s \<noteq> [] \<or> decode_q s \<noteq> [] \<or>
     dispatch_q s \<noteq> [] \<or> ready_q s \<noteq> [] \<or> retire_q s \<noteq> [] \<or> exec_slots s \<noteq> []"

text \<open>\<open>result.instructions[idx]\<close> read, and written through the reference the code takes to it.\<close>

definition instr_at :: "sim_state \<Rightarrow> nat \<Rightarrow> instruction" where
  "instr_at s idx = sim_instrs s ! idx"

definition write_instr :: "nat \<Rightarrow> (instruction \<Rightarrow> instruction) \<Rightarrow> sim_state \<Rightarrow> sim_state" where
  "write_instr idx f s = s\<lparr>sim_instrs := (sim_instrs s)[idx := f (sim_instrs s ! idx)]\<rparr>"

definition bump_stall :: "string \<Rightarrow> sim_state \<Rightarrow> sim_state" where
  "bump_stall key s =
     s\<lparr>sim_stats := (sim_stats s)\<lparr>stall_counts := bump (stall_counts (sim_stats s)) key 1\<rparr>\<rparr>"

section \<open>The back end: retire, execute\<close>

definition retire_one :: "nat \<Rightarrow> sim_state \<Rightarrow> sim_state" where
  "retire_one idx s =
     (let s = write_instr idx (\<lambda>i. i\<lparr>instr_stage := Done\<rparr>) s;
          instruction = instr_at s idx;
          s = s\<lparr>retired_ids := insert (instr_id instruction) (retired_ids s)\<rparr>;
          st = sim_stats s
      in s\<lparr>sim_stats := st\<lparr>completed_ops := completed_ops st + 1,
             total_latency := total_latency st
               + (complete_cycle instruction - enqueue_cycle instruction)\<rparr>\<rparr>)"

function retire_pass :: "sim_state \<Rightarrow> sim_state" where
  "retire_pass s =
     (case retire_q s of
        [] \<Rightarrow> s
      | idx # rest \<Rightarrow> retire_pass (retire_one idx (s\<lparr>retire_q := rest\<rparr>)))"
  by pat_completeness auto
termination
  by (relation "measure (\<lambda>s. length (retire_q s))")
    (auto simp: retire_one_def write_instr_def Let_def)

declare retire_pass.simps [simp del]

fun exec_scan ::
  "exec_slot list \<Rightarrow> exec_slot list \<Rightarrow> nat list \<Rightarrow> u32 \<Rightarrow> u32 \<Rightarrow>
     (exec_slot list \<times> nat list \<times> u32 \<times> u32) result" where
  "exec_scan [] remaining_slots finished compute memory =
     Inr (remaining_slots, finished, compute, memory)"
| "exec_scan (slot0 # slots) remaining_slots finished compute memory =
     (let slot = (if 0 < slot_remaining slot0
                  then slot0\<lparr>slot_remaining := slot_remaining slot0 - 1\<rparr> else slot0)
      in if slot_remaining slot = 0 then
           (if slot_uses_memory slot then
              (if memory = 0 then Inl (Runtime_error ''memory resource underflow'')
               else exec_scan slots remaining_slots (finished @ [slot_index slot])
                      compute (memory - 1))
            else
              (if compute = 0 then Inl (Runtime_error ''compute resource underflow'')
               else exec_scan slots remaining_slots (finished @ [slot_index slot])
                      (compute - 1) memory))
         else exec_scan slots (remaining_slots @ [slot]) finished compute memory)"

definition complete_one :: "nat \<Rightarrow> sim_state \<Rightarrow> sim_state" where
  "complete_one idx s =
     (let s = write_instr idx
                (\<lambda>i. i\<lparr>complete_cycle := sim_cycle s, instr_stage := Retire\<rparr>) s
      in s\<lparr>retire_q := retire_q s @ [idx]\<rparr>)"

definition execute_pass :: "sim_state \<Rightarrow> sim_state result" where
  "execute_pass s =
     (case exec_scan (exec_slots s) [] [] (compute_in_use s) (memory_in_use s) of
        Inl e \<Rightarrow> Inl e
      | Inr (remaining_slots, finished, compute, memory) \<Rightarrow>
          Inr (fold complete_one finished
                 (s\<lparr>exec_slots := remaining_slots,
                    compute_in_use := compute, memory_in_use := memory\<rparr>)))"

section \<open>Wake-up and issue\<close>

definition ready_one :: "simulator_config \<Rightarrow> nat \<Rightarrow> sim_state \<Rightarrow> sim_state" where
  "ready_one config idx s =
     (if deps_satisfied (instr_at s idx) (retired_ids s) then
        (if length (ready_q s) < unat (ready_queue_capacity config) then
           (let s = write_instr idx (\<lambda>i. i\<lparr>instr_stage := Ready\<rparr>) s
            in s\<lparr>ready_q := ready_q s @ [idx]\<rparr>)
         else
           (let s = bump_stall ''ReadyQueueFull'' s
            in s\<lparr>dispatch_q := dispatch_q s @ [idx]\<rparr>))
      else
        (let s = bump_stall ''WaitingDependency'' s
         in s\<lparr>dispatch_q := dispatch_q s @ [idx]\<rparr>))"

text \<open>
  \<open>ready_pass config n s\<close> is the rest of the loop with \<open>n = dispatch_span - i\<close> rounds left; the
  queue is never empty there, because each round puts back at most what it took.
\<close>

fun ready_pass :: "simulator_config \<Rightarrow> nat \<Rightarrow> sim_state \<Rightarrow> sim_state" where
  "ready_pass config 0 s = s"
| "ready_pass config (Suc n) s =
     (case dispatch_q s of
        [] \<Rightarrow> s
      | idx # rest \<Rightarrow> ready_pass config n (ready_one config idx (s\<lparr>dispatch_q := rest\<rparr>)))"

definition start_execution :: "nat \<Rightarrow> bool \<Rightarrow> sim_state \<Rightarrow> sim_state" where
  "start_execution idx uses_memory s =
     (let s = write_instr idx (\<lambda>i. i\<lparr>instr_stage := Execute, issue_cycle := sim_cycle s\<rparr>) s
      in s\<lparr>exec_slots := exec_slots s @
             [\<lparr>slot_index = idx, slot_remaining = execute_latency (instr_at s idx),
               slot_uses_memory = uses_memory\<rparr>]\<rparr>)"

definition issue_one :: "simulator_config \<Rightarrow> nat \<Rightarrow> u32 \<times> sim_state \<Rightarrow> u32 \<times> sim_state" where
  "issue_one config idx = (\<lambda>(issued, s).
     if issue_width config \<le> issued then (issued, s\<lparr>ready_q := ready_q s @ [idx]\<rparr>)
     else
       (let uses_memory = is_memory_op (instr_type (instr_at s idx)) in
        if uses_memory then
          (if memory_ports config \<le> memory_in_use s then
             (let s = bump_stall ''NoMemoryPort'' s
              in (issued, s\<lparr>ready_q := ready_q s @ [idx]\<rparr>))
           else
             (issued + 1,
              start_execution idx uses_memory (s\<lparr>memory_in_use := memory_in_use s + 1\<rparr>)))
        else
          (if compute_units config \<le> compute_in_use s then
             (let s = bump_stall ''NoComputeUnit'' s
              in (issued, s\<lparr>ready_q := ready_q s @ [idx]\<rparr>))
           else
             (issued + 1,
              start_execution idx uses_memory (s\<lparr>compute_in_use := compute_in_use s + 1\<rparr>)))))"

fun issue_pass :: "simulator_config \<Rightarrow> nat \<Rightarrow> u32 \<times> sim_state \<Rightarrow> u32 \<times> sim_state" where
  "issue_pass config 0 p = p"
| "issue_pass config (Suc n) (issued, s) =
     (case ready_q s of
        [] \<Rightarrow> (issued, s)
      | idx # rest \<Rightarrow>
          issue_pass config n (issue_one config idx (issued, s\<lparr>ready_q := rest\<rparr>)))"

section \<open>The front end: dispatch, decode, fetch\<close>

definition dispatch_one :: "nat \<Rightarrow> sim_state \<Rightarrow> sim_state" where
  "dispatch_one idx s =
     (let s = write_instr idx (\<lambda>i. i\<lparr>instr_stage := Dispatch\<rparr>) s
      in s\<lparr>dispatch_q := dispatch_q s @ [idx]\<rparr>)"

function dispatch_pass :: "simulator_config \<Rightarrow> u32 \<Rightarrow> sim_state \<Rightarrow> sim_state" where
  "dispatch_pass config dispatched s =
     (case decode_q s of
        [] \<Rightarrow> s
      | idx # rest \<Rightarrow>
          if dispatched < dispatch_width config then
            (if unat (dispatch_queue_capacity config) \<le> length (dispatch_q s)
             then bump_stall ''DispatchQueueFull'' s
             else dispatch_pass config (dispatched + 1)
                    (dispatch_one idx (s\<lparr>decode_q := rest\<rparr>)))
          else s)"
  by pat_completeness auto
termination
  by (relation "measure (\<lambda>(config, dispatched, s). length (decode_q s))")
    (auto simp: dispatch_one_def write_instr_def Let_def)

declare dispatch_pass.simps [simp del]

definition decode_one :: "nat \<Rightarrow> sim_state \<Rightarrow> sim_state" where
  "decode_one idx s =
     (let s = write_instr idx (\<lambda>i. i\<lparr>instr_stage := Decode\<rparr>) s
      in s\<lparr>decode_q := decode_q s @ [idx]\<rparr>)"

function decode_pass :: "simulator_config \<Rightarrow> u32 \<Rightarrow> sim_state \<Rightarrow> sim_state" where
  "decode_pass config decoded s =
     (case fetch_q s of
        [] \<Rightarrow> s
      | idx # rest \<Rightarrow>
          if decoded < decode_width config
          then decode_pass config (decoded + 1) (decode_one idx (s\<lparr>fetch_q := rest\<rparr>))
          else s)"
  by pat_completeness auto
termination
  by (relation "measure (\<lambda>(config, decoded, s). length (fetch_q s))")
    (auto simp: decode_one_def write_instr_def Let_def)

declare decode_pass.simps [simp del]

definition fetch_one :: "sim_state \<Rightarrow> sim_state" where
  "fetch_one s =
     (let s = write_instr (next_to_fetch s)
                (\<lambda>i. i\<lparr>instr_stage := Fetch, enqueue_cycle := sim_cycle s\<rparr>) s
      in s\<lparr>fetch_q := fetch_q s @ [next_to_fetch s], next_to_fetch := next_to_fetch s + 1\<rparr>)"

function fetch_pass :: "simulator_config \<Rightarrow> u32 \<Rightarrow> sim_state \<Rightarrow> sim_state" where
  "fetch_pass config fetched s =
     (if next_to_fetch s < length (sim_instrs s) \<and> fetched < fetch_width config
      then fetch_pass config (fetched + 1) (fetch_one s)
      else s)"
  by pat_completeness auto
termination
  by (relation "measure (\<lambda>(config, fetched, s). length (sim_instrs s) - next_to_fetch s)")
    (auto simp: fetch_one_def write_instr_def Let_def)

declare fetch_pass.simps [simp del]

section \<open>One cycle and the run\<close>

definition bump_if :: "bool \<Rightarrow> string \<Rightarrow> (string, u64) omap \<Rightarrow> (string, u64) omap" where
  "bump_if cond key values = (if cond then bump values key 1 else values)"

definition sample_stats :: "sim_state \<Rightarrow> sim_state" where
  "sample_stats s =
     (let st = sim_stats s;
          busy = stage_busy_cycles st;
          busy = bump_if (next_to_fetch s < length (sim_instrs s)) ''Fetch'' busy;
          busy = bump_if (fetch_q s \<noteq> []) ''Decode'' busy;
          busy = bump_if (decode_q s \<noteq> [] \<or> dispatch_q s \<noteq> []) ''Dispatch'' busy;
          busy = bump_if (ready_q s \<noteq> []) ''Issue'' busy;
          busy = bump_if (exec_slots s \<noteq> []) ''Execute'' busy;
          busy = bump_if (retire_q s \<noteq> []) ''Retire'' busy;
          occ = max_queue_occupancy st;
          occ = update_max occ ''fetch_q'' (of_nat (length (fetch_q s)));
          occ = update_max occ ''decode_q'' (of_nat (length (decode_q s)));
          occ = update_max occ ''dispatch_q'' (of_nat (length (dispatch_q s)));
          occ = update_max occ ''ready_q'' (of_nat (length (ready_q s)));
          occ = update_max occ ''execute_slots'' (of_nat (length (exec_slots s)));
          occ = update_max occ ''retire_q'' (of_nat (length (retire_q s)))
      in s\<lparr>sim_stats := st\<lparr>stage_busy_cycles := busy, max_queue_occupancy := occ\<rparr>\<rparr>)"

definition cycle_tail :: "simulator_config \<Rightarrow> sim_state \<Rightarrow> sim_state" where
  "cycle_tail config s =
     (let s = ready_pass config (length (dispatch_q s)) s;
          s = snd (issue_pass config (length (ready_q s)) (0, s));
          s = dispatch_pass config 0 s;
          s = decode_pass config 0 s;
          s = fetch_pass config 0 s;
          s = sample_stats s
      in s\<lparr>sim_cycle := sim_cycle s + 1\<rparr>)"

definition cycle_step :: "simulator_config \<Rightarrow> sim_state \<Rightarrow> sim_state result" where
  "cycle_step config s =
     bind_result (execute_pass (retire_pass s)) (\<lambda>s. Inr (cycle_tail config s))"

partial_function (option) run_loop :: "simulator_config \<Rightarrow> sim_state \<Rightarrow> sim_state result option" where
  "run_loop config s =
     (if has_work_left s then
        (case cycle_step config s of
           Inl e \<Rightarrow> Some (Inl e)
         | Inr s' \<Rightarrow> run_loop config s')
      else Some (Inr s))"

declare run_loop.simps [code]

definition finish_run :: "simulator_config \<Rightarrow> sim_state \<Rightarrow> run_result" where
  "finish_run config s =
     \<lparr>result_config = config, result_stats = (sim_stats s)\<lparr>total_cycles := sim_cycle s\<rparr>,
      result_instructions = sim_instrs s\<rparr>"

definition run_workload ::
  "instruction list \<Rightarrow> simulator_config \<Rightarrow> run_result result option" where
  "run_workload workload config =
     map_option (map_sum id (finish_run config)) (run_loop config (initial_state workload))"

end
