(* ===== verification/Pipeline_Steps.thy ===== *)
theory Pipeline_Steps
  imports Cycle_Simulator
begin

text \<open>
  The abstract machine behind the cycle simulator. Every loop of \<open>run_workload\<close> moves one
  instruction index at a time from the front of one queue to the back of another (or of the same)
  queue; \<open>pipe_step config b\<close> has one rule per such move, with the guard the code tests (\<open>b\<close> says
  whether retiring is among the moves: only \<open>retire_pass\<close> does). The loops of the
  code are sequences of these steps (\<open>retire_pass_steps\<close> to \<open>fetch_pass_steps\<close>), so an invariant
  is proved once per rule and holds after every loop. Ageing the execution slots is not a
  \<open>pipe_step\<close>; it has its own lemmas in \<open>Pipeline_Invariants\<close>.
\<close>

section \<open>The steps\<close>

definition take_issue :: "nat \<Rightarrow> nat list \<Rightarrow> bool \<Rightarrow> sim_state \<Rightarrow> sim_state" where
  "take_issue idx rest uses_memory s =
     start_execution idx uses_memory
       (if uses_memory then s\<lparr>ready_q := rest, memory_in_use := memory_in_use s + 1\<rparr>
        else s\<lparr>ready_q := rest, compute_in_use := compute_in_use s + 1\<rparr>)"

inductive pipe_step :: "simulator_config \<Rightarrow> bool \<Rightarrow> sim_state \<Rightarrow> sim_state \<Rightarrow> bool"
  for config :: simulator_config and b :: bool where
  retire: "b \<Longrightarrow> retire_q s = idx # rest \<Longrightarrow>
    pipe_step config b s (retire_one idx (s\<lparr>retire_q := rest\<rparr>))"
| wake: "dispatch_q s = idx # rest \<Longrightarrow> deps_satisfied (instr_at s idx) (retired_ids s) \<Longrightarrow>
    length (ready_q s) < unat (ready_queue_capacity config) \<Longrightarrow>
    pipe_step config b s
      (write_instr idx (\<lambda>i. i\<lparr>instr_stage := Ready\<rparr>)
         (s\<lparr>dispatch_q := rest, ready_q := ready_q s @ [idx]\<rparr>))"
| wait: "dispatch_q s = idx # rest \<Longrightarrow> pipe_step config b s (s\<lparr>dispatch_q := rest @ [idx]\<rparr>)"
| issue: "ready_q s = idx # rest \<Longrightarrow>
    uses_memory = is_memory_op (instr_type (instr_at s idx)) \<Longrightarrow>
    (if uses_memory then memory_in_use s < memory_ports config
     else compute_in_use s < compute_units config) \<Longrightarrow>
    pipe_step config b s (take_issue idx rest uses_memory s)"
| hold: "ready_q s = idx # rest \<Longrightarrow> pipe_step config b s (s\<lparr>ready_q := rest @ [idx]\<rparr>)"
| dispatch: "decode_q s = idx # rest \<Longrightarrow>
    length (dispatch_q s) < unat (dispatch_queue_capacity config) \<Longrightarrow>
    pipe_step config b s (dispatch_one idx (s\<lparr>decode_q := rest\<rparr>))"
| decode: "fetch_q s = idx # rest \<Longrightarrow> pipe_step config b s (decode_one idx (s\<lparr>fetch_q := rest\<rparr>))"
| fetch: "next_to_fetch s < length (sim_instrs s) \<Longrightarrow> pipe_step config b s (fetch_one s)"
| stall: "key \<in> {''DispatchQueueFull'', ''ReadyQueueFull'', ''WaitingDependency'',
      ''NoComputeUnit'', ''NoMemoryPort''} \<Longrightarrow> pipe_step config b s (bump_stall key s)"

abbreviation pipe_steps :: "simulator_config \<Rightarrow> bool \<Rightarrow> sim_state \<Rightarrow> sim_state \<Rightarrow> bool" where
  "pipe_steps config b \<equiv> (pipe_step config b)\<^sup>*\<^sup>*"

lemma invariant_steps:
  assumes "pipe_steps config b s t" and "P s"
    and "\<And>s t. pipe_step config b s t \<Longrightarrow> P s \<Longrightarrow> P t"
  shows "P t"
  using assms(1,2) by (induction rule: rtranclp_induct) (auto intro: assms(3))

section \<open>The loops of the code are sequences of steps\<close>

text \<open>Independent field updates commute; these bring the queue updates next to the state.\<close>

lemma queue_update_first:
  "s\<lparr>sim_instrs := b, ready_q := q\<rparr> = s\<lparr>ready_q := q, sim_instrs := b\<rparr>"
  "s\<lparr>sim_stats := c, ready_q := q\<rparr> = s\<lparr>ready_q := q, sim_stats := c\<rparr>"
  "s\<lparr>sim_stats := c, dispatch_q := q\<rparr> = s\<lparr>dispatch_q := q, sim_stats := c\<rparr>"
  by simp_all

lemma one_step: "pipe_step config b s t \<Longrightarrow> pipe_steps config b s t"
  by (rule r_into_rtranclp)

lemma two_steps: "pipe_step config b s t \<Longrightarrow> pipe_step config b t u \<Longrightarrow> pipe_steps config b s u"
  by (meson converse_rtranclp_into_rtranclp r_into_rtranclp)

lemma retire_pass_steps: "pipe_steps config True s (retire_pass s)"
proof (induction s rule: retire_pass.induct)
  case (1 s)
  show ?case
  proof (cases "retire_q s")
    case Nil
    then show ?thesis by (subst retire_pass.simps) simp
  next
    case (Cons idx rest)
    have "pipe_step config True s (retire_one idx (s\<lparr>retire_q := rest\<rparr>))"
      using Cons by (intro pipe_step.retire) auto
    then show ?thesis using "1.IH" [OF Cons] Cons
      by (subst retire_pass.simps) (simp add: converse_rtranclp_into_rtranclp)
  qed
qed

lemma ready_one_steps:
  assumes "dispatch_q s = idx # rest"
  shows "pipe_steps config b s (ready_one config idx (s\<lparr>dispatch_q := rest\<rparr>))"
proof (cases "deps_satisfied (instr_at s idx) (retired_ids s)")
  case deps: True
  show ?thesis
  proof (cases "length (ready_q s) < unat (ready_queue_capacity config)")
    case True
    with assms deps show ?thesis
      by (intro one_step)
        (use pipe_step.wake [of s idx rest config b] in
          \<open>auto simp: ready_one_def instr_at_def write_instr_def Let_def queue_update_first\<close>)
  next
    case False
    then show ?thesis
      using deps assms
      by (intro two_steps [OF pipe_step.wait [OF assms] pipe_step.stall [of "''ReadyQueueFull''"],
            THEN back_subst [where P = "pipe_steps config b s"]])
        (auto simp: ready_one_def instr_at_def bump_stall_def)
  qed
next
  case False
  then show ?thesis
    using assms
    by (intro two_steps [OF pipe_step.wait [OF assms] pipe_step.stall [of "''WaitingDependency''"],
          THEN back_subst [where P = "pipe_steps config b s"]])
      (auto simp: ready_one_def instr_at_def bump_stall_def)
qed

lemma ready_pass_steps: "pipe_steps config b s (ready_pass config n s)"
proof (induction n arbitrary: s)
  case 0
  show ?case by simp
next
  case (Suc n)
  show ?case
  proof (cases "dispatch_q s")
    case Nil
    then show ?thesis by simp
  next
    case (Cons idx rest)
    show ?thesis
      using rtranclp_trans [OF ready_one_steps [OF Cons] Suc.IH] Cons by simp
  qed
qed

lemma issue_one_steps:
  assumes "ready_q s = idx # rest"
  shows "pipe_steps config b s (snd (issue_one config idx (issued, s\<lparr>ready_q := rest\<rparr>)))"
proof -
  have hold: "pipe_step config b s (s\<lparr>ready_q := rest @ [idx]\<rparr>)"
    using assms by (rule pipe_step.hold)
  have held: "pipe_steps config b s (bump_stall key (s\<lparr>ready_q := rest @ [idx]\<rparr>))"
    if "key = ''NoMemoryPort'' \<or> key = ''NoComputeUnit''" for key
    using that by (intro two_steps [OF hold pipe_step.stall]) auto
  show ?thesis
    using hold held [of "''NoMemoryPort''"] held [of "''NoComputeUnit''"]
      pipe_step.issue [OF assms refl, of config b, THEN one_step]
    by (auto simp: issue_one_def instr_at_def bump_stall_def take_issue_def Let_def not_le
          queue_update_first
        split: if_splits)
qed

lemma issue_pass_steps: "pipe_steps config b (snd p) (snd (issue_pass config n p))"
proof (induction n arbitrary: p)
  case 0
  show ?case by simp
next
  case (Suc n)
  obtain issued s where p: "p = (issued, s)" by (cases p)
  show ?case
  proof (cases "ready_q s")
    case Nil
    then show ?thesis by (simp add: p)
  next
    case (Cons idx rest)
    show ?thesis
      using rtranclp_trans [OF issue_one_steps [OF Cons] Suc.IH] Cons by (simp add: p)
  qed
qed

lemma dispatch_pass_steps: "pipe_steps config b s (dispatch_pass config dispatched s)"
proof (induction config dispatched s rule: dispatch_pass.induct)
  case (1 config dispatched s)
  show ?case
  proof (cases "decode_q s")
    case Nil
    then show ?thesis by (simp add: dispatch_pass.simps [of config dispatched s])
  next
    case (Cons idx rest)
    show ?thesis
      using "1.IH" [OF Cons] pipe_step.dispatch [OF Cons, of config b]
        pipe_step.stall [of "''DispatchQueueFull''" config b s] Cons
      by (auto simp: dispatch_pass.simps [of config dispatched s] not_le
          intro: converse_rtranclp_into_rtranclp)
  qed
qed

lemma decode_pass_steps: "pipe_steps config b s (decode_pass config decoded s)"
proof (induction config decoded s rule: decode_pass.induct)
  case (1 config decoded s)
  show ?case
  proof (cases "fetch_q s")
    case Nil
    then show ?thesis by (simp add: decode_pass.simps [of config decoded s])
  next
    case (Cons idx rest)
    show ?thesis
      using "1.IH" [OF Cons] pipe_step.decode [OF Cons, of config b] Cons
      by (auto simp: decode_pass.simps [of config decoded s]
          intro: converse_rtranclp_into_rtranclp)
  qed
qed

lemma fetch_pass_steps: "pipe_steps config b s (fetch_pass config fetched s)"
proof (induction config fetched s rule: fetch_pass.induct)
  case (1 config fetched s)
  then show ?case
    using pipe_step.fetch [of s config b]
    by (auto simp: fetch_pass.simps [of config fetched s] intro: converse_rtranclp_into_rtranclp)
qed

text \<open>Everything a cycle does between ageing the slots and sampling the statistics.\<close>

definition cycle_moves :: "simulator_config \<Rightarrow> sim_state \<Rightarrow> sim_state" where
  "cycle_moves config s =
     (let s = ready_pass config (length (dispatch_q s)) s;
          s = snd (issue_pass config (length (ready_q s)) (0, s));
          s = dispatch_pass config 0 s;
          s = decode_pass config 0 s
      in fetch_pass config 0 s)"

lemma cycle_tail_moves:
  "cycle_tail config s =
     (let s = sample_stats (cycle_moves config s) in s\<lparr>sim_cycle := sim_cycle s + 1\<rparr>)"
  by (simp add: cycle_tail_def cycle_moves_def Let_def)

lemma cycle_moves_steps: "pipe_steps config b s (cycle_moves config s)"
  unfolding cycle_moves_def Let_def
  by (rule rtranclp_trans [OF ready_pass_steps
        rtranclp_trans [OF issue_pass_steps [where p = "(0, t)" for t, simplified]
        rtranclp_trans [OF dispatch_pass_steps
        rtranclp_trans [OF decode_pass_steps fetch_pass_steps]]]])

end
