(* ===== verification/Pipeline_Invariants.thy ===== *)
theory Pipeline_Invariants
  imports Pipeline_Steps
begin

text \<open>
  The invariants of the cycle simulator. Each is kept by every \<open>pipe_step\<close>; together they are
  \<open>pipe_inv\<close>, which holds at the head of the loop in every reachable state (\<open>reach_inv\<close>):

  \<^item> \<open>program_inv\<close>: no step rewrites an id, type, latency, size or dependency list;
  \<^item> \<open>loc_inv\<close>: each queue holds exactly the fetched instructions of its stage, each once;
  \<^item> \<open>retired_inv\<close>: retired ids, completed operations and total latency are those of the
    instructions in stage \<open>Done\<close>;
  \<^item> \<open>unit_inv\<close>: the in-use counters count the occupied slots and stay within the configuration;
  \<^item> \<open>cap_inv\<close>: the bounded queues keep their capacity;
  \<^item> \<open>order_inv\<close>: the decode and fetch queues together are a suffix of the fetched indices;
  \<^item> \<open>dep_inv\<close>: what has been woken has all its dependencies retired;
  \<^item> \<open>time_inv\<close>: slots count down from the issue cycle, and a finished instruction completed
    its latency (at least one cycle) after it was issued.
\<close>

section \<open>Where an instruction is\<close>

definition stage_set :: "stage \<Rightarrow> sim_state \<Rightarrow> nat set" where
  "stage_set st s = {i. i < next_to_fetch s \<and> instr_stage (sim_instrs s ! i) = st}"

definition queue_of :: "stage \<Rightarrow> sim_state \<Rightarrow> nat list" where
  "queue_of st s =
     (case st of Fetch \<Rightarrow> fetch_q s | Decode \<Rightarrow> decode_q s | Dispatch \<Rightarrow> dispatch_q s
      | Ready \<Rightarrow> ready_q s | Execute \<Rightarrow> map slot_index (exec_slots s) | Retire \<Rightarrow> retire_q s
      | Done \<Rightarrow> [])"

text \<open>
  Each queue holds exactly the fetched instructions of its stage, each once; \<open>h\<close> is what
  \<open>execute_pass\<close> has taken out of the execution slots and not yet queued for retirement.
\<close>

definition loc_inv :: "nat multiset \<Rightarrow> sim_state \<Rightarrow> bool" where
  "loc_inv h s \<longleftrightarrow> next_to_fetch s \<le> length (sim_instrs s) \<and>
     (\<forall>st. st \<noteq> Done \<longrightarrow>
        mset (queue_of st s) + (if st = Execute then h else {#}) = mset_set (stage_set st s))"

lemma finite_stage_set [simp]: "finite (stage_set st s)"
  by (simp add: stage_set_def)

lemma queue_of_simps [simp]:
  "queue_of Fetch s = fetch_q s" "queue_of Decode s = decode_q s"
  "queue_of Dispatch s = dispatch_q s" "queue_of Ready s = ready_q s"
  "queue_of Execute s = map slot_index (exec_slots s)" "queue_of Retire s = retire_q s"
  "queue_of Done s = []"
  by (simp_all add: queue_of_def)

lemma loc_inv_queue:
  assumes "loc_inv h s" and "st \<noteq> Done" and "st = Execute \<longrightarrow> h = {#}"
  shows "set (queue_of st s) = stage_set st s" and "distinct (queue_of st s)"
proof -
  have m: "mset (queue_of st s) = mset_set (stage_set st s)"
  proof -
    have "mset (queue_of st s) + (if st = Execute then h else {#}) = mset_set (stage_set st s)"
      using assms(1,2) by (simp add: loc_inv_def)
    then show ?thesis using assms(3) by (simp split: if_splits)
  qed
  show set: "set (queue_of st s) = stage_set st s"
    using arg_cong [OF m, of set_mset] by simp
  show "distinct (queue_of st s)"
    unfolding distinct_count_atmost_1 by (simp add: m set count_mset_set')
qed

lemma slot_index_stage:
  "loc_inv {#} s \<Longrightarrow> slot \<in> set (exec_slots s) \<Longrightarrow> slot_index slot \<in> stage_set Execute s"
  using loc_inv_queue(1) [of "{#}" s Execute] by auto

lemma front_stage:
  "loc_inv {#} s \<Longrightarrow> queue_of st s = idx # rest \<Longrightarrow> st \<noteq> Done \<Longrightarrow> idx \<in> stage_set st s"
  using loc_inv_queue(1) [of "{#}" s st] by auto

lemma stage_set_write:
  assumes "sim_instrs t = (sim_instrs s)[idx := i]" and "next_to_fetch t = next_to_fetch s"
    and "idx < next_to_fetch s" and "next_to_fetch s \<le> length (sim_instrs s)"
  shows "stage_set q t =
    (if q = instr_stage i then insert idx (stage_set q s) else stage_set q s - {idx})"
  using assms by (auto simp: stage_set_def nth_list_update)

text \<open>One move keeps the location invariant.\<close>

lemma loc_inv_move:
  assumes inv: "loc_inv h s" and idx: "idx \<in> stage_set st s" and st: "st \<noteq> Done" "st' \<noteq> st"
    and ins: "sim_instrs t = (sim_instrs s)[idx := i]" "instr_stage i = st'"
    and nxt: "next_to_fetch t = next_to_fetch s"
    and frame: "\<And>q. q \<noteq> st \<Longrightarrow> q \<noteq> st' \<Longrightarrow> q \<noteq> Done \<Longrightarrow> mset (queue_of q t) = mset (queue_of q s)"
    and out: "mset (queue_of st t) + (if st = Execute then h' else {#}) =
      mset (queue_of st s) + (if st = Execute then h else {#}) - {#idx#}"
    and into: "st' \<noteq> Done \<Longrightarrow> mset (queue_of st' t) = add_mset idx (mset (queue_of st' s))"
    and h: "st \<noteq> Execute \<Longrightarrow> h' = h"
  shows "loc_inv h' t"
proof -
  have len: "next_to_fetch s \<le> length (sim_instrs s)" and idx': "idx < next_to_fetch s"
    using inv idx by (auto simp: loc_inv_def stage_set_def)
  note ss = stage_set_write [OF ins(1) nxt idx' len]
  have m: "mset (queue_of q s) + (if q = Execute then h else {#}) = mset_set (stage_set q s)"
    if "q \<noteq> Done" for q using inv that by (simp add: loc_inv_def)
  have "mset (queue_of q t) + (if q = Execute then h' else {#}) = mset_set (stage_set q t)"
    if q: "q \<noteq> Done" for q
  proof -
    consider "q = st" | "q = st'" "q \<noteq> st" | "q \<noteq> st" "q \<noteq> st'" by blast
    then show ?thesis
    proof cases
      case 1
      then have "stage_set q t = stage_set st s - {idx}" using ss ins(2) st by simp
      then show ?thesis
        using 1 out m [OF st(1)] idx by (simp add: mset_set_Diff)
    next
      case 2
      have notin: "idx \<notin> stage_set q s" using idx 2 by (auto simp: stage_set_def)
      have "stage_set q t = insert idx (stage_set q s)" using ss ins(2) 2 by simp
      then show ?thesis
        using 2 into q m [OF q] notin h st by (cases "st = Execute") auto
    next
      case 3
      have "idx \<notin> stage_set q s" using idx 3 by (auto simp: stage_set_def)
      then have "stage_set q t = stage_set q s" using ss ins(2) 3 by simp
      then show ?thesis using frame [OF 3 q] m [OF q] h 3 by (cases "st = Execute") auto
    qed
  qed
  then show ?thesis using len ins nxt by (simp add: loc_inv_def)
qed

lemma loc_inv_cong:
  assumes "loc_inv h s" and "sim_instrs t = sim_instrs s" and "next_to_fetch t = next_to_fetch s"
    and "\<And>q. mset (queue_of q t) = mset (queue_of q s)"
  shows "loc_inv h t"
  using assms by (simp add: loc_inv_def stage_set_def)


lemmas step_defs = retire_one_def take_issue_def start_execution_def dispatch_one_def decode_one_def
  fetch_one_def complete_one_def write_instr_def instr_at_def bump_stall_def Let_def

lemma pipe_step_loc: "pipe_step config b s t \<Longrightarrow> loc_inv {#} s \<Longrightarrow> loc_inv {#} t"
proof (induction rule: pipe_step.induct)
  case (retire s idx rest)
  have "idx \<in> stage_set Retire s" using retire(3,2) by (simp add: front_stage)
  with retire(3) show ?case
    by (rule loc_inv_move [where st' = Done]) (use retire(2) in \<open>auto simp: step_defs queue_of_def split: stage.splits\<close>)
next
  case (wake s idx rest)
  have "idx \<in> stage_set Dispatch s" using wake(4) wake(1) by (simp add: front_stage)
  with wake(4) show ?case
    by (rule loc_inv_move [where st' = Ready]) (use wake(1) in \<open>auto simp: step_defs queue_of_def split: stage.splits\<close>)
next
  case (wait s idx rest)
  from wait(2) show ?case
    by (rule loc_inv_cong) (use wait(1) in \<open>auto simp: queue_of_def split: stage.splits\<close>)
next
  case (issue s idx rest uses_memory)
  have "idx \<in> stage_set Ready s" using issue(4) issue(1) by (simp add: front_stage)
  with issue(4) show ?case
    by (rule loc_inv_move [where st' = Execute]) (use issue(1) in \<open>auto simp: step_defs queue_of_def split: stage.splits\<close>)
next
  case (hold s idx rest)
  from hold(2) show ?case
    by (rule loc_inv_cong) (use hold(1) in \<open>auto simp: queue_of_def split: stage.splits\<close>)
next
  case (dispatch s idx rest)
  have "idx \<in> stage_set Decode s" using dispatch(3) dispatch(1) by (simp add: front_stage)
  with dispatch(3) show ?case
    by (rule loc_inv_move [where st' = Dispatch]) (use dispatch(1) in \<open>auto simp: step_defs queue_of_def split: stage.splits\<close>)
next
  case (decode s idx rest)
  have "idx \<in> stage_set Fetch s" using decode(2) decode(1) by (simp add: front_stage)
  with decode(2) show ?case
    by (rule loc_inv_move [where st' = Decode]) (use decode(1) in \<open>auto simp: step_defs queue_of_def split: stage.splits\<close>)
next
  case (fetch s)
  have ss: "stage_set q (fetch_one s) =
      (if q = Fetch then insert (next_to_fetch s) (stage_set q s) else stage_set q s)" for q
    using fetch(1) by (auto simp: stage_set_def step_defs nth_list_update less_Suc_eq)
  have "next_to_fetch s \<notin> stage_set q s" for q by (simp add: stage_set_def)
  with fetch show ?case
    by (auto simp: loc_inv_def ss) (auto simp: step_defs queue_of_def split: stage.splits)
next
  case (stall key s)
  from stall(2) show ?case
    by (rule loc_inv_cong) (auto simp: step_defs queue_of_def split: stage.splits)
qed


section \<open>The program text, retirement, units, capacities\<close>

definition instr_core :: "instruction \<Rightarrow> u64 \<times> op_type \<times> u32 \<times> u32 \<times> u64 list" where
  "instr_core i = (instr_id i, instr_type i, execute_latency i, memory_bytes i, deps i)"

definition program_inv :: "instruction list \<Rightarrow> sim_state \<Rightarrow> bool" where
  "program_inv workload s \<longleftrightarrow> map instr_core (sim_instrs s) = map instr_core workload"

lemma map_core_update:
  "instr_core i = instr_core (xs ! idx) \<Longrightarrow> map instr_core (xs[idx := i]) = map instr_core xs"
  by (simp add: map_update list_update_same_conv nth_map)
    (metis list_update_beyond list_update_id map_update not_le)

lemma pipe_step_program: "pipe_step config b s t \<Longrightarrow> program_inv w s \<Longrightarrow> program_inv w t"
  by (induction rule: pipe_step.induct)
    (auto simp: program_inv_def step_defs map_core_update instr_core_def)

definition retired_inv :: "sim_state \<Rightarrow> bool" where
  "retired_inv s \<longleftrightarrow>
     retired_ids s = (\<lambda>i. instr_id (sim_instrs s ! i)) ` stage_set Done s \<and>
     completed_ops (sim_stats s) = of_nat (card (stage_set Done s)) \<and>
     total_latency (sim_stats s) =
       (\<Sum>i\<in>stage_set Done s.
          complete_cycle (sim_instrs s ! i) - enqueue_cycle (sim_instrs s ! i))"

text \<open>A step that neither retires nor rewrites a retired instruction keeps \<open>retired_inv\<close>.\<close>

lemma retired_inv_frame:
  assumes "retired_inv s" and "stage_set Done t = stage_set Done s"
    and "\<And>i. i \<in> stage_set Done s \<Longrightarrow> sim_instrs t ! i = sim_instrs s ! i"
    and "retired_ids t = retired_ids s"
    and "completed_ops (sim_stats t) = completed_ops (sim_stats s)"
    and "total_latency (sim_stats t) = total_latency (sim_stats s)"
  shows "retired_inv t"
  using assms by (simp add: retired_inv_def cong: image_cong sum.cong)

lemma retired_inv_move:
  assumes inv: "retired_inv s" and loc: "loc_inv h s" and idx: "idx \<in> stage_set st s"
    and st: "st \<noteq> Done" "instr_stage i \<noteq> Done"
    and ins: "sim_instrs t = (sim_instrs s)[idx := i]" and nxt: "next_to_fetch t = next_to_fetch s"
    and rest: "retired_ids t = retired_ids s" "completed_ops (sim_stats t) = completed_ops (sim_stats s)"
      "total_latency (sim_stats t) = total_latency (sim_stats s)"
  shows "retired_inv t"
proof -
  have len: "next_to_fetch s \<le> length (sim_instrs s)" and idx': "idx < next_to_fetch s"
    using loc idx by (auto simp: loc_inv_def stage_set_def)
  have notin: "idx \<notin> stage_set Done s" using idx st by (auto simp: stage_set_def)
  have "stage_set Done t = stage_set Done s"
    using stage_set_write [OF ins nxt idx' len, of Done] st notin by auto
  with inv show ?thesis
    by (rule retired_inv_frame) (use ins rest notin in \<open>auto simp: nth_list_update_neq\<close>,
        metis notin nth_list_update_neq)
qed

lemma retire_one_retired:
  assumes inv: "retired_inv s" and loc: "loc_inv {#} s" and q: "retire_q s = idx # rest"
  shows "retired_inv (retire_one idx (s\<lparr>retire_q := rest\<rparr>))"
proof -
  let ?t = "retire_one idx (s\<lparr>retire_q := rest\<rparr>)"
  have idx: "idx \<in> stage_set Retire s" using loc_inv_queue(1) [OF loc, of Retire] q by auto
  then have idx': "idx < next_to_fetch s" "idx < length (sim_instrs s)"
    using loc by (auto simp: loc_inv_def stage_set_def)
  have notin: "idx \<notin> stage_set Done s" using idx by (auto simp: stage_set_def)
  have ss: "stage_set Done ?t = insert idx (stage_set Done s)"
    using idx' by (auto simp: stage_set_def step_defs nth_list_update)
  have at: "sim_instrs ?t ! i = (if i = idx then (sim_instrs s ! idx)\<lparr>instr_stage := Done\<rparr> else sim_instrs s ! i)" for i
    using idx' by (simp add: step_defs nth_list_update)
  have sums: "(\<Sum>i\<in>stage_set Done s. complete_cycle (sim_instrs ?t ! i) - enqueue_cycle (sim_instrs ?t ! i)) =
      (\<Sum>i\<in>stage_set Done s. complete_cycle (sim_instrs s ! i) - enqueue_cycle (sim_instrs s ! i))"
    using notin by (intro sum.cong) (auto simp: at)
  have img: "(\<lambda>i. instr_id (sim_instrs ?t ! i)) ` stage_set Done s = (\<lambda>i. instr_id (sim_instrs s ! i)) ` stage_set Done s"
    using notin by (intro image_cong) (auto simp: at)
  show ?thesis
    using inv notin idx' unfolding retired_inv_def ss
    by (simp add: sums img) (simp add: at, simp add: step_defs add.commute)
qed

lemma pipe_step_retired:
  "pipe_step config b s t \<Longrightarrow> loc_inv {#} s \<Longrightarrow> retired_inv s \<Longrightarrow> retired_inv t"
proof (induction rule: pipe_step.induct)
  case (retire s idx rest)
  then show ?case by (intro retire_one_retired)
next
  case (wake s idx rest)
  have "idx \<in> stage_set Dispatch s" using wake(4) wake(1) by (simp add: front_stage)
  with wake(5,4) show ?case by (rule retired_inv_move) (auto simp: step_defs)
next
  case (issue s idx rest uses_memory)
  have "idx \<in> stage_set Ready s" using issue(4) issue(1) by (simp add: front_stage)
  with issue(5,4) show ?case by (rule retired_inv_move) (auto simp: step_defs)
next
  case (dispatch s idx rest)
  have "idx \<in> stage_set Decode s" using dispatch(3) dispatch(1) by (simp add: front_stage)
  with dispatch(4,3) show ?case by (rule retired_inv_move) (auto simp: step_defs)
next
  case (decode s idx rest)
  have "idx \<in> stage_set Fetch s" using decode(2) decode(1) by (simp add: front_stage)
  with decode(3,2) show ?case by (rule retired_inv_move) (auto simp: step_defs)
next
  case (fetch s)
  from fetch(3) show ?case
    by (rule retired_inv_frame)
      (use fetch(1) in \<open>auto simp: step_defs stage_set_def nth_list_update less_Suc_eq\<close>)
qed (auto simp: retired_inv_def stage_set_def step_defs)

definition unit_inv :: "simulator_config \<Rightarrow> sim_state \<Rightarrow> bool" where
  "unit_inv config s \<longleftrightarrow>
     unat (memory_in_use s) = length (filter slot_uses_memory (exec_slots s)) \<and>
     unat (compute_in_use s) = length (filter (\<lambda>slot. \<not> slot_uses_memory slot) (exec_slots s)) \<and>
     memory_in_use s \<le> memory_ports config \<and> compute_in_use s \<le> compute_units config \<and>
     (\<forall>slot \<in> set (exec_slots s). slot_uses_memory slot =
        is_memory_op (instr_type (sim_instrs s ! slot_index slot)))"

lemma instr_type_update:
  "instr_type i = instr_type (xs ! idx) \<Longrightarrow> instr_type (xs[idx := i] ! j) = instr_type (xs ! j)"
  by (cases "idx < length xs") (auto simp: nth_list_update list_update_beyond)

lemma pipe_step_unit: "pipe_step config b s t \<Longrightarrow> unit_inv config s \<Longrightarrow> unit_inv config t"
  by (induction rule: pipe_step.induct)
    (auto simp: unit_inv_def step_defs instr_type_update unat_inc_below word_inc_le_below)

definition cap_inv :: "simulator_config \<Rightarrow> sim_state \<Rightarrow> bool" where
  "cap_inv config s \<longleftrightarrow>
     length (dispatch_q s) \<le> unat (dispatch_queue_capacity config) \<and>
     length (ready_q s) \<le> unat (ready_queue_capacity config)"

lemma pipe_step_cap: "pipe_step config b s t \<Longrightarrow> cap_inv config s \<Longrightarrow> cap_inv config t"
  by (induction rule: pipe_step.induct) (auto simp: cap_inv_def step_defs)

definition order_inv :: "sim_state \<Rightarrow> bool" where
  "order_inv s \<longleftrightarrow> (\<exists>a \<le> next_to_fetch s. decode_q s @ fetch_q s = [a..<next_to_fetch s])"

lemma pipe_step_order: "pipe_step config b s t \<Longrightarrow> order_inv s \<Longrightarrow> order_inv t"
proof (induction rule: pipe_step.induct)
  case (dispatch s idx rest)
  then obtain a where a: "a \<le> next_to_fetch s" "idx # rest @ fetch_q s = [a..<next_to_fetch s]"
    by (auto simp: order_inv_def)
  then have "a < next_to_fetch s" by (cases "a < next_to_fetch s") auto
  with a have "a < next_to_fetch s" "rest @ fetch_q s = [Suc a..<next_to_fetch s]"
    by (auto simp: upt_conv_Cons)
  then show ?case
    unfolding order_inv_def by (intro exI [of _ "Suc a"]) (auto simp: step_defs)
qed (auto simp: order_inv_def step_defs)


definition dep_inv :: "sim_state \<Rightarrow> bool" where
  "dep_inv s \<longleftrightarrow>
     (\<forall>i < next_to_fetch s. Ready \<le> instr_stage (sim_instrs s ! i) \<longrightarrow>
        set (deps (sim_instrs s ! i)) \<subseteq> retired_ids s)"

lemma stage_order [simp]:
  "\<not> Ready \<le> Fetch" "\<not> Ready \<le> Decode" "\<not> Ready \<le> Dispatch" "Ready \<le> Ready"
  "Ready \<le> Execute" "Ready \<le> Retire" "Ready \<le> Done"
  by (simp_all add: less_eq_stage_def stage_rank_def)

lemma pipe_step_dep:
  "pipe_step config b s t \<Longrightarrow> loc_inv {#} s \<Longrightarrow> dep_inv s \<Longrightarrow> dep_inv t"
proof (induction rule: pipe_step.induct)
  case (retire s idx rest)
  have "idx \<in> stage_set Retire s" using retire(3,2) by (simp add: front_stage)
  with retire show ?case
    by (fastforce simp: dep_inv_def step_defs nth_list_update stage_set_def loc_inv_def)
next
  case (wake s idx rest)
  have "idx \<in> stage_set Dispatch s" using wake(4) wake(1) by (simp add: front_stage)
  with wake show ?case
    by (auto simp: dep_inv_def step_defs nth_list_update stage_set_def loc_inv_def deps_satisfied_iff)
next
  case (issue s idx rest uses_memory)
  have "idx \<in> stage_set Ready s" using issue(4) issue(1) by (simp add: front_stage)
  with issue show ?case
    by (auto simp: dep_inv_def step_defs nth_list_update stage_set_def loc_inv_def)
next
  case (dispatch s idx rest)
  have "idx \<in> stage_set Decode s" using dispatch(3) dispatch(1) by (simp add: front_stage)
  with dispatch show ?case
    by (auto simp: dep_inv_def step_defs nth_list_update stage_set_def loc_inv_def)
next
  case (decode s idx rest)
  have "idx \<in> stage_set Fetch s" using decode(2) decode(1) by (simp add: front_stage)
  with decode show ?case
    by (auto simp: dep_inv_def step_defs nth_list_update stage_set_def loc_inv_def)
next
  case (fetch s)
  then show ?case
    by (auto simp: dep_inv_def step_defs nth_list_update less_Suc_eq)
qed (auto simp: dep_inv_def step_defs)

definition slot_time :: "nat \<Rightarrow> sim_state \<Rightarrow> exec_slot \<Rightarrow> bool" where
  "slot_time d s slot \<longleftrightarrow>
     (let i = sim_instrs s ! slot_index slot in
        slot_remaining slot \<le> execute_latency i \<and>
        (slot_remaining slot = 0 \<longrightarrow> execute_latency i = 0) \<and>
        sim_cycle s = issue_cycle i +
          of_nat (d + (unat (execute_latency i) - unat (slot_remaining slot))))"

definition finish_time :: "instruction \<Rightarrow> bool" where
  "finish_time i \<longleftrightarrow> complete_cycle i = issue_cycle i + of_nat (max 1 (unat (execute_latency i)))"

definition time_inv :: "nat \<Rightarrow> sim_state \<Rightarrow> bool" where
  "time_inv d s \<longleftrightarrow>
     (\<forall>slot \<in> set (exec_slots s). slot_time d s slot) \<and>
     (\<forall>i \<in> stage_set Retire s \<union> stage_set Done s. finish_time (sim_instrs s ! i))"

lemma time_inv_frame:
  assumes inv: "time_inv d s" and "sim_cycle t = sim_cycle s" and "exec_slots t = exec_slots s"
    and "\<And>slot. slot \<in> set (exec_slots s) \<Longrightarrow>
      sim_instrs t ! slot_index slot = sim_instrs s ! slot_index slot"
    and "stage_set Retire t \<union> stage_set Done t \<subseteq> stage_set Retire s \<union> stage_set Done s"
    and "\<And>i. i \<in> stage_set Retire s \<union> stage_set Done s \<Longrightarrow>
      finish_time (sim_instrs t ! i) = finish_time (sim_instrs s ! i)"
  shows "time_inv d t"
  using assms unfolding time_inv_def slot_time_def by (auto simp: subset_iff)

lemma time_inv_move:
  assumes inv: "time_inv d s" and loc: "loc_inv {#} s" and idx: "idx \<in> stage_set st s"
    and st: "st \<noteq> Execute" "st \<noteq> Done" and ins: "sim_instrs t = (sim_instrs s)[idx := i]"
    and stage: "st = Retire \<or> instr_stage i \<notin> {Retire, Done}"
    and ft: "st = Retire \<Longrightarrow> finish_time i = finish_time (sim_instrs s ! idx)"
    and rest: "next_to_fetch t = next_to_fetch s" "sim_cycle t = sim_cycle s"
      "exec_slots t = exec_slots s"
  shows "time_inv d t"
proof (rule time_inv_frame [OF inv rest(2,3)])
  have len: "next_to_fetch s \<le> length (sim_instrs s)" and idx': "idx < next_to_fetch s"
    using loc idx by (auto simp: loc_inv_def stage_set_def)
  show "stage_set Retire t \<union> stage_set Done t \<subseteq> stage_set Retire s \<union> stage_set Done s"
    using stage idx unfolding stage_set_write [OF ins rest(1) idx' len] by auto
  fix slot assume "slot \<in> set (exec_slots s)"
  then have "slot_index slot \<in> stage_set Execute s" by (rule slot_index_stage [OF loc])
  then have "slot_index slot \<noteq> idx" using idx st by (auto simp: stage_set_def)
  then show "sim_instrs t ! slot_index slot = sim_instrs s ! slot_index slot" using ins by simp
next
  fix j assume "j \<in> stage_set Retire s \<union> stage_set Done s"
  then show "finish_time (sim_instrs t ! j) = finish_time (sim_instrs s ! j)"
    using ins ft st loc idx by (cases "j = idx") (auto simp: loc_inv_def stage_set_def)
qed

lemma retire_one_time:
  assumes "retire_q s = idx # rest" and "loc_inv {#} s" and "time_inv d s"
  shows "time_inv d (retire_one idx (s\<lparr>retire_q := rest\<rparr>))"
proof -
  have "idx \<in> stage_set Retire s" using assms(1,2) by (simp add: front_stage)
  with assms(3,2) show ?thesis
    by (rule time_inv_move [where i = "(sim_instrs s ! idx)\<lparr>instr_stage := Done\<rparr>"])
      (auto simp: step_defs finish_time_def)
qed

lemma pipe_step_time:
  "pipe_step config b s t \<Longrightarrow> loc_inv {#} s \<Longrightarrow> time_inv 0 s \<Longrightarrow> time_inv 0 t"
proof (induction rule: pipe_step.induct)
  case (retire s idx rest)
  then show ?case by (intro retire_one_time)
next
  case (wake s idx rest)
  have "idx \<in> stage_set Dispatch s" using wake(4) wake(1) by (simp add: front_stage)
  with wake(5,4) show ?case by (rule time_inv_move) (auto simp: step_defs finish_time_def)
next
  case (issue s idx rest uses_memory)
  have idx: "idx \<in> stage_set Ready s" using issue(4) issue(1) by (simp add: front_stage)
  let ?s = "s\<lparr>sim_instrs := (sim_instrs s)[idx := (sim_instrs s ! idx)\<lparr>instr_stage := Execute, issue_cycle := sim_cycle s\<rparr>]\<rparr>"
  have "time_inv 0 ?s"
    using issue(5,4) idx by (rule time_inv_move) auto
  moreover have "idx < length (sim_instrs s)" using idx issue(4) by (auto simp: loc_inv_def stage_set_def)
  ultimately show ?case
    by (auto simp: time_inv_def slot_time_def step_defs stage_set_def)
next
  case (dispatch s idx rest)
  have "idx \<in> stage_set Decode s" using dispatch(3) dispatch(1) by (simp add: front_stage)
  with dispatch(4,3) show ?case by (rule time_inv_move) (auto simp: step_defs finish_time_def)
next
  case (decode s idx rest)
  have "idx \<in> stage_set Fetch s" using decode(2) decode(1) by (simp add: front_stage)
  with decode(3,2) show ?case by (rule time_inv_move) (auto simp: step_defs finish_time_def)
next
  case (fetch s)
  have "\<forall>slot \<in> set (exec_slots s). next_to_fetch s \<noteq> slot_index slot"
    using slot_index_stage [OF fetch(2)] by (fastforce simp: stage_set_def)
  with fetch(3) show ?case
    by (intro time_inv_frame [OF fetch(3)])
      (use fetch(1) in \<open>auto simp: step_defs stage_set_def nth_list_update less_Suc_eq\<close>)
qed (auto simp: time_inv_def slot_time_def step_defs stage_set_def)


section \<open>The whole invariant\<close>

definition pipe_inv :: "simulator_config \<Rightarrow> instruction list \<Rightarrow> nat \<Rightarrow> sim_state \<Rightarrow> bool" where
  "pipe_inv config workload d s \<longleftrightarrow>
     program_inv workload s \<and> loc_inv {#} s \<and> retired_inv s \<and> unit_inv config s \<and>
     cap_inv config s \<and> order_inv s \<and> dep_inv s \<and> time_inv d s"

lemma pipe_invD:
  assumes "pipe_inv config w d s"
  shows "program_inv w s" and "loc_inv {#} s" and "retired_inv s" and "unit_inv config s"
    and "cap_inv config s" and "order_inv s" and "dep_inv s" and "time_inv d s"
  using assms by (simp_all add: pipe_inv_def)

lemma pipe_step_inv:
  "pipe_step config b s t \<Longrightarrow> pipe_inv config w 0 s \<Longrightarrow> pipe_inv config w 0 t"
  by (simp add: pipe_inv_def pipe_step_program pipe_step_loc pipe_step_retired pipe_step_unit
      pipe_step_cap pipe_step_order pipe_step_dep pipe_step_time)

lemma pipe_steps_inv:
  "pipe_steps config b s t \<Longrightarrow> pipe_inv config w 0 s \<Longrightarrow> pipe_inv config w 0 t"
  by (rule invariant_steps [where P = "pipe_inv config w 0"]) (auto intro: pipe_step_inv)

lemma retire_one_inv:
  assumes "retire_q s = idx # rest" and "pipe_inv config w d s"
  shows "pipe_inv config w d (retire_one idx (s\<lparr>retire_q := rest\<rparr>))"
proof -
  note step = pipe_step.retire [OF TrueI assms(1), of config]
  show ?thesis
    using assms step unfolding pipe_inv_def
    by (simp add: pipe_step_program pipe_step_loc pipe_step_retired pipe_step_unit
        pipe_step_cap pipe_step_order pipe_step_dep retire_one_time)
qed

lemma retire_pass_inv: "pipe_inv config w d s \<Longrightarrow> pipe_inv config w d (retire_pass s)"
proof (induction s rule: retire_pass.induct)
  case (1 s)
  then show ?case
    by (auto simp: retire_pass.simps [of s] retire_one_inv split: list.split)
qed

lemma retire_pass_empty: "retire_q (retire_pass s) = []"
proof (induction s rule: retire_pass.induct)
  case (1 s)
  then show ?case by (auto simp: retire_pass.simps [of s] split: list.split)
qed

lemma retire_pass_frame:
  "exec_slots (retire_pass s) = exec_slots s \<and> fetch_q (retire_pass s) = fetch_q s \<and>
   decode_q (retire_pass s) = decode_q s \<and> dispatch_q (retire_pass s) = dispatch_q s \<and>
   ready_q (retire_pass s) = ready_q s \<and> next_to_fetch (retire_pass s) = next_to_fetch s \<and>
   sim_cycle (retire_pass s) = sim_cycle s \<and>
   compute_in_use (retire_pass s) = compute_in_use s \<and>
   memory_in_use (retire_pass s) = memory_in_use s"
proof (induction s rule: retire_pass.induct)
  case (1 s)
  then show ?case
    by (auto simp: retire_pass.simps [of s] step_defs split: list.split)
qed

section \<open>Ageing the execution slots\<close>

definition tick_slot :: "exec_slot \<Rightarrow> exec_slot" where
  "tick_slot slot =
     (if 0 < slot_remaining slot then slot\<lparr>slot_remaining := slot_remaining slot - 1\<rparr> else slot)"

definition slot_done :: "exec_slot \<Rightarrow> bool" where
  "slot_done slot \<longleftrightarrow> slot_remaining (tick_slot slot) = 0"

definition mem_slots :: "exec_slot list \<Rightarrow> nat" where
  "mem_slots slots = length (filter slot_uses_memory slots)"

definition alu_slots :: "exec_slot list \<Rightarrow> nat" where
  "alu_slots slots = length (filter (\<lambda>slot. \<not> slot_uses_memory slot) slots)"

lemma slot_count_simps [simp]:
  "mem_slots [] = 0" "alu_slots [] = 0"
  "mem_slots (x # xs) = (if slot_uses_memory x then 1 else 0) + mem_slots xs"
  "alu_slots (x # xs) = (if slot_uses_memory x then 0 else 1) + alu_slots xs"
  by (simp_all add: mem_slots_def alu_slots_def)

lemma tick_slot_fields [simp]:
  "slot_index (tick_slot slot) = slot_index slot"
  "slot_uses_memory (tick_slot slot) = slot_uses_memory slot"
  by (simp_all add: tick_slot_def)

lemma slot_count_split:
  "mem_slots (filter slot_done xs) + mem_slots (filter (Not \<circ> slot_done) xs) = mem_slots xs"
  "alu_slots (filter slot_done xs) + alu_slots (filter (Not \<circ> slot_done) xs) = alu_slots xs"
  by (induction xs) auto

lemma slot_count_tick [simp]:
  "mem_slots (map tick_slot xs) = mem_slots xs" "alu_slots (map tick_slot xs) = alu_slots xs"
  by (induction xs) auto

text \<open>With enough units in use, the scan splits the slots into the running and the finished ones.\<close>

lemma exec_scan_eq:
  assumes "mem_slots (filter slot_done slots) \<le> unat memory"
    and "alu_slots (filter slot_done slots) \<le> unat compute"
  shows "exec_scan slots rs fin compute memory =
    Inr (rs @ map tick_slot (filter (Not \<circ> slot_done) slots),
         fin @ map slot_index (filter slot_done slots),
         compute - of_nat (alu_slots (filter slot_done slots)),
         memory - of_nat (mem_slots (filter slot_done slots)))"
  using assms
proof (induction slots arbitrary: rs fin compute memory)
  case Nil
  then show ?case by simp
next
  case (Cons slot slots)
  have tick: "(if 0 < slot_remaining slot
      then slot\<lparr>slot_remaining := slot_remaining slot - 1\<rparr> else slot) = tick_slot slot"
    by (simp add: tick_slot_def)
  show ?case
  proof (cases "slot_done slot")
    case False
    then show ?thesis using Cons by (simp add: tick slot_done_def)
  next
    case True
    show ?thesis
    proof (cases "slot_uses_memory slot")
      case mem: True
      have "memory \<noteq> 0" using Cons.prems True mem by auto
      then show ?thesis
        using Cons.IH [of "memory - 1" compute] Cons.prems True mem
        by (simp add: tick slot_done_def unat_dec algebra_simps)
    next
      case alu: False
      have "compute \<noteq> 0" using Cons.prems True alu by auto
      then show ?thesis
        using Cons.IH [of memory "compute - 1"] Cons.prems True alu
        by (simp add: tick slot_done_def unat_dec algebra_simps)
    qed
  qed
qed


text \<open>The invariant while the indices \<open>h\<close> have left their slots and await retirement.\<close>

definition hand_inv ::
  "simulator_config \<Rightarrow> instruction list \<Rightarrow> nat multiset \<Rightarrow> sim_state \<Rightarrow> bool" where
  "hand_inv config workload h s \<longleftrightarrow>
     program_inv workload s \<and> loc_inv h s \<and> retired_inv s \<and> unit_inv config s \<and>
     cap_inv config s \<and> order_inv s \<and> dep_inv s \<and> time_inv 0 s \<and>
     (\<forall>i \<in># h. sim_cycle s = issue_cycle (sim_instrs s ! i) +
        of_nat (max 1 (unat (execute_latency (sim_instrs s ! i)))))"

lemma hand_inv_empty: "hand_inv config w {#} s \<longleftrightarrow> pipe_inv config w 0 s"
  by (simp add: hand_inv_def pipe_inv_def)

lemma mset_set_split:
  assumes "A + B = mset_set S" and "finite S"
  shows "set_mset A \<union> set_mset B = S" and "x \<in># A \<Longrightarrow> x \<notin># B"
    and "x \<in># B \<Longrightarrow> x \<notin># B - {#x#}"
proof -
  have le1: "count A x + count B x \<le> 1" for x
    using arg_cong [OF assms(1), of "\<lambda>m. count m x"] by (simp add: count_mset_set')
  show "set_mset A \<union> set_mset B = S"
    using arg_cong [OF assms(1), of set_mset] assms(2) by simp
  show "x \<in># A \<Longrightarrow> x \<notin># B"
    using le1 [of x] by (metis Suc_le_eq add_mono count_greater_zero_iff not_one_le_zero
        numeral_le_one_iff one_add_one order_trans semiring_norm(69) One_nat_def)
  show "x \<in># B \<Longrightarrow> x \<notin># B - {#x#}"
    using le1 [of x] by (simp add: not_in_iff)
qed

lemma exec_hand:
  "loc_inv h s \<Longrightarrow> mset (map slot_index (exec_slots s)) + h = mset_set (stage_set Execute s)"
  unfolding loc_inv_def by (metis queue_of_simps(5) stage.distinct(39))

lemma hand_in_execute: "loc_inv h s \<Longrightarrow> i \<in># h \<Longrightarrow> i \<in> stage_set Execute s"
  using mset_set_split(1) [OF exec_hand] by fastforce

lemma hand_not_in_slots:
  "loc_inv h s \<Longrightarrow> i \<in># h \<Longrightarrow> slot \<in> set (exec_slots s) \<Longrightarrow> slot_index slot \<noteq> i"
  using mset_set_split(2) [OF exec_hand] by fastforce

lemma hand_in_slots_stage:
  "loc_inv h s \<Longrightarrow> slot \<in> set (exec_slots s) \<Longrightarrow> slot_index slot \<in> stage_set Execute s"
  using mset_set_split(1) [OF exec_hand] by fastforce

lemma complete_one_hand:
  assumes inv: "hand_inv config w (add_mset idx h) s"
  shows "hand_inv config w h (complete_one idx s)"
proof -
  let ?t = "complete_one idx s"
  let ?i = "(sim_instrs s ! idx)\<lparr>complete_cycle := sim_cycle s, instr_stage := Retire\<rparr>"
  have loc: "loc_inv (add_mset idx h) s" using inv by (simp add: hand_inv_def)
  have idx: "idx \<in> stage_set Execute s" using hand_in_execute [OF loc] by simp
  have bounds: "idx < next_to_fetch s" "idx < length (sim_instrs s)"
    using loc idx by (auto simp: loc_inv_def stage_set_def)
  have notin: "idx \<notin># h" using mset_set_split(3) [OF exec_hand [OF loc], of idx] by simp
  have ins: "sim_instrs ?t = (sim_instrs s)[idx := ?i]" by (simp add: step_defs)
  have "loc_inv h ?t"
    by (rule loc_inv_move [OF loc idx _ _ ins])
      (auto simp: step_defs queue_of_def split: stage.splits)
  moreover have "retired_inv ?t"
    using inv loc idx by (intro retired_inv_move [where st = Execute and t = ?t and i = ?i])
      (auto simp: hand_inv_def step_defs)
  moreover have "program_inv w ?t" "unit_inv config ?t" "cap_inv config ?t" "order_inv ?t"
    using inv by (auto simp: hand_inv_def program_inv_def unit_inv_def cap_inv_def order_inv_def
        step_defs map_core_update instr_core_def instr_type_update)
  moreover have "dep_inv ?t"
    using inv bounds idx by (auto simp: hand_inv_def dep_inv_def step_defs nth_list_update stage_set_def)
  moreover have "time_inv 0 ?t"
    unfolding time_inv_def
  proof (intro conjI ballI)
    fix slot assume "slot \<in> set (exec_slots ?t)"
    then have "slot \<in> set (exec_slots s)" by (simp add: step_defs)
    moreover from this have "slot_index slot \<noteq> idx" using hand_not_in_slots [OF loc] by auto
    ultimately show "slot_time 0 ?t slot"
      using inv by (auto simp: hand_inv_def time_inv_def slot_time_def step_defs Let_def)
  next
    fix j assume j: "j \<in> stage_set Retire ?t \<union> stage_set Done ?t"
    show "finish_time (sim_instrs ?t ! j)"
    proof (cases "j = idx")
      case True
      then show ?thesis
        using inv bounds by (simp add: hand_inv_def finish_time_def step_defs)
    next
      case False
      then have "j \<in> stage_set Retire s \<union> stage_set Done s"
        using j by (auto simp: stage_set_def step_defs)
      then show ?thesis
        using inv False by (auto simp: hand_inv_def time_inv_def step_defs)
    qed
  qed
  moreover have "\<forall>i \<in># h. sim_cycle ?t = issue_cycle (sim_instrs ?t ! i) +
      of_nat (max 1 (unat (execute_latency (sim_instrs ?t ! i))))"
  proof
    fix i assume "i \<in># h"
    then have ne: "i \<noteq> idx" and "i \<in># add_mset idx h" using notin by auto
    then have "sim_cycle s = issue_cycle (sim_instrs s ! i) +
        of_nat (max 1 (unat (execute_latency (sim_instrs s ! i))))"
      using inv unfolding hand_inv_def by blast
    then show "sim_cycle ?t = issue_cycle (sim_instrs ?t ! i) +
        of_nat (max 1 (unat (execute_latency (sim_instrs ?t ! i))))"
      using ne unfolding complete_one_def write_instr_def Let_def by simp
  qed
  ultimately show ?thesis by (simp add: hand_inv_def)
qed

lemma complete_all_hand:
  "hand_inv config w (mset finished) s \<Longrightarrow> pipe_inv config w 0 (fold complete_one finished s)"
proof (induction finished arbitrary: s)
  case Nil
  then show ?case by (simp add: hand_inv_empty)
next
  case (Cons idx finished)
  then show ?case by (simp add: complete_one_hand)
qed


lemma filter_split_mset:
  "image_mset f (mset (filter (Not \<circ> p) xs)) + image_mset f (mset (filter p xs)) =
   image_mset f (mset xs)"
  by (induction xs) auto

lemma unat_minus_of_nat: "m \<le> unat w \<Longrightarrow> unat (w - of_nat m :: 'a::len word) = unat w - m"
  by (metis le_unat_uoi unat_sub word_le_nat_alt)

lemma minus_of_nat_le: "m \<le> unat w \<Longrightarrow> (w - of_nat m :: 'a::len word) \<le> w"
  by (simp add: word_le_nat_alt unat_minus_of_nat)

lemma slot_tick_time:
  assumes "slot_time 1 s slot"
  shows "slot_done slot \<Longrightarrow> sim_cycle s = issue_cycle (sim_instrs s ! slot_index slot) +
        of_nat (max 1 (unat (execute_latency (sim_instrs s ! slot_index slot))))"
    and "\<not> slot_done slot \<Longrightarrow> slot_time 0 s (tick_slot slot)"
proof -
  let ?r = "slot_remaining slot" let ?l = "execute_latency (sim_instrs s ! slot_index slot)"
  have h: "?r \<le> ?l" "?r = 0 \<Longrightarrow> ?l = 0"
    "sim_cycle s = issue_cycle (sim_instrs s ! slot_index slot) + of_nat (1 + (unat ?l - unat ?r))"
    using assms by (auto simp: slot_time_def Let_def)
  {
    assume "slot_done slot"
    then have "?r = 0 \<or> ?r - 1 = 0" by (auto simp: slot_done_def tick_slot_def split: if_splits)
    then have r: "unat ?r \<le> 1" by auto
    have "max 1 (unat ?l) = 1 + (unat ?l - unat ?r)"
    proof (cases "?r = 0")
      case True
      then show ?thesis using h(2) by simp
    next
      case False
      then have "unat ?r = 1" using r by (metis le_neq_implies_less less_one unat_eq_zero)
      then show ?thesis using h(1) by (simp add: word_le_nat_alt)
    qed
    then show "sim_cycle s = issue_cycle (sim_instrs s ! slot_index slot) + of_nat (max 1 (unat ?l))"
      using h(3) by simp
  next
    assume nd: "\<not> slot_done slot"
    then have r: "?r \<noteq> 0" "?r - 1 \<noteq> 0" by (auto simp: slot_done_def tick_slot_def split: if_splits)
    have u: "unat (?r - 1) = unat ?r - 1" "0 < unat ?r" "unat ?r \<le> unat ?l"
      using r h(1) by (simp_all add: unat_dec word_le_nat_alt unat_gt_0)
    then have "1 + (unat ?l - unat ?r) = unat ?l - unat (?r - 1)" by simp
    then show "slot_time 0 s (tick_slot slot)"
      using h(3) r u by (auto simp: slot_time_def tick_slot_def word_le_nat_alt Let_def word_gt_0)
  }
qed


definition aged :: "sim_state \<Rightarrow> sim_state" where
  "aged s = s\<lparr>exec_slots := map tick_slot (filter (Not \<circ> slot_done) (exec_slots s)),
     compute_in_use := compute_in_use s - of_nat (alu_slots (filter slot_done (exec_slots s))),
     memory_in_use := memory_in_use s - of_nat (mem_slots (filter slot_done (exec_slots s)))\<rparr>"

definition finished_now :: "sim_state \<Rightarrow> nat list" where
  "finished_now s = map slot_index (filter slot_done (exec_slots s))"

lemma unit_inv_counts:
  assumes "unit_inv config s"
  shows "mem_slots (exec_slots s) = unat (memory_in_use s)"
    and "alu_slots (exec_slots s) = unat (compute_in_use s)"
    and "mem_slots (filter slot_done (exec_slots s)) \<le> unat (memory_in_use s)"
    and "alu_slots (filter slot_done (exec_slots s)) \<le> unat (compute_in_use s)"
  using assms slot_count_split(1) [of "exec_slots s"] slot_count_split(2) [of "exec_slots s"]
  by (simp_all add: unit_inv_def mem_slots_def alu_slots_def)

lemma execute_pass_eq:
  "unit_inv config s \<Longrightarrow>
     execute_pass s = Inr (fold complete_one (finished_now s) (aged s))"
  using unit_inv_counts(3,4) [of config s]
  by (simp add: execute_pass_def exec_scan_eq aged_def finished_now_def)

lemma unit_inv_aged:
  assumes "unit_inv config s"
  shows "unit_inv config (aged s)"
proof -
  note c = unit_inv_counts [OF assms]
  let ?rest = "filter (Not \<circ> slot_done) (exec_slots s)"
  have "unat (memory_in_use (aged s)) = mem_slots (exec_slots (aged s))"
    "unat (compute_in_use (aged s)) = alu_slots (exec_slots (aged s))"
    using c slot_count_split [of "exec_slots s"]
    by (simp_all add: aged_def unat_minus_of_nat)
  moreover have "memory_in_use (aged s) \<le> memory_ports config"
    "compute_in_use (aged s) \<le> compute_units config"
    using assms minus_of_nat_le [OF c(3)] minus_of_nat_le [OF c(4)]
    by (auto simp: aged_def unit_inv_def intro: order_trans)
  moreover have "\<forall>slot \<in> set (exec_slots (aged s)). slot_uses_memory slot =
      is_memory_op (instr_type (sim_instrs (aged s) ! slot_index slot))"
    using assms by (auto simp: aged_def unit_inv_def)
  ultimately show ?thesis by (simp add: unit_inv_def mem_slots_def alu_slots_def)
qed

lemma aged_hand:
  assumes "pipe_inv config w 1 s"
  shows "hand_inv config w (mset (finished_now s)) (aged s)"
proof -
  have inv: "program_inv w s" "loc_inv {#} s" "retired_inv s" "unit_inv config s"
    "cap_inv config s" "order_inv s" "dep_inv s" "time_inv 1 s"
    using assms by (simp_all add: pipe_inv_def)
  have "loc_inv (mset (finished_now s)) (aged s)"
    using inv(2) filter_split_mset [of slot_index slot_done "exec_slots s"]
    by (auto simp: loc_inv_def aged_def finished_now_def queue_of_def stage_set_def
        multiset.map_comp comp_def split: stage.splits)
  moreover have "time_inv 0 (aged s)"
    using inv(8) slot_tick_time(2) [of s]
    by (auto simp: time_inv_def aged_def stage_set_def slot_time_def)
  moreover have "\<forall>i \<in># mset (finished_now s). sim_cycle (aged s) = issue_cycle (sim_instrs (aged s) ! i) +
        of_nat (max 1 (unat (execute_latency (sim_instrs (aged s) ! i))))"
    using inv(8) slot_tick_time(1) [of s]
    by (auto simp: time_inv_def aged_def finished_now_def)
  moreover have "program_inv w (aged s)" "retired_inv (aged s)" "cap_inv config (aged s)"
    "order_inv (aged s)" "dep_inv (aged s)"
    using inv by (simp_all add: program_inv_def retired_inv_def cap_inv_def order_inv_def dep_inv_def
        aged_def stage_set_def)
  ultimately show ?thesis using unit_inv_aged [OF inv(4)] by (simp add: hand_inv_def)
qed

text \<open>Ageing the slots never throws and turns the loop-head invariant into the mid-cycle one.\<close>

lemma execute_pass_inv:
  assumes "pipe_inv config w 1 s"
  obtains t where "execute_pass s = Inr t" and "pipe_inv config w 0 t"
proof -
  have "unit_inv config s" using assms by (simp add: pipe_inv_def)
  then show thesis
    using that execute_pass_eq complete_all_hand [OF aged_hand [OF assms]] by blast
qed

lemma sample_stats_only:
  obtains st where "sample_stats s = s\<lparr>sim_stats := st\<rparr>"
    and "completed_ops st = completed_ops (sim_stats s)"
    and "total_latency st = total_latency (sim_stats s)"
    and "stall_counts st = stall_counts (sim_stats s)"
  by (rule that [of "sim_stats (sample_stats s)"]) (simp_all add: sample_stats_def Let_def)

lemma queue_of_frame [simp]:
  "queue_of q (s\<lparr>sim_stats := st\<rparr>) = queue_of q s"
  "queue_of q (s\<lparr>sim_cycle := c\<rparr>) = queue_of q s"
  by (simp_all add: queue_of_def split: stage.split)

lemma stage_set_frame [simp]:
  "stage_set q (s\<lparr>sim_stats := st\<rparr>) = stage_set q s"
  "stage_set q (s\<lparr>sim_cycle := c\<rparr>) = stage_set q s"
  by (simp_all add: stage_set_def)

lemma sample_inv:
  assumes "pipe_inv config w 0 s"
  shows "pipe_inv config w 1 (sample_stats s\<lparr>sim_cycle := sim_cycle s + 1\<rparr>)"
proof -
  obtain st where st: "sample_stats s = s\<lparr>sim_stats := st\<rparr>"
    "completed_ops st = completed_ops (sim_stats s)" "total_latency st = total_latency (sim_stats s)"
    by (rule sample_stats_only)
  have "time_inv 1 (s\<lparr>sim_stats := st, sim_cycle := sim_cycle s + 1\<rparr>)"
    using assms by (auto simp: pipe_inv_def time_inv_def slot_time_def Let_def)
  moreover have "dep_inv (s\<lparr>sim_stats := st, sim_cycle := c\<rparr>)" for c
    using pipe_invD(7) [OF assms] by (simp add: dep_inv_def)
  moreover have "program_inv w (s\<lparr>sim_stats := st, sim_cycle := c\<rparr>)"
    "loc_inv {#} (s\<lparr>sim_stats := st, sim_cycle := c\<rparr>)"
    "retired_inv (s\<lparr>sim_stats := st, sim_cycle := c\<rparr>)"
    "unit_inv config (s\<lparr>sim_stats := st, sim_cycle := c\<rparr>)"
    "cap_inv config (s\<lparr>sim_stats := st, sim_cycle := c\<rparr>)"
    "order_inv (s\<lparr>sim_stats := st, sim_cycle := c\<rparr>)" for c
    using pipe_invD(1-6) [OF assms]
    by (simp_all add: program_inv_def loc_inv_def retired_inv_def unit_inv_def cap_inv_def
        order_inv_def st)
  ultimately show ?thesis unfolding st(1) pipe_inv_def by blast
qed

lemma sim_cycle_sample [simp]: "sim_cycle (sample_stats s) = sim_cycle s"
  by (simp add: sample_stats_def Let_def)

lemma cycle_step_inv:
  assumes "pipe_inv config w 1 s"
  obtains t where "cycle_step config s = Inr t" and "pipe_inv config w 1 t"
proof -
  obtain u where u: "execute_pass (retire_pass s) = Inr u" "pipe_inv config w 0 u"
    using execute_pass_inv [OF retire_pass_inv [OF assms]] .
  have "pipe_inv config w 0 (cycle_moves config u)"
    using pipe_steps_inv [OF cycle_moves_steps u(2)] .
  from sample_inv [OF this] have "pipe_inv config w 1 (cycle_tail config u)"
    by (simp add: cycle_tail_moves Let_def)
  then show thesis using that u(1) by (simp add: cycle_step_def)
qed

lemma initial_inv: "pipe_inv config w 1 (initial_state w)"
  by (simp add: pipe_inv_def program_inv_def loc_inv_def retired_inv_def unit_inv_def cap_inv_def
      order_inv_def dep_inv_def time_inv_def initial_state_def stage_set_def queue_of_def
      initial_stats_def empty_stats_def Let_def split: stage.split)

section \<open>Reachable states of a run\<close>

inductive reach :: "simulator_config \<Rightarrow> instruction list \<Rightarrow> nat \<Rightarrow> sim_state \<Rightarrow> bool"
  for config :: simulator_config and workload :: "instruction list" where
  reach_start: "reach config workload 0 (initial_state workload)"
| reach_cycle: "reach config workload n s \<Longrightarrow> has_work_left s \<Longrightarrow> cycle_step config s = Inr t \<Longrightarrow>
    reach config workload (Suc n) t"

lemma reach_inv: "reach config w n s \<Longrightarrow> pipe_inv config w 1 s"
proof (induction rule: reach.induct)
  case reach_start
  show ?case by (rule initial_inv)
next
  case (reach_cycle n s t)
  then show ?case using cycle_step_inv by (metis sum.inject(2))
qed

lemma run_loop_stop: "\<not> has_work_left s \<Longrightarrow> run_loop config s = Some (Inr s)"
  by (simp add: run_loop.simps)

lemma run_loop_cycle:
  "has_work_left s \<Longrightarrow> cycle_step config s = Inr t \<Longrightarrow> run_loop config s = run_loop config t"
  by (simp add: run_loop.simps [of config s])

text \<open>Whatever the loop returns, it returns from a reachable state; it never throws.\<close>

lemma run_loop_reach:
  assumes "run_loop config s = Some r" and "reach config w n s"
  shows "\<exists>m t. r = Inr t \<and> reach config w m t \<and> \<not> has_work_left t"
proof -
  have "\<forall>n. reach config w n s \<longrightarrow> (\<exists>m t. r = Inr t \<and> reach config w m t \<and> \<not> has_work_left t)"
    if ret: "run_loop config s = Some r" for s r
  proof (rule run_loop.raw_induct [where P = "\<lambda>c s r. c = config \<longrightarrow> (\<forall>n. reach config w n s \<longrightarrow>
        (\<exists>m t. r = Inr t \<and> reach config w m t \<and> \<not> has_work_left t))", OF _ ret, THEN mp])
    fix f c s r
    assume IH: "\<And>c s r. f c s = Some r \<Longrightarrow> c = config \<longrightarrow> (\<forall>n. reach config w n s \<longrightarrow>
        (\<exists>m t. r = Inr t \<and> reach config w m t \<and> \<not> has_work_left t))"
      and eq: "(if has_work_left s then (case cycle_step c s of Inl e \<Rightarrow> Some (Inl e) | Inr s' \<Rightarrow> f c s')
        else Some (Inr s)) = Some r"
    show "c = config \<longrightarrow> (\<forall>n. reach config w n s \<longrightarrow>
        (\<exists>m t. r = Inr t \<and> reach config w m t \<and> \<not> has_work_left t))"
    proof (intro impI allI)
      fix n assume c: "c = config" and n: "reach config w n s"
      show "\<exists>m t. r = Inr t \<and> reach config w m t \<and> \<not> has_work_left t"
      proof (cases "has_work_left s")
        case False
        then show ?thesis using eq n by auto
      next
        case True
        obtain t where t: "cycle_step config s = Inr t" using cycle_step_inv [OF reach_inv [OF n]] .
        with eq True c have "f config t = Some r" by simp
        with IH reach_cycle [OF n True t] show ?thesis by blast
      qed
    qed
  qed simp
  with assms show ?thesis by blast
qed

end
