(* ===== verification/Pipeline_Progress.thy ===== *)
theory Pipeline_Progress
  imports Pipeline_Invariants
begin

text \<open>
  Progress of the cycle simulator. \<open>work_left\<close> weighs every instruction by the stages and the
  latency still ahead of it: no step increases it, and retiring, ageing the slots, decoding and
  fetching use it up. With the back end empty and every dependency on an earlier instruction, the
  oldest waiting instruction can be woken (\<open>oldest_satisfied\<close>). \<open>Pipeline_Deadlock\<close> builds
  termination and its converse on these lemmas.
\<close>

section \<open>When a run can finish\<close>

text \<open>Every dependency is an earlier instruction of the workload.\<close>

definition topological :: "instruction list \<Rightarrow> bool" where
  "topological w \<longleftrightarrow>
     (\<forall>i < length w. \<forall>d \<in> set (deps (w ! i)). \<exists>j < i. instr_id (w ! j) = d)"

text \<open>There is a unit for every kind of operation in the workload.\<close>

definition units_for :: "simulator_config \<Rightarrow> instruction list \<Rightarrow> bool" where
  "units_for config w \<longleftrightarrow>
     (\<forall>i \<in> set w. if is_memory_op (instr_type i) then 0 < memory_ports config
                  else 0 < compute_units config)"

definition widths_positive :: "simulator_config \<Rightarrow> bool" where
  "widths_positive config \<longleftrightarrow> 0 < fetch_width config \<and> 0 < decode_width config \<and>
     0 < dispatch_width config \<and> 0 < issue_width config"

definition queues_positive :: "simulator_config \<Rightarrow> bool" where
  "queues_positive config \<longleftrightarrow>
     0 < dispatch_queue_capacity config \<and> 0 < ready_queue_capacity config"

section \<open>The work measure\<close>

definition lat :: "instruction list \<Rightarrow> nat \<Rightarrow> nat" where
  "lat w i = unat (execute_latency (w ! i))"

definition queue_work :: "instruction list \<Rightarrow> nat \<Rightarrow> nat list \<Rightarrow> nat" where
  "queue_work w k q = (\<Sum>i\<leftarrow>q. k + lat w i)"

definition work_left :: "instruction list \<Rightarrow> sim_state \<Rightarrow> nat" where
  "work_left w s =
     queue_work w 7 [next_to_fetch s..<length w] + queue_work w 6 (fetch_q s) +
     queue_work w 5 (decode_q s) + queue_work w 4 (dispatch_q s) + queue_work w 3 (ready_q s) +
     (\<Sum>slot\<leftarrow>exec_slots s. 2 + unat (slot_remaining slot)) + length (retire_q s)"

lemma queue_work_simps [simp]:
  "queue_work w k [] = 0"
  "queue_work w k (i # q) = k + lat w i + queue_work w k q"
  "queue_work w k (q @ q') = queue_work w k q + queue_work w k q'"
  by (simp_all add: queue_work_def)

lemma program_invD:
  assumes "program_inv w s"
  shows "length (sim_instrs s) = length w"
    and "i < length w \<Longrightarrow> instr_core (sim_instrs s ! i) = instr_core (w ! i)"
proof -
  show len: "length (sim_instrs s) = length w"
    using assms unfolding program_inv_def by (rule map_eq_imp_length_eq)
  show "i < length w \<Longrightarrow> instr_core (sim_instrs s ! i) = instr_core (w ! i)"
    using assms len unfolding program_inv_def by (metis nth_map)
qed

lemma program_inv_fields:
  assumes "program_inv w s" and "i < length w"
  shows "execute_latency (sim_instrs s ! i) = execute_latency (w ! i)"
    and "deps (sim_instrs s ! i) = deps (w ! i)"
    and "instr_id (sim_instrs s ! i) = instr_id (w ! i)"
    and "instr_type (sim_instrs s ! i) = instr_type (w ! i)"
    and "memory_bytes (sim_instrs s ! i) = memory_bytes (w ! i)"
  using program_invD(2) [OF assms] by (simp_all add: instr_core_def)

lemma fetched_bound:
  "program_inv w s \<Longrightarrow> loc_inv h s \<Longrightarrow> i \<in> stage_set st s \<Longrightarrow> i < length w"
  using program_invD(1) by (fastforce simp: loc_inv_def stage_set_def)

text \<open>A step either only rotates a queue or counts a stall, or it uses up work.\<close>

lemma pipe_step_work:
  "pipe_step config b s t \<Longrightarrow> program_inv w s \<Longrightarrow> loc_inv {#} s \<Longrightarrow> work_left w t \<le> work_left w s"
proof (induction rule: pipe_step.induct)
  case (issue s idx rest uses_memory)
  have "idx \<in> stage_set Ready s" using issue(5) issue(1) by (simp add: front_stage)
  then have "idx < length w" using fetched_bound issue by blast
  then have "unat (execute_latency (sim_instrs s ! idx)) = lat w idx" "idx < length (sim_instrs s)"
    using program_inv_fields(1) program_invD(1) issue(4) by (auto simp: lat_def)
  then show ?case using issue(1) by (auto simp: work_left_def step_defs)
next
  case (fetch s)
  then have "next_to_fetch s < length w" using program_invD(1) by metis
  then show ?case by (simp add: work_left_def step_defs upt_conv_Cons)
qed (auto simp: work_left_def step_defs)

lemma pipe_steps_work:
  "pipe_steps config b s t \<Longrightarrow> program_inv w s \<Longrightarrow> loc_inv {#} s \<Longrightarrow> work_left w t \<le> work_left w s"
proof (induction rule: rtranclp_induct)
  case base
  show ?case by simp
next
  case (step t u)
  have "program_inv w t" "loc_inv {#} t"
    using invariant_steps [OF step.hyps(1), of "program_inv w"]
      invariant_steps [OF step.hyps(1), of "loc_inv {#}"] step.prems
    by (auto intro: pipe_step_program pipe_step_loc)
  then show ?case using pipe_step_work [OF step.hyps(2)] step by (meson order_trans)
qed

section \<open>Where work is used up\<close>

lemma retire_one_work:
  "retire_q s = idx # rest \<Longrightarrow> work_left w (retire_one idx (s\<lparr>retire_q := rest\<rparr>)) < work_left w s"
  by (simp add: work_left_def step_defs)

lemma retire_pass_work:
  "work_left w (retire_pass s) \<le> work_left w s"
  "retire_q s \<noteq> [] \<Longrightarrow> work_left w (retire_pass s) < work_left w s"
proof (induction s rule: retire_pass.induct)
  case (1 s)
  {
    case 1
    then show ?case
      using "1.IH"(1) retire_one_work [of s _ _ w]
      by (auto simp: retire_pass.simps [of s] split: list.split)
  next
    case 2
    then show ?case
      using "1.IH"(1) retire_one_work [of s _ _ w]
      by (auto simp: retire_pass.simps [of s] neq_Nil_conv intro: le_less_trans)
  }
qed

lemma complete_all_work:
  "work_left w (fold complete_one fin s) = work_left w s + length fin"
proof (induction fin arbitrary: s)
  case Nil
  show ?case by simp
next
  case (Cons idx fin)
  have "work_left w (complete_one idx s) = Suc (work_left w s)"
    by (simp add: work_left_def step_defs)
  then show ?case using Cons by simp
qed

lemma aged_slot_work:
  "(\<Sum>slot\<leftarrow>map tick_slot (filter (Not \<circ> slot_done) xs). 2 + unat (slot_remaining slot)) +
     length (filter slot_done xs) + length xs
   \<le> (\<Sum>slot\<leftarrow>xs. 2 + unat (slot_remaining slot))"
proof (induction xs)
  case Nil
  show ?case by simp
next
  case (Cons x xs)
  show ?case
  proof (cases "slot_done x")
    case True
    then show ?thesis using Cons by simp
  next
    case False
    then have "slot_remaining x \<noteq> 0" by (auto simp: slot_done_def tick_slot_def)
    then have "unat (slot_remaining (tick_slot x)) = unat (slot_remaining x) - 1"
      "0 < unat (slot_remaining x)"
      by (simp_all add: tick_slot_def unat_dec unat_gt_0 word_gt_0)
    then show ?thesis using Cons False by simp
  qed
qed

lemma execute_pass_work:
  assumes "pipe_inv config w 1 s" and "execute_pass s = Inr t"
  shows "work_left w t + length (exec_slots s) \<le> work_left w s"
proof -
  have "t = fold complete_one (finished_now s) (aged s)"
    using assms execute_pass_eq [OF pipe_invD(4) [OF assms(1)]] by simp
  then have "work_left w t = work_left w (aged s) + length (finished_now s)"
    by (simp add: complete_all_work)
  moreover have "work_left w (aged s) + length (finished_now s) + length (exec_slots s)
      \<le> work_left w s"
    using aged_slot_work [of "exec_slots s"] by (simp add: work_left_def aged_def finished_now_def)
  ultimately show ?thesis by simp
qed

lemma write_instr_frame [simp]:
  "ready_q (write_instr idx f s) = ready_q s" "dispatch_q (write_instr idx f s) = dispatch_q s"
  "retired_ids (write_instr idx f s) = retired_ids s"
  by (simp_all add: write_instr_def)

lemma decode_pass_work:
  assumes "fetch_q s \<noteq> []" and "program_inv w s" and "loc_inv {#} s" and "0 < decode_width config"
  shows "work_left w (decode_pass config 0 s) < work_left w s"
proof -
  obtain idx rest where q: "fetch_q s = idx # rest" using assms(1) by (cases "fetch_q s") auto
  let ?t = "decode_one idx (s\<lparr>fetch_q := rest\<rparr>)"
  have step: "pipe_step config b s ?t" by (rule pipe_step.decode [OF q])
  have eq: "decode_pass config 0 s = decode_pass config 1 ?t"
    using q assms(4) by (simp add: decode_pass.simps [of config 0 s])
  have "work_left w (decode_pass config 1 ?t) \<le> work_left w ?t"
    using pipe_steps_work [OF decode_pass_steps] pipe_step_program [OF step assms(2)]
      pipe_step_loc [OF step assms(3)] by blast
  also have "\<dots> < work_left w s" using q by (simp add: work_left_def step_defs)
  finally show ?thesis by (simp add: eq)
qed

lemma fetch_pass_work:
  assumes "next_to_fetch s < length (sim_instrs s)" and "program_inv w s" and "loc_inv {#} s"
    and "0 < fetch_width config"
  shows "work_left w (fetch_pass config 0 s) < work_left w s"
proof -
  have step: "pipe_step config b s (fetch_one s)" by (rule pipe_step.fetch [OF assms(1)])
  have eq: "fetch_pass config 0 s = fetch_pass config 1 (fetch_one s)"
    using assms(1,4) by (simp add: fetch_pass.simps [of config 0 s])
  have "work_left w (fetch_pass config 1 (fetch_one s)) \<le> work_left w (fetch_one s)"
    using pipe_steps_work [OF fetch_pass_steps] pipe_step_program [OF step assms(2)]
      pipe_step_loc [OF step assms(3)] by blast
  also have "\<dots> < work_left w s"
    using assms(1) program_invD(1) [OF assms(2)] by (simp add: work_left_def step_defs upt_conv_Cons)
  finally show ?thesis by (simp add: eq)
qed

text \<open>
  With the back end empty and a workload in dependency order, the oldest waiting instruction has
  all its dependencies retired, so the dispatch queue cannot hold only waiting instructions.
\<close>

lemma oldest_satisfied:
  assumes inv: "pipe_inv config w d s" and topo: "topological w"
    and empty: "ready_q s = []" "exec_slots s = []" "retire_q s = []"
    and q: "dispatch_q s \<noteq> []"
  shows "\<exists>idx \<in> set (dispatch_q s). deps_satisfied (instr_at s idx) (retired_ids s)"
proof -
  note invs = pipe_invD [OF inv]
  have sets: "set (queue_of st s) = stage_set st s" if "st \<noteq> Done" for st
    using loc_inv_queue(1) [OF invs(2) that] by simp
  let ?i = "Min (set (dispatch_q s))"
  have i: "?i \<in> set (dispatch_q s)" using q by simp
  then have "?i \<in> stage_set Dispatch s" using sets [of Dispatch] by simp
  then have i': "?i < next_to_fetch s" "instr_stage (sim_instrs s ! ?i) = Dispatch" "?i < length w"
    using fetched_bound [OF invs(1,2)] by (auto simp: stage_set_def)
  obtain a where a: "decode_q s @ fetch_q s = [a..<next_to_fetch s]"
    using invs(6) by (auto simp: order_inv_def)
  have front: "set (decode_q s) \<union> set (fetch_q s) = {a..<next_to_fetch s}"
    using arg_cong [OF a, of set] by simp
  have notfront: "j \<notin> {a..<next_to_fetch s}" if "j \<le> ?i" for j
  proof
    assume "j \<in> {a..<next_to_fetch s}"
    then have "?i \<in> {a..<next_to_fetch s}" using that i' by simp
    then have "?i \<in> stage_set Decode s \<union> stage_set Fetch s"
      using front sets [of Decode] sets [of Fetch] by auto
    then show False using i' by (auto simp: stage_set_def)
  qed
  have "x \<in> retired_ids s" if x: "x \<in> set (deps (sim_instrs s ! ?i))" for x
  proof -
    have "x \<in> set (deps (w ! ?i))" using x program_inv_fields(2) [OF invs(1) i'(3)] by simp
    then obtain j where j: "j < ?i" "instr_id (w ! j) = x"
      using topo i' by (auto simp: topological_def)
    have nxt: "j < next_to_fetch s" "j < length w" using j i' by auto
    have "instr_stage (sim_instrs s ! j) \<noteq> st" if "st \<noteq> Done" for st
    proof
      assume st: "instr_stage (sim_instrs s ! j) = st"
      then have "j \<in> set (queue_of st s)" using sets [OF that] nxt by (auto simp: stage_set_def)
      moreover have "j \<notin> set (dispatch_q s)"
        using j(1) by (metis List.finite_set Min_le not_le)
      moreover have "j \<notin> set (decode_q s) \<union> set (fetch_q s)"
        using front notfront [of j] j by auto
      ultimately show False using empty by (cases st) auto
    qed
    then have "j \<in> stage_set Done s" using nxt by (auto simp: stage_set_def)
    moreover have "retired_ids s = (\<lambda>i. instr_id (sim_instrs s ! i)) ` stage_set Done s"
      using invs(3) by (simp add: retired_inv_def)
    ultimately show ?thesis
      using j(2) program_inv_fields(3) [OF invs(1) nxt(2)] by (metis imageI)
  qed
  then have "deps_satisfied (instr_at s ?i) (retired_ids s)"
    by (auto simp: deps_satisfied_iff instr_at_def)
  then show ?thesis using i by blast
qed

lemma work_left_sample [simp]:
  "work_left w (sample_stats s\<lparr>sim_cycle := c\<rparr>) = work_left w s"
  by (rule sample_stats_only [of s]) (simp add: work_left_def)

lemma initial_work: "work_left w (initial_state w) = (\<Sum>i\<leftarrow>w. 7 + unat (execute_latency i))"
proof -
  have "map (\<lambda>i. 7 + lat w i) [0..<length w] = map (\<lambda>i. 7 + unat (execute_latency i)) w"
    by (rule nth_equalityI) (auto simp: lat_def)
  then show ?thesis by (simp add: work_left_def initial_state_def queue_work_def)
qed

text \<open>What holds of a reachable state with no work left.\<close>

lemma finished_state:
  assumes inv: "pipe_inv config w 1 s" and stop: "\<not> has_work_left s"
  shows "length (sim_instrs s) = length w"
    and "stage_set Done s = {..<length w}"
    and "i < length w \<Longrightarrow> instr_stage (sim_instrs s ! i) = Done"
proof -
  note invs = pipe_invD [OF inv]
  show len: "length (sim_instrs s) = length w" by (rule program_invD(1) [OF invs(1)])
  have nxt: "next_to_fetch s = length w"
    using stop invs(2) len by (auto simp: has_work_left_def loc_inv_def)
  have "instr_stage (sim_instrs s ! i) = Done" if "i < length w" for i
  proof (rule ccontr)
    assume st: "instr_stage (sim_instrs s ! i) \<noteq> Done"
    let ?st = "instr_stage (sim_instrs s ! i)"
    have "i \<in> set (queue_of ?st s)"
      using loc_inv_queue(1) [OF invs(2) st] that nxt by (auto simp: stage_set_def)
    then show False using stop by (cases ?st) (auto simp: has_work_left_def queue_of_def)
  qed
  then show "stage_set Done s = {..<length w}"
    and "i < length w \<Longrightarrow> instr_stage (sim_instrs s ! i) = Done"
    using nxt by (auto simp: stage_set_def)
qed

end
