(* ===== verification/Pipeline_Deadlock.thy ===== *)
theory Pipeline_Deadlock
  imports Pipeline_Progress
begin

text \<open>
  When the loop of \<open>run_workload\<close> ends. A state is \<open>stuck\<close> when no pass of the loop body can move
  anything; a cycle from any other state uses up work (\<open>cycle_step_moves\<close>), a cycle from a stuck
  state only counts stalls (\<open>cycle_step_stuck\<close>). So a run returns within \<open>work_left\<close> of its initial
  state cycles, or reaches a stuck state within as many and never returns (\<open>run_loop_dichotomy\<close>).
  Under the conditions of \<open>Pipeline_Progress\<close> no reachable state with work left is stuck; a set of
  instructions that wait for each other always leads to a stuck state.
\<close>

section \<open>A state that cannot move\<close>

definition can_wake :: "simulator_config \<Rightarrow> sim_state \<Rightarrow> nat \<Rightarrow> bool" where
  "can_wake config s idx \<longleftrightarrow> deps_satisfied (instr_at s idx) (retired_ids s) \<and>
     length (ready_q s) < unat (ready_queue_capacity config)"

definition unit_free :: "simulator_config \<Rightarrow> sim_state \<Rightarrow> nat \<Rightarrow> bool" where
  "unit_free config s idx \<longleftrightarrow>
     (if is_memory_op (instr_type (instr_at s idx)) then memory_in_use s < memory_ports config
      else compute_in_use s < compute_units config)"

definition blocked :: "simulator_config \<Rightarrow> sim_state \<Rightarrow> bool" where
  "blocked config s \<longleftrightarrow>
     (\<forall>idx \<in> set (dispatch_q s). \<not> can_wake config s idx) \<and>
     (ready_q s = [] \<or> issue_width config = 0 \<or> (\<forall>idx \<in> set (ready_q s). \<not> unit_free config s idx)) \<and>
     (decode_q s = [] \<or> dispatch_width config = 0 \<or>
        unat (dispatch_queue_capacity config) \<le> length (dispatch_q s)) \<and>
     (fetch_q s = [] \<or> decode_width config = 0) \<and>
     (length (sim_instrs s) \<le> next_to_fetch s \<or> fetch_width config = 0)"

definition stuck :: "simulator_config \<Rightarrow> sim_state \<Rightarrow> bool" where
  "stuck config s \<longleftrightarrow> exec_slots s = [] \<and> retire_q s = [] \<and> blocked config s"

lemma blocked_frame [simp]:
  "blocked config (s\<lparr>sim_stats := st\<rparr>) = blocked config s"
  "blocked config (s\<lparr>sim_cycle := c\<rparr>) = blocked config s"
  by (simp_all add: blocked_def can_wake_def unit_free_def instr_at_def)

lemma unit_free_frame:
  "unit_free config (s\<lparr>sim_stats := st, ready_q := q\<rparr>) idx = unit_free config s idx"
  by (simp add: unit_free_def instr_at_def)

section \<open>Each pass moves something or only rotates its queue\<close>

lemma ready_one_blocked:
  assumes "\<not> can_wake config s idx"
  shows "\<exists>st. ready_one config idx (s\<lparr>dispatch_q := rest\<rparr>) =
    s\<lparr>sim_stats := st, dispatch_q := rest @ [idx]\<rparr>"
proof (cases "deps_satisfied (instr_at s idx) (retired_ids s)")
  case True
  with assms show ?thesis
    by (intro exI [of _ "sim_stats (bump_stall ''ReadyQueueFull'' s)"])
      (simp add: ready_one_def can_wake_def instr_at_def bump_stall_def)
next
  case False
  then show ?thesis
    by (intro exI [of _ "sim_stats (bump_stall ''WaitingDependency'' s)"])
      (simp add: ready_one_def instr_at_def bump_stall_def)
qed

lemma ready_pass_static:
  "n \<le> length (dispatch_q s) \<Longrightarrow> \<forall>idx \<in> set (take n (dispatch_q s)). \<not> can_wake config s idx \<Longrightarrow>
   \<exists>st. ready_pass config n s =
     s\<lparr>sim_stats := st, dispatch_q := drop n (dispatch_q s) @ take n (dispatch_q s)\<rparr>"
proof (induction n arbitrary: s)
  case 0
  show ?case by (rule exI [of _ "sim_stats s"]) simp
next
  case (Suc n)
  then obtain idx rest where q: "dispatch_q s = idx # rest" by (cases "dispatch_q s") auto
  have "\<not> can_wake config s idx" using Suc.prems(2) q by simp
  then obtain st where t: "ready_one config idx (s\<lparr>dispatch_q := rest\<rparr>) =
      s\<lparr>sim_stats := st, dispatch_q := rest @ [idx]\<rparr>" (is "_ = ?t")
    using ready_one_blocked by blast
  have "\<forall>i \<in> set (take n (dispatch_q ?t)). \<not> can_wake config ?t i"
    using Suc.prems q by (simp add: can_wake_def instr_at_def)
  from Suc.IH [OF _ this] show ?case using Suc.prems(1) q t by auto
qed

lemma ready_pass_moves:
  assumes "loc_inv {#} s" and "program_inv w s" and "n \<le> length (dispatch_q s)"
    and "\<exists>idx \<in> set (take n (dispatch_q s)). can_wake config s idx"
  shows "work_left w (ready_pass config n s) < work_left w s"
  using assms
proof (induction n arbitrary: s)
  case 0
  then show ?case by simp
next
  case (Suc n)
  then obtain idx rest where q: "dispatch_q s = idx # rest" by (cases "dispatch_q s") auto
  let ?t = "ready_one config idx (s\<lparr>dispatch_q := rest\<rparr>)"
  have st: "pipe_steps config True s ?t" by (rule ready_one_steps [OF q])
  have pl: "program_inv w ?t" "loc_inv {#} ?t"
    using invariant_steps [OF st, of "\<lambda>s. program_inv w s \<and> loc_inv {#} s"] Suc.prems(1,2)
      pipe_step_program pipe_step_loc by blast+
  show ?case
  proof (cases "can_wake config s idx")
    case True
    then have "work_left w ?t < work_left w s"
      using q by (auto simp: can_wake_def ready_one_def work_left_def step_defs)
    moreover have "work_left w (ready_pass config n ?t) \<le> work_left w ?t"
      by (rule pipe_steps_work [OF ready_pass_steps pl])
    ultimately show ?thesis using q by simp
  next
    case False
    then obtain st where t: "?t = s\<lparr>sim_stats := st, dispatch_q := rest @ [idx]\<rparr>"
      using ready_one_blocked by blast
    have "\<exists>i \<in> set (take n (dispatch_q ?t)). can_wake config ?t i"
      using Suc.prems(3,4) q False unfolding t by (simp add: can_wake_def instr_at_def)
    moreover have "n \<le> length (dispatch_q ?t)" using Suc.prems(3) q unfolding t by simp
    ultimately have "work_left w (ready_pass config n ?t) < work_left w ?t"
      using Suc.IH pl by blast
    also have "work_left w ?t = work_left w s" unfolding t using q by (simp add: work_left_def)
    finally show ?thesis using q by simp
  qed
qed

lemma issue_one_blocked:
  assumes "issue_width config \<le> issued \<or> \<not> unit_free config s idx"
  shows "\<exists>st. issue_one config idx (issued, s\<lparr>ready_q := rest\<rparr>) =
    (issued, s\<lparr>sim_stats := st, ready_q := rest @ [idx]\<rparr>)"
proof (cases "issue_width config \<le> issued")
  case True
  then show ?thesis
    by (intro exI [of _ "sim_stats s"]) (simp add: issue_one_def)
next
  case False
  let ?key = "if is_memory_op (instr_type (instr_at s idx)) then ''NoMemoryPort''
    else ''NoComputeUnit''"
  show ?thesis using assms False
    by (intro exI [of _ "sim_stats (bump_stall ?key s)"])
      (auto simp: issue_one_def unit_free_def instr_at_def bump_stall_def Let_def not_less
        split: if_splits)
qed

lemma issue_one_moves:
  assumes "ready_q s = idx # rest" and "\<not> issue_width config \<le> issued" and "unit_free config s idx"
    and "program_inv w s" and "loc_inv {#} s"
  shows "work_left w (snd (issue_one config idx (issued, s\<lparr>ready_q := rest\<rparr>))) < work_left w s"
proof -
  have "idx \<in> stage_set Ready s" using assms(1,5) by (simp add: front_stage)
  then have w: "idx < length w" using fetched_bound assms(4,5) by blast
  have "issue_one config idx (issued, s\<lparr>ready_q := rest\<rparr>) =
      (issued + 1, take_issue idx rest (is_memory_op (instr_type (instr_at s idx))) s)"
    using assms(2,3) by (auto simp: issue_one_def unit_free_def instr_at_def take_issue_def Let_def
        not_le split: if_splits)
  moreover have "unat (execute_latency (sim_instrs s ! idx)) = lat w idx" "idx < length (sim_instrs s)"
    using w program_inv_fields(1) [OF assms(4) w] program_invD(1) [OF assms(4)]
    by (auto simp: lat_def)
  ultimately show ?thesis using assms(1) by (auto simp: work_left_def step_defs)
qed

lemma issue_pass_static:
  "n \<le> length (ready_q s) \<Longrightarrow>
   issue_width config \<le> issued \<or> (\<forall>idx \<in> set (take n (ready_q s)). \<not> unit_free config s idx) \<Longrightarrow>
   \<exists>st. issue_pass config n (issued, s) =
     (issued, s\<lparr>sim_stats := st, ready_q := drop n (ready_q s) @ take n (ready_q s)\<rparr>)"
proof (induction n arbitrary: s)
  case 0
  show ?case by (rule exI [of _ "sim_stats s"]) simp
next
  case (Suc n)
  then obtain idx rest where q: "ready_q s = idx # rest" by (cases "ready_q s") auto
  have "issue_width config \<le> issued \<or> \<not> unit_free config s idx" using Suc.prems(2) q by auto
  then obtain st where t: "issue_one config idx (issued, s\<lparr>ready_q := rest\<rparr>) =
      (issued, s\<lparr>sim_stats := st, ready_q := rest @ [idx]\<rparr>)" (is "_ = (_, ?t)")
    using issue_one_blocked by blast
  have "issue_width config \<le> issued \<or> (\<forall>i \<in> set (take n (ready_q ?t)). \<not> unit_free config ?t i)"
    using Suc.prems q by (auto simp: unit_free_def instr_at_def)
  from Suc.IH [OF _ this] show ?case using Suc.prems(1) q t by auto
qed

lemma issue_pass_moves:
  assumes "loc_inv {#} s" and "program_inv w s" and "n \<le> length (ready_q s)"
    and "\<not> issue_width config \<le> issued" and "\<exists>idx \<in> set (take n (ready_q s)). unit_free config s idx"
  shows "work_left w (snd (issue_pass config n (issued, s))) < work_left w s"
  using assms
proof (induction n arbitrary: s)
  case 0
  then show ?case by simp
next
  case (Suc n)
  then obtain idx rest where q: "ready_q s = idx # rest" by (cases "ready_q s") auto
  let ?p = "issue_one config idx (issued, s\<lparr>ready_q := rest\<rparr>)"
  have st: "pipe_steps config True s (snd ?p)" by (rule issue_one_steps [OF q])
  have pl: "program_inv w (snd ?p)" "loc_inv {#} (snd ?p)"
    using invariant_steps [OF st, of "\<lambda>s. program_inv w s \<and> loc_inv {#} s"] Suc.prems(1,2)
      pipe_step_program pipe_step_loc by blast+
  show ?case
  proof (cases "unit_free config s idx")
    case True
    then have "work_left w (snd ?p) < work_left w s"
      using issue_one_moves q Suc.prems by blast
    moreover have "work_left w (snd (issue_pass config n ?p)) \<le> work_left w (snd ?p)"
      by (rule pipe_steps_work [OF issue_pass_steps pl])
    ultimately show ?thesis using q by simp
  next
    case False
    then obtain st where t: "?p = (issued, s\<lparr>sim_stats := st, ready_q := rest @ [idx]\<rparr>)"
      (is "_ = (_, ?t)")
      using issue_one_blocked by blast
    have "\<exists>i \<in> set (take n (ready_q ?t)). unit_free config ?t i"
      using Suc.prems(5) q False by (auto simp: unit_free_frame)
    moreover have "n \<le> length (ready_q ?t)" using Suc.prems(3) q by simp
    ultimately have "work_left w (snd (issue_pass config n (issued, ?t))) < work_left w ?t"
      using Suc.IH [of ?t] pl t Suc.prems(4) by simp
    also have "work_left w ?t = work_left w s" using q by (simp add: work_left_def)
    finally show ?thesis using q t by simp
  qed
qed

lemma dispatch_pass_moves:
  assumes "decode_q s \<noteq> []" and "program_inv w s" and "loc_inv {#} s"
    and "0 < dispatch_width config"
    and "length (dispatch_q s) < unat (dispatch_queue_capacity config)"
  shows "work_left w (dispatch_pass config 0 s) < work_left w s"
proof -
  obtain idx rest where q: "decode_q s = idx # rest" using assms(1) by (cases "decode_q s") auto
  let ?t = "dispatch_one idx (s\<lparr>decode_q := rest\<rparr>)"
  have step: "pipe_step config b s ?t" using pipe_step.dispatch [OF q] assms(5) by simp
  have eq: "dispatch_pass config 0 s = dispatch_pass config 1 ?t"
    using q assms(4,5) by (simp add: dispatch_pass.simps [of config 0 s] not_le)
  have "work_left w (dispatch_pass config 1 ?t) \<le> work_left w ?t"
    using pipe_steps_work [OF dispatch_pass_steps] pipe_step_program [OF step assms(2)]
      pipe_step_loc [OF step assms(3)] by blast
  also have "\<dots> < work_left w s" using q by (simp add: work_left_def step_defs)
  finally show ?thesis by (simp add: eq)
qed

lemma front_pass_static:
  "decode_q s = [] \<or> dispatch_width config = 0 \<or>
     unat (dispatch_queue_capacity config) \<le> length (dispatch_q s) \<Longrightarrow>
     \<exists>st. dispatch_pass config 0 s = s\<lparr>sim_stats := st\<rparr>"
  "fetch_q s = [] \<or> decode_width config = 0 \<Longrightarrow> decode_pass config 0 s = s"
  "length (sim_instrs s) \<le> next_to_fetch s \<or> fetch_width config = 0 \<Longrightarrow> fetch_pass config 0 s = s"
proof -
  assume "decode_q s = [] \<or> dispatch_width config = 0 \<or>
     unat (dispatch_queue_capacity config) \<le> length (dispatch_q s)"
  then have "dispatch_pass config 0 s = s \<or>
      dispatch_pass config 0 s = bump_stall ''DispatchQueueFull'' s"
    by (auto simp: dispatch_pass.simps [of config 0 s] split: list.split)
  moreover have "s = s\<lparr>sim_stats := sim_stats s\<rparr>" by simp
  ultimately show "\<exists>st. dispatch_pass config 0 s = s\<lparr>sim_stats := st\<rparr>"
    unfolding bump_stall_def by metis
next
  assume "fetch_q s = [] \<or> decode_width config = 0"
  then show "decode_pass config 0 s = s"
    by (auto simp: decode_pass.simps [of config 0 s] split: list.split)
next
  assume "length (sim_instrs s) \<le> next_to_fetch s \<or> fetch_width config = 0"
  then show "fetch_pass config 0 s = s"
    by (auto simp: fetch_pass.simps [of config 0 s])
qed

section \<open>A cycle makes progress, or the run is stuck for ever\<close>

lemma blocked_moves_static:
  assumes "blocked config s"
  shows "\<exists>st. cycle_moves config s = s\<lparr>sim_stats := st\<rparr>"
proof -
  note b = assms [unfolded blocked_def]
  obtain st1 where s1: "ready_pass config (length (dispatch_q s)) s = s\<lparr>sim_stats := st1\<rparr>"
    using ready_pass_static [of "length (dispatch_q s)" s config] b by auto
  let ?s1 = "s\<lparr>sim_stats := st1\<rparr>"
  obtain st2 where s2: "issue_pass config (length (ready_q ?s1)) (0, ?s1) = (0, s\<lparr>sim_stats := st2\<rparr>)"
  proof (cases "ready_q s = []")
    case True
    then show thesis using that [of st1] by simp
  next
    case False
    then have "issue_width config \<le> 0 \<or>
        (\<forall>idx \<in> set (take (length (ready_q ?s1)) (ready_q ?s1)). \<not> unit_free config ?s1 idx)"
      using b by (auto simp: unit_free_def instr_at_def)
    from issue_pass_static [OF _ this] show thesis using that by auto
  qed
  let ?s2 = "s\<lparr>sim_stats := st2\<rparr>"
  obtain st3 where s3: "dispatch_pass config 0 ?s2 = s\<lparr>sim_stats := st3\<rparr>"
    using front_pass_static(1) [of ?s2 config] b by auto
  let ?s3 = "s\<lparr>sim_stats := st3\<rparr>"
  have "decode_pass config 0 ?s3 = ?s3" "fetch_pass config 0 ?s3 = ?s3"
    using front_pass_static(2,3) [of ?s3 config] b by simp_all
  then have "cycle_moves config s = ?s3"
    using s1 s2 s3 by (simp add: cycle_moves_def Let_def)
  then show ?thesis by blast
qed

lemma not_blocked_moves:
  assumes inv: "pipe_inv config w 0 s" and nb: "\<not> blocked config s"
  shows "work_left w (cycle_moves config s) < work_left w s"
proof -
  define s1 where "s1 = ready_pass config (length (dispatch_q s)) s"
  define s2 where "s2 = snd (issue_pass config (length (ready_q s1)) (0, s1))"
  define s3 where "s3 = dispatch_pass config 0 s2"
  define s4 where "s4 = decode_pass config 0 s3"
  define s5 where "s5 = fetch_pass config 0 s4"
  have moves: "cycle_moves config s = s5"
    by (simp add: cycle_moves_def s1_def s2_def s3_def s4_def s5_def Let_def)
  have st: "pipe_steps config b s s1" "pipe_steps config b s1 s2" "pipe_steps config b s2 s3"
    "pipe_steps config b s3 s4" "pipe_steps config b s4 s5"
    using issue_pass_steps [of config b "(0, s1)"]
    by (simp_all add: s1_def s2_def s3_def s4_def s5_def ready_pass_steps dispatch_pass_steps
        decode_pass_steps fetch_pass_steps)
  have i1: "pipe_inv config w 0 s1" using pipe_steps_inv [OF st(1) inv] .
  have i2: "pipe_inv config w 0 s2" using pipe_steps_inv [OF st(2) i1] .
  have i3: "pipe_inv config w 0 s3" using pipe_steps_inv [OF st(3) i2] .
  have i4: "pipe_inv config w 0 s4" using pipe_steps_inv [OF st(4) i3] .
  have le: "work_left w s1 \<le> work_left w s" "work_left w s2 \<le> work_left w s1"
    "work_left w s3 \<le> work_left w s2" "work_left w s4 \<le> work_left w s3"
    "work_left w s5 \<le> work_left w s4"
    using pipe_steps_work st pipe_invD(1,2) inv i1 i2 i3 i4 by blast+
  show ?thesis unfolding moves
  proof (rule ccontr)
    assume "\<not> work_left w s5 < work_left w s"
    then have eq: "\<not> work_left w s1 < work_left w s" "\<not> work_left w s2 < work_left w s1"
      "\<not> work_left w s3 < work_left w s2" "\<not> work_left w s4 < work_left w s3"
      "\<not> work_left w s5 < work_left w s4"
      using le by linarith+
    note pl = pipe_invD(1,2)
    have w1: "\<forall>idx \<in> set (dispatch_q s). \<not> can_wake config s idx"
      using ready_pass_moves [OF pl(2,1) [OF inv], of "length (dispatch_q s)" config] eq(1)
      by (auto simp: s1_def)
    then obtain st1 where s1: "s1 = s\<lparr>sim_stats := st1\<rparr>"
      using ready_pass_static [of "length (dispatch_q s)" s config] by (auto simp: s1_def)
    have w2: "issue_width config \<le> 0 \<or> (\<forall>idx \<in> set (ready_q s1). \<not> unit_free config s1 idx)"
      using issue_pass_moves [OF pl(2,1) [OF i1], of "length (ready_q s1)" config 0] eq(2)
      by (auto simp: s2_def)
    then obtain st2 where s2: "s2 = s\<lparr>sim_stats := st2\<rparr>"
      using issue_pass_static [of "length (ready_q s1)" s1 config 0] by (auto simp: s2_def s1)
    have w3: "decode_q s2 = [] \<or> dispatch_width config = 0 \<or>
        unat (dispatch_queue_capacity config) \<le> length (dispatch_q s2)"
      using dispatch_pass_moves [OF _ pl(1,2) [OF i2], of config] eq(3)
      unfolding s3_def word_gt_0 by (metis not_le)
    then obtain st3 where s3: "s3 = s\<lparr>sim_stats := st3\<rparr>"
      using front_pass_static(1) [of s2 config] by (auto simp: s3_def s2)
    have w4: "fetch_q s3 = [] \<or> decode_width config = 0"
      using decode_pass_work [OF _ pl(1,2) [OF i3], of config] eq(4)
      by (auto simp: s4_def word_gt_0)
    then have s4: "s4 = s3" using front_pass_static(2) [of s3 config] by (simp add: s4_def)
    have w5: "length (sim_instrs s4) \<le> next_to_fetch s4 \<or> fetch_width config = 0"
      using fetch_pass_work [OF _ pl(1,2) [OF i4], of config] eq(5)
      unfolding s5_def word_gt_0 by (metis not_le)
    have "blocked config s"
      using w1 w2 w3 w4 w5 unfolding blocked_def s1 s2 s3 s4
      by (auto simp: unit_free_def instr_at_def)
    then show False using nb by simp
  qed
qed

lemma aged_no_slots: "exec_slots s = [] \<Longrightarrow> aged s = s"
  by (simp add: aged_def)

lemma idle_back_end:
  assumes "pipe_inv config w 1 s" and "retire_q s = []" and "exec_slots s = []"
  shows "retire_pass s = s" and "execute_pass s = Inr s"
  using assms execute_pass_eq [OF pipe_invD(4) [OF assms(1)]]
  by (simp_all add: retire_pass.simps [of s] finished_now_def aged_no_slots)

lemma cycle_step_moves:
  assumes inv: "pipe_inv config w 1 s" and ns: "\<not> stuck config s"
    and step: "cycle_step config s = Inr t"
  shows "work_left w t < work_left w s"
proof -
  let ?r = "retire_pass s"
  have ir: "pipe_inv config w 1 ?r" by (rule retire_pass_inv [OF inv])
  obtain u where u: "execute_pass ?r = Inr u" "pipe_inv config w 0 u"
    by (rule execute_pass_inv [OF ir])
  have wr: "work_left w ?r \<le> work_left w s" by (rule retire_pass_work(1))
  have wu: "work_left w u + length (exec_slots s) \<le> work_left w ?r"
    using execute_pass_work [OF ir u(1)] retire_pass_frame [of s] by simp
  have t: "t = (let s = sample_stats (cycle_moves config u) in s\<lparr>sim_cycle := sim_cycle s + 1\<rparr>)"
    using step u(1) by (simp add: cycle_step_def cycle_tail_moves)
  then have wt: "work_left w t = work_left w (cycle_moves config u)" by (simp add: Let_def)
  have wm: "work_left w (cycle_moves config u) \<le> work_left w u"
    using pipe_steps_work [OF cycle_moves_steps] pipe_invD(1,2) [OF u(2)] by blast
  show ?thesis
  proof (cases "retire_q s = [] \<and> exec_slots s = []")
    case False
    then show ?thesis using retire_pass_work(2) [of s w] wu wm wt wr
      by (cases "exec_slots s") auto
  next
    case True
    then have us: "u = s" using idle_back_end [OF inv] u(1) by simp
    then have "\<not> blocked config u" using ns True by (simp add: stuck_def)
    then have "work_left w (cycle_moves config u) < work_left w u"
      by (rule not_blocked_moves [OF u(2)])
    then show ?thesis using wt us by simp
  qed
qed

lemma cycle_step_stuck:
  assumes inv: "pipe_inv config w 1 s" and st: "stuck config s"
  shows "\<exists>u c. cycle_step config s = Inr (s\<lparr>sim_stats := u, sim_cycle := c\<rparr>)"
proof -
  have idle: "retire_pass s = s" "execute_pass s = Inr s"
    using idle_back_end [OF inv] st by (simp_all add: stuck_def)
  obtain st1 where m: "cycle_moves config s = s\<lparr>sim_stats := st1\<rparr>"
    using blocked_moves_static st by (auto simp: stuck_def)
  obtain st2 where "sample_stats (s\<lparr>sim_stats := st1\<rparr>) = s\<lparr>sim_stats := st2\<rparr>"
    by (rule sample_stats_only [of "s\<lparr>sim_stats := st1\<rparr>"]) simp
  then show ?thesis
    by (simp add: cycle_step_def idle cycle_tail_moves m Let_def) (rule exI, rule exI, rule refl)
qed

lemma stuck_runs_for_ever:
  assumes "reach config w n s" and "stuck config s" and "has_work_left s"
  shows "run_loop config s = None"
proof -
  let ?P = "\<lambda>c s (r :: sim_state result). pipe_inv c w 1 s \<longrightarrow> stuck c s \<longrightarrow> \<not> has_work_left s"
  have never: "?P config s r" if ret: "run_loop config s = Some r" for r
  proof (rule run_loop.raw_induct [where P = ?P, OF _ ret])
    fix f c s r
    assume IH: "\<And>c s r. f c s = Some r \<Longrightarrow> ?P c s r"
      and eq: "(if has_work_left s then (case cycle_step c s of Inl e \<Rightarrow> Some (Inl e) | Inr s' \<Rightarrow> f c s')
        else Some (Inr s)) = Some r"
    show "?P c s r"
    proof (intro impI notI)
      assume inv: "pipe_inv c w 1 s" and st: "stuck c s" and left: "has_work_left s"
      obtain u k where t: "cycle_step c s = Inr (s\<lparr>sim_stats := u, sim_cycle := k\<rparr>)"
          (is "_ = Inr ?t")
        using cycle_step_stuck [OF inv st] by blast
      obtain t' where t': "cycle_step c s = Inr t'" "pipe_inv c w 1 t'"
        by (rule cycle_step_inv [OF inv])
      have "pipe_inv c w 1 ?t" using t t' by simp
      moreover have "stuck c ?t" "has_work_left ?t"
        using st left by (auto simp: stuck_def blocked_def can_wake_def unit_free_def instr_at_def
            has_work_left_def)
      moreover have "f c ?t = Some r" using eq left t by simp
      ultimately show False using IH by blast
    qed
  qed
  show ?thesis
    using never reach_inv [OF assms(1)] assms(2,3) by (cases "run_loop config s") auto
qed

text \<open>The run does not return exactly when it reaches a stuck state with work left.\<close>

lemma run_loop_dichotomy:
  assumes "reach config w n s"
  shows "(\<exists>m t. run_loop config s = Some (Inr t) \<and> reach config w m t \<and> \<not> has_work_left t \<and>
            m + work_left w t \<le> n + work_left w s) \<or>
         (\<exists>m t. run_loop config s = None \<and> reach config w m t \<and> has_work_left t \<and> stuck config t \<and>
            m + work_left w t \<le> n + work_left w s)"
  using assms
proof (induction "work_left w s" arbitrary: n s rule: less_induct)
  case less
  show ?case
  proof (cases "has_work_left s")
    case False
    then show ?thesis using run_loop_stop less.prems by blast
  next
    case True
    show ?thesis
    proof (cases "stuck config s")
      case st: True
      then show ?thesis using stuck_runs_for_ever [OF less.prems st True] True less.prems by blast
    next
      case False
      obtain t where t: "cycle_step config s = Inr t"
        by (rule cycle_step_inv [OF reach_inv [OF less.prems]])
      have dec: "work_left w t < work_left w s"
        by (rule cycle_step_moves [OF reach_inv [OF less.prems] False t])
      have eq: "run_loop config s = run_loop config t" by (rule run_loop_cycle [OF True t])
      from less.hyps [OF dec reach_cycle [OF less.prems True t]] dec show ?thesis
        unfolding eq by (elim disjE exE conjE) (force intro!: exI)+
    qed
  qed
qed

section \<open>Runs that end, and runs that do not\<close>

lemma stuck_ready_empty:
  assumes inv: "pipe_inv config w d s" and units: "units_for config w"
    and widths: "widths_positive config" and st: "stuck config s"
  shows "ready_q s = []"
proof (rule ccontr)
  assume ne: "ready_q s \<noteq> []"
  note invs = pipe_invD [OF inv]
  have zero: "memory_in_use s = 0" "compute_in_use s = 0"
    using invs(4) st by (auto simp: unit_inv_def unat_eq_zero stuck_def)
  have free: "unit_free config s idx" if "idx \<in> set (ready_q s)" for idx
  proof -
    have "idx \<in> stage_set Ready s" using loc_inv_queue(1) [OF invs(2), of Ready] that by simp
    then have wi: "idx < length w" using fetched_bound invs(1,2) by blast
    then show ?thesis
      using units [unfolded units_for_def, rule_format, OF nth_mem [OF wi]]
        program_inv_fields(4) [OF invs(1) wi] zero
      by (auto simp: unit_free_def instr_at_def split: if_splits)
  qed
  have "hd (ready_q s) \<in> set (ready_q s)" using ne by simp
  then show False using st free widths ne
    by (auto simp: stuck_def blocked_def widths_positive_def)
qed

lemma positive_not_stuck:
  assumes inv: "pipe_inv config w d s" and topo: "topological w" and units: "units_for config w"
    and widths: "widths_positive config" and queues: "queues_positive config"
    and left: "has_work_left s"
  shows "\<not> stuck config s"
proof
  assume st: "stuck config s"
  then have b: "blocked config s" and idle: "exec_slots s = []" "retire_q s = []"
    by (simp_all add: stuck_def)
  have pos: "fetch_width config \<noteq> 0" "decode_width config \<noteq> 0" "dispatch_width config \<noteq> 0"
    "0 < unat (dispatch_queue_capacity config)" "0 < unat (ready_queue_capacity config)"
    using widths queues
    by (simp_all add: widths_positive_def queues_positive_def word_less_nat_alt unat_gt_0)
  have r: "ready_q s = []" by (rule stuck_ready_empty [OF inv units widths st])
  have d: "dispatch_q s = []"
    using oldest_satisfied [OF inv topo r idle] b pos(5) r
    by (auto simp: blocked_def can_wake_def)
  show False using b d r idle pos left by (auto simp: blocked_def has_work_left_def)
qed

text \<open>Instructions each of which waits for another of them: the set never gets past dispatch.\<close>

definition waits_for_itself :: "instruction list \<Rightarrow> nat set \<Rightarrow> bool" where
  "waits_for_itself w S \<longleftrightarrow> S \<noteq> {} \<and>
     (\<forall>i \<in> S. i < length w \<and>
        (\<exists>d \<in> set (deps (w ! i)). \<forall>j < length w. instr_id (w ! j) = d \<longrightarrow> j \<in> S))"

definition held_back :: "nat set \<Rightarrow> sim_state \<Rightarrow> bool" where
  "held_back S s \<longleftrightarrow>
     (\<forall>i \<in> S. i < next_to_fetch s \<longrightarrow> instr_stage (sim_instrs s ! i) \<noteq> Done)"

lemma waiting_not_ready:
  assumes S: "waits_for_itself w S" and inv: "program_inv w s" "loc_inv {#} s" "retired_inv s" "dep_inv s"
    and held: "held_back S s" and i: "i \<in> S" "i < next_to_fetch s"
  shows "\<not> Ready \<le> instr_stage (sim_instrs s ! i)"
proof
  assume "Ready \<le> instr_stage (sim_instrs s ! i)"
  then have sub: "set (deps (sim_instrs s ! i)) \<subseteq> retired_ids s"
    using inv(4) i by (simp add: dep_inv_def)
  have wi: "i < length w" using S i by (simp add: waits_for_itself_def)
  obtain x where x: "x \<in> set (deps (w ! i))" "\<forall>j < length w. instr_id (w ! j) = x \<longrightarrow> j \<in> S"
    using S i unfolding waits_for_itself_def by blast
  then have "x \<in> retired_ids s" using sub program_inv_fields(2) [OF inv(1) wi] by auto
  then obtain j where j: "j \<in> stage_set Done s" "instr_id (sim_instrs s ! j) = x"
    using inv(3) by (auto simp: retired_inv_def)
  have "j < length w" by (rule fetched_bound [OF inv(1,2) j(1)])
  then have "j \<in> S" using x(2) j(2) program_inv_fields(3) [OF inv(1)] by auto
  then show False using held j(1) by (auto simp: held_back_def stage_set_def)
qed

lemma update_not_done:
  "instr_stage (xs[idx := i] ! j) = Done \<Longrightarrow> instr_stage i \<noteq> Done \<or> idx \<noteq> j \<Longrightarrow>
     instr_stage (xs ! j) = Done"
  by (cases "idx = j"; cases "j < length xs") (auto simp: list_update_beyond)

lemma held_back_write:
  assumes "held_back S s" and "sim_instrs t = (sim_instrs s)[idx := i]"
    and "next_to_fetch t = next_to_fetch s" and "instr_stage i = Done \<longrightarrow> idx \<notin> S"
  shows "held_back S t"
  using assms by (auto simp: held_back_def dest: update_not_done)

lemma held_back_cong:
  "held_back S s \<Longrightarrow> sim_instrs t = sim_instrs s \<Longrightarrow> next_to_fetch t = next_to_fetch s \<Longrightarrow> held_back S t"
  by (simp add: held_back_def)

lemma retire_one_held:
  assumes S: "waits_for_itself w S" and inv: "pipe_inv config w d s" and held: "held_back S s"
    and q: "retire_q s = idx # rest"
  shows "held_back S (retire_one idx (s\<lparr>retire_q := rest\<rparr>))"
proof -
  note invs = pipe_invD [OF inv]
  have "idx \<in> stage_set Retire s" using invs(2) q by (simp add: front_stage)
  then have i: "idx < next_to_fetch s" "instr_stage (sim_instrs s ! idx) = Retire"
    by (simp_all add: stage_set_def)
  have "idx \<notin> S"
    using waiting_not_ready [OF S invs(1,2,3,7) held _ i(1)] i(2) by auto
  then show ?thesis
    by (intro held_back_write [OF held, where idx = idx and
        i = "(sim_instrs s ! idx)\<lparr>instr_stage := Done\<rparr>"])
      (simp_all add: retire_one_def write_instr_def Let_def)
qed

lemma pipe_step_held:
  assumes S: "waits_for_itself w S"
  shows "pipe_step config b s t \<Longrightarrow> pipe_inv config w 0 s \<Longrightarrow> held_back S s \<Longrightarrow> held_back S t"
proof (induction rule: pipe_step.induct)
  case (retire s idx rest)
  then show ?case using retire_one_held [OF S] by blast
next
  case (fetch s)
  then show ?case
    by (auto simp: held_back_def fetch_one_def write_instr_def Let_def less_Suc_eq dest!: update_not_done)
qed (auto simp: held_back_def step_defs dest!: update_not_done)

lemma retire_pass_held:
  assumes S: "waits_for_itself w S"
  shows "pipe_inv config w d s \<Longrightarrow> held_back S s \<Longrightarrow> held_back S (retire_pass s)"
proof (induction s rule: retire_pass.induct)
  case (1 s)
  show ?case
  proof (cases "retire_q s")
    case Nil
    then show ?thesis using 1 by (simp add: retire_pass.simps [of s])
  next
    case (Cons idx rest)
    from "1.IH" [OF Cons retire_one_inv [OF Cons "1.prems"(1)] retire_one_held [OF S "1.prems" Cons]]
    show ?thesis using Cons by (simp add: retire_pass.simps [of s])
  qed
qed

lemma complete_all_held:
  "held_back S s \<Longrightarrow> held_back S (fold complete_one fin s)"
proof (induction fin arbitrary: s)
  case Nil
  then show ?case by simp
next
  case (Cons idx fin)
  have "held_back S (complete_one idx s)"
    by (rule held_back_write [OF Cons.prems, where idx = idx and
        i = "(sim_instrs s ! idx)\<lparr>complete_cycle := sim_cycle s, instr_stage := Retire\<rparr>"])
      (simp_all add: complete_one_def write_instr_def Let_def)
  then show ?case using Cons.IH by simp
qed

lemma reach_held:
  assumes S: "waits_for_itself w S"
  shows "reach config w n s \<Longrightarrow> held_back S s"
proof (induction rule: reach.induct)
  case reach_start
  show ?case by (simp add: held_back_def initial_state_def)
next
  case (reach_cycle n s t)
  note head = reach_inv [OF reach_cycle(1)]
  let ?r = "retire_pass s"
  have ir: "pipe_inv config w 1 ?r" by (rule retire_pass_inv [OF head])
  have hr: "held_back S ?r" by (rule retire_pass_held [OF S head reach_cycle(4)])
  obtain u where u: "execute_pass ?r = Inr u" "pipe_inv config w 0 u"
    by (rule execute_pass_inv [OF ir])
  have "u = fold complete_one (finished_now ?r) (aged ?r)"
    using u(1) execute_pass_eq [OF pipe_invD(4) [OF ir]] by simp
  then have hu: "held_back S u"
    using complete_all_held [of S "aged ?r"] hr by (simp add: held_back_def aged_def)
  have "pipe_inv config w 0 (cycle_moves config u) \<and> held_back S (cycle_moves config u)"
    by (rule invariant_steps [OF cycle_moves_steps [of config True]])
      (use u(2) hu pipe_step_inv pipe_step_held [OF S] in \<open>blast+\<close>)
  then have hm: "held_back S (cycle_moves config u)" ..
  have t: "t = (let s = sample_stats (cycle_moves config u) in s\<lparr>sim_cycle := sim_cycle s + 1\<rparr>)"
    using reach_cycle(3) u(1) by (simp add: cycle_step_def cycle_tail_moves)
  show ?case
    by (rule sample_stats_only [of "cycle_moves config u"]) (use hm in \<open>simp add: t held_back_def\<close>)
qed

lemma run_loop_never:
  assumes "waits_for_itself w S"
  shows "run_loop config (initial_state w) = None"
proof (cases "run_loop config (initial_state w)")
  case (Some r)
  then obtain m t where t: "reach config w m t" "\<not> has_work_left t"
    using run_loop_reach [OF _ reach_start] by blast
  obtain i where i: "i \<in> S" "i < length w" using assms by (auto simp: waits_for_itself_def)
  note fin = finished_state [OF reach_inv [OF t(1)] t(2)]
  have "i \<in> stage_set Done t" using fin(2) i by simp
  then show ?thesis
    using reach_held [OF assms t(1)] i by (auto simp: held_back_def stage_set_def)
qed simp

text \<open>With a dispatch queue that holds the whole workload, nothing else can block a run.\<close>

lemma stuck_waits:
  assumes inv: "pipe_inv config w d s" and units: "units_for config w"
    and widths: "widths_positive config" and queues: "queues_positive config"
    and big: "length w \<le> unat (dispatch_queue_capacity config)"
    and left: "has_work_left s" and st: "stuck config s"
  shows "waits_for_itself w (set (dispatch_q s))"
proof -
  note invs = pipe_invD [OF inv]
  have sets: "set (queue_of st s) = stage_set st s" if "st \<noteq> Done" for st
    using loc_inv_queue(1) [OF invs(2) that] by simp
  have b: "blocked config s" and idle: "exec_slots s = []" "retire_q s = []"
    using st by (simp_all add: stuck_def)
  have r: "ready_q s = []" by (rule stuck_ready_empty [OF inv units widths st])
  have pos: "fetch_width config \<noteq> 0" "decode_width config \<noteq> 0" "dispatch_width config \<noteq> 0"
    "0 < unat (ready_queue_capacity config)"
    using widths queues
    by (simp_all add: widths_positive_def queues_positive_def word_less_nat_alt unat_gt_0)
  have inw: "set (queue_of st s) \<subseteq> {..<length w}" if "st \<noteq> Done" for st
    using sets [OF that] fetched_bound [OF invs(1,2)] by blast
  have dec: "decode_q s = []"
  proof (rule ccontr)
    assume ne: "decode_q s \<noteq> []"
    then have full: "length w \<le> length (dispatch_q s)" using b pos big by (auto simp: blocked_def)
    have "card (set (dispatch_q s)) = length (dispatch_q s)"
      using loc_inv_queue(2) [OF invs(2), of Dispatch] by (simp add: distinct_card)
    then have "set (dispatch_q s) = {..<length w}"
      using full inw [of Dispatch] by (intro card_subset_eq) (auto dest: card_mono [rotated])
    moreover have "hd (decode_q s) \<in> set (decode_q s)" using ne by simp
    ultimately have "hd (decode_q s) \<in> stage_set Decode s \<inter> stage_set Dispatch s"
      using sets [of Decode] sets [of Dispatch] inw [of Decode] by auto
    then show False by (auto simp: stage_set_def)
  qed
  have front: "fetch_q s = []" "next_to_fetch s = length w"
    using b pos invs(1,2) by (auto simp: blocked_def loc_inv_def program_invD(1))
  have ne: "dispatch_q s \<noteq> []"
    using left r dec front idle program_invD(1) [OF invs(1)] by (auto simp: has_work_left_def)
  have "\<exists>x \<in> set (deps (w ! i)). \<forall>j < length w. instr_id (w ! j) = x \<longrightarrow> j \<in> set (dispatch_q s)"
    if i: "i \<in> set (dispatch_q s)" for i
  proof -
    have wi: "i < length w" using inw [of Dispatch] i by auto
    have "\<not> deps_satisfied (instr_at s i) (retired_ids s)"
      using b i r pos by (auto simp: blocked_def can_wake_def)
    then obtain x where x: "x \<in> set (deps (w ! i))" "x \<notin> retired_ids s"
      using program_inv_fields(2) [OF invs(1) wi] by (auto simp: deps_satisfied_iff instr_at_def)
    have "j \<in> set (dispatch_q s)" if j: "j < length w" "instr_id (w ! j) = x" for j
    proof -
      have id: "instr_id (sim_instrs s ! j) = x" using program_inv_fields(3) [OF invs(1) j(1)] j by simp
      then have "j \<notin> stage_set Done s" using x(2) invs(3) by (auto simp: retired_inv_def)
      then have nd: "instr_stage (sim_instrs s ! j) \<noteq> Done" using front j by (simp add: stage_set_def)
      then have "j \<in> set (queue_of (instr_stage (sim_instrs s ! j)) s)"
        using sets front j by (auto simp: stage_set_def)
      then show ?thesis using r dec front idle nd
        by (cases "instr_stage (sim_instrs s ! j)") auto
    qed
    then show ?thesis using x by blast
  qed
  then show ?thesis using ne inw [of Dispatch] by (auto simp: waits_for_itself_def)
qed
end
