(* ===== verification/Pipeline_Causality.thy ===== *)
theory Pipeline_Causality
  imports Pipeline_Deadlock
begin

text \<open>
  Causality of the cycle simulator: in every reachable state an instruction that has been issued
  was issued strictly after the cycle in which each of its dependencies completed
  (\<open>reach_causal\<close>), as long as the 64-bit cycle counter has not wrapped.
\<close>

section \<open>Causality\<close>

text \<open>
  \<open>n\<close> counts the cycles before the current one without wrapping. Retired instructions completed
  in earlier cycles, and an instruction that has been issued was issued after each of its
  dependencies completed.
\<close>

definition issued_after_deps :: "sim_state \<Rightarrow> nat \<Rightarrow> bool" where
  "issued_after_deps s i \<longleftrightarrow>
     (\<forall>d \<in> set (deps (sim_instrs s ! i)). \<exists>j \<in> stage_set Done s.
        instr_id (sim_instrs s ! j) = d \<and>
        unat (complete_cycle (sim_instrs s ! j)) < unat (issue_cycle (sim_instrs s ! i)))"

definition causal_inv :: "nat \<Rightarrow> sim_state \<Rightarrow> bool" where
  "causal_inv n s \<longleftrightarrow>
     sim_cycle s = of_nat n \<and>
     (\<forall>j \<in> stage_set Done s. unat (complete_cycle (sim_instrs s ! j)) < n) \<and>
     (\<forall>j \<in> stage_set Retire s. unat (complete_cycle (sim_instrs s ! j)) \<le> n) \<and>
     (\<forall>i \<in> stage_set Execute s \<union> stage_set Retire s \<union> stage_set Done s.
        unat (issue_cycle (sim_instrs s ! i)) \<le> n \<and> issued_after_deps s i)"

definition completed_before :: "nat \<Rightarrow> sim_state \<Rightarrow> bool" where
  "completed_before n s \<longleftrightarrow> (\<forall>j \<in> stage_set Retire s. unat (complete_cycle (sim_instrs s ! j)) < n)"

text \<open>Writes that leave the relevant fields of the issued instructions alone keep causality.\<close>

lemma causal_frame:
  assumes inv: "causal_inv n s" and cyc: "sim_cycle t = sim_cycle s"
    and dn: "stage_set Done s \<subseteq> stage_set Done t"
    and same: "\<And>j. j \<in> stage_set Execute t \<union> stage_set Retire t \<union> stage_set Done t \<Longrightarrow>
       instr_id (sim_instrs t ! j) = instr_id (sim_instrs s ! j) \<and>
       deps (sim_instrs t ! j) = deps (sim_instrs s ! j) \<and>
       (j \<in> stage_set Done t \<longrightarrow> complete_cycle (sim_instrs t ! j) = complete_cycle (sim_instrs s ! j))"
    and new: "\<And>j. j \<in> stage_set Done t \<Longrightarrow> unat (complete_cycle (sim_instrs s ! j)) < n"
    and ret: "\<And>j. j \<in> stage_set Retire t \<Longrightarrow> unat (complete_cycle (sim_instrs t ! j)) \<le> n"
    and old: "\<And>i. i \<in> stage_set Execute t \<union> stage_set Retire t \<union> stage_set Done t \<Longrightarrow>
       unat (issue_cycle (sim_instrs t ! i)) \<le> n \<and>
       (\<forall>d \<in> set (deps (sim_instrs s ! i)). \<exists>j \<in> stage_set Done s. instr_id (sim_instrs s ! j) = d \<and>
        unat (complete_cycle (sim_instrs s ! j)) < unat (issue_cycle (sim_instrs t ! i)))"
  shows "causal_inv n t"
  unfolding causal_inv_def issued_after_deps_def
proof (intro conjI ballI)
  show "sim_cycle t = of_nat n" using inv cyc by (simp add: causal_inv_def)
next
  fix j assume "j \<in> stage_set Done t"
  then show "unat (complete_cycle (sim_instrs t ! j)) < n" using new same by simp
next
  fix j assume "j \<in> stage_set Retire t"
  then show "unat (complete_cycle (sim_instrs t ! j)) \<le> n" by (rule ret)
next
  fix i assume "i \<in> stage_set Execute t \<union> stage_set Retire t \<union> stage_set Done t"
  then show "unat (issue_cycle (sim_instrs t ! i)) \<le> n" using old by blast
next
  fix i d assume i: "i \<in> stage_set Execute t \<union> stage_set Retire t \<union> stage_set Done t"
    and d: "d \<in> set (deps (sim_instrs t ! i))"
  from d same [OF i] have "d \<in> set (deps (sim_instrs s ! i))" by simp
  with old [OF i] obtain j where "j \<in> stage_set Done s" "instr_id (sim_instrs s ! j) = d"
    "unat (complete_cycle (sim_instrs s ! j)) < unat (issue_cycle (sim_instrs t ! i))" by blast
  then show "\<exists>j \<in> stage_set Done t. instr_id (sim_instrs t ! j) = d \<and>
      unat (complete_cycle (sim_instrs t ! j)) < unat (issue_cycle (sim_instrs t ! i))"
    using dn same by (intro bexI [of _ j]) auto
qed


lemma retire_one_causal:
  assumes q: "retire_q s = idx # rest" and loc: "loc_inv {#} s" and inv: "causal_inv n s"
    and before: "completed_before n s"
  shows "causal_inv n (retire_one idx (s\<lparr>retire_q := rest\<rparr>))"
    and "completed_before n (retire_one idx (s\<lparr>retire_q := rest\<rparr>))"
proof -
  let ?t = "retire_one idx (s\<lparr>retire_q := rest\<rparr>)"
  have idx: "idx \<in> stage_set Retire s" using q loc by (simp add: front_stage)
  then have b: "idx < next_to_fetch s" "idx < length (sim_instrs s)"
    using loc by (auto simp: loc_inv_def stage_set_def)
  have at: "sim_instrs ?t ! j =
      (if j = idx then (sim_instrs s ! idx)\<lparr>instr_stage := Done\<rparr> else sim_instrs s ! j)" for j
    using b by (simp add: step_defs nth_list_update)
  have nxt_eq: "next_to_fetch ?t = next_to_fetch s" and cyc_eq: "sim_cycle ?t = sim_cycle s"
    by (simp_all add: step_defs)
  have sets: "stage_set Done ?t = insert idx (stage_set Done s)"
    "stage_set Retire ?t \<subseteq> stage_set Retire s" "stage_set Execute ?t \<subseteq> stage_set Execute s"
    using idx b by (auto simp: stage_set_def at nxt_eq split: if_splits)
  show "completed_before n ?t"
    using before sets(2) by (auto simp: completed_before_def at)
  show "causal_inv n ?t"
    by (rule causal_frame [OF inv])
      (use inv before idx sets in \<open>auto simp: at causal_inv_def completed_before_def
          issued_after_deps_def cyc_eq\<close>)
qed

lemma retire_pass_causal:
  "pipe_inv config w 1 s \<Longrightarrow> causal_inv n s \<Longrightarrow> completed_before n s \<Longrightarrow>
     causal_inv n (retire_pass s)"
proof (induction s rule: retire_pass.induct)
  case (1 s)
  show ?case
  proof (cases "retire_q s")
    case Nil
    then show ?thesis using "1.prems" by (simp add: retire_pass.simps [of s])
  next
    case (Cons idx rest)
    from "1.IH" [OF Cons retire_one_inv [OF Cons "1.prems"(1)]]
      retire_one_causal [OF Cons pipe_invD(2) [OF "1.prems"(1)] "1.prems"(2,3)]
    show ?thesis using Cons by (simp add: retire_pass.simps [of s])
  qed
qed

lemma unat_of_nat_le: "unat (of_nat n :: 'a::len word) \<le> n"
  by (simp add: unat_of_nat take_bit_nat_less_eq_self)

lemma complete_one_causal:
  assumes idx: "idx \<in> stage_set Execute s" and nxt: "next_to_fetch s \<le> length (sim_instrs s)"
    and inv: "causal_inv n s"
  shows "causal_inv n (complete_one idx s)"
proof -
  let ?t = "complete_one idx s"
  have b: "idx < next_to_fetch s" "idx < length (sim_instrs s)"
    using idx nxt by (auto simp: stage_set_def)
  have at: "sim_instrs ?t ! j =
      (if j = idx then (sim_instrs s ! idx)\<lparr>complete_cycle := sim_cycle s, instr_stage := Retire\<rparr>
       else sim_instrs s ! j)" for j
    using b by (simp add: step_defs nth_list_update)
  have nxt_eq: "next_to_fetch ?t = next_to_fetch s" and cyc_eq: "sim_cycle ?t = sim_cycle s"
    by (simp_all add: step_defs)
  have sets: "stage_set Done ?t = stage_set Done s"
    "stage_set Retire ?t = insert idx (stage_set Retire s)" "stage_set Execute ?t \<subseteq> stage_set Execute s"
    using idx b by (auto simp: stage_set_def at nxt_eq split: if_splits)
  have "idx \<notin> stage_set Done s" using idx by (auto simp: stage_set_def)
  then show ?thesis
    by (intro causal_frame [OF inv])
      (use inv idx sets in \<open>auto simp: at causal_inv_def issued_after_deps_def cyc_eq unat_of_nat_le\<close>)
qed

lemma complete_all_causal:
  "hand_inv config w (mset fin) s \<Longrightarrow> causal_inv n s \<Longrightarrow> causal_inv n (fold complete_one fin s)"
proof (induction fin arbitrary: s)
  case Nil
  then show ?case by simp
next
  case (Cons idx fin)
  have loc: "loc_inv (add_mset idx (mset fin)) s" using Cons.prems by (simp add: hand_inv_def)
  have "idx \<in> stage_set Execute s" using hand_in_execute [OF loc] by simp
  moreover have "next_to_fetch s \<le> length (sim_instrs s)" using loc by (simp add: loc_inv_def)
  ultimately have "causal_inv n (complete_one idx s)" using complete_one_causal Cons.prems(2) by blast
  then show ?case using Cons.IH complete_one_hand Cons.prems(1) by simp
qed

lemma inactive_write_causal:
  assumes inv: "causal_inv n s" and loc: "loc_inv h s" and idx: "idx \<in> stage_set st s"
    and st: "st \<notin> {Execute, Retire, Done}" "instr_stage i \<notin> {Execute, Retire, Done}"
    and ins: "sim_instrs t = (sim_instrs s)[idx := i]" and nxt: "next_to_fetch t = next_to_fetch s"
    and cyc: "sim_cycle t = sim_cycle s"
  shows "causal_inv n t"
proof -
  have len: "next_to_fetch s \<le> length (sim_instrs s)" and b: "idx < next_to_fetch s"
    using loc idx by (auto simp: loc_inv_def stage_set_def)
  have at: "sim_instrs t ! j = (if j = idx then i else sim_instrs s ! j)" for j
    using b len by (simp add: ins nth_list_update)
  have ss: "stage_set q t = stage_set q s" if "q \<in> {Execute, Retire, Done}" for q
  proof -
    have "idx \<notin> stage_set q s" "q \<noteq> instr_stage i" using that st idx by (auto simp: stage_set_def)
    then show ?thesis using stage_set_write [OF ins nxt b len, of q] by simp
  qed
  have sets: "stage_set Execute t = stage_set Execute s" "stage_set Retire t = stage_set Retire s"
    "stage_set Done t = stage_set Done s"
    by (simp_all add: ss)
  have notin: "idx \<notin> stage_set Execute s" "idx \<notin> stage_set Retire s" "idx \<notin> stage_set Done s"
    using st idx by (auto simp: stage_set_def)
  show ?thesis
    by (intro causal_frame [OF inv cyc])
      (use inv notin in \<open>auto simp: at sets causal_inv_def issued_after_deps_def\<close>)
qed

lemma pipe_step_causal:
  assumes "pipe_step config False s t" and "pipe_inv config w 0 s" and "causal_inv n s"
    and n: "n < 2 ^ 64"
  shows "causal_inv n t"
  using assms(1-3)
proof (induction rule: pipe_step.induct)
  case (wake s idx rest)
  note loc = pipe_invD(2) [OF wake(4)]
  have "idx \<in> stage_set Dispatch s" using front_stage [OF loc, of Dispatch] wake(1) by simp
  with wake(5) loc show ?case by (rule inactive_write_causal) (auto simp: step_defs)
next
  case (issue s idx rest uses_memory)
  note invs = pipe_invD [OF issue(4)]
  let ?t = "take_issue idx rest uses_memory s"
  have idx: "idx \<in> stage_set Ready s" using front_stage [OF invs(2), of Ready] issue(1) by simp
  then have b: "idx < next_to_fetch s" "idx < length (sim_instrs s)"
    using invs(2) by (auto simp: loc_inv_def stage_set_def)
  have at: "sim_instrs ?t ! j =
      (if j = idx then (sim_instrs s ! idx)\<lparr>instr_stage := Execute, issue_cycle := sim_cycle s\<rparr>
       else sim_instrs s ! j)" for j
    using b by (simp add: step_defs nth_list_update)
  have nxt_eq: "next_to_fetch ?t = next_to_fetch s" and cyc_eq: "sim_cycle ?t = sim_cycle s"
    by (simp_all add: step_defs)
  have sets: "stage_set Done ?t = stage_set Done s" "stage_set Retire ?t = stage_set Retire s"
    "stage_set Execute ?t = insert idx (stage_set Execute s)"
    using idx b by (auto simp: stage_set_def at nxt_eq split: if_splits)
  have ready: "set (deps (sim_instrs s ! idx)) \<subseteq> retired_ids s"
    using invs(7) idx by (auto simp: dep_inv_def stage_set_def)
  have cyc: "unat (sim_cycle s) = n"
    using issue(5) n by (simp add: causal_inv_def unat_of_nat take_bit_nat_eq_self)
  have newdeps: "\<exists>j \<in> stage_set Done s. instr_id (sim_instrs s ! j) = d \<and>
      unat (complete_cycle (sim_instrs s ! j)) < n" if "d \<in> set (deps (sim_instrs s ! idx))" for d
  proof -
    have "d \<in> (\<lambda>i. instr_id (sim_instrs s ! i)) ` stage_set Done s"
      using ready that invs(3) by (auto simp: retired_inv_def)
    then show ?thesis using issue(5) by (auto simp: causal_inv_def)
  qed
  have "idx \<notin> stage_set Done s" using idx by (auto simp: stage_set_def)
  then show ?case
    using sets issue(5) cyc newdeps
    by (intro causal_frame [OF issue(5)])
      (auto simp: at causal_inv_def issued_after_deps_def cyc_eq)
next
  case (fetch s)
  show ?case
    using fetch(1)
    by (intro causal_frame [OF fetch(3)])
      (use fetch(3) in \<open>auto simp: causal_inv_def issued_after_deps_def step_defs stage_set_def
          nth_list_update less_Suc_eq split: if_splits\<close>)
next
  case (dispatch s idx rest)
  note loc = pipe_invD(2) [OF dispatch(3)]
  have "idx \<in> stage_set Decode s" using front_stage [OF loc, of Decode] dispatch(1) by simp
  with dispatch(4) loc show ?case by (rule inactive_write_causal) (auto simp: step_defs)
next
  case (decode s idx rest)
  note loc = pipe_invD(2) [OF decode(2)]
  have "idx \<in> stage_set Fetch s" using front_stage [OF loc, of Fetch] decode(1) by simp
  with decode(3) loc show ?case by (rule inactive_write_causal) (auto simp: step_defs)
qed (auto simp: causal_inv_def issued_after_deps_def step_defs stage_set_def)


lemma reach_causal:
  "reach config w n s \<Longrightarrow> n \<le> 2 ^ 64 \<Longrightarrow> causal_inv n s \<and> completed_before n s"
proof (induction rule: reach.induct)
  case reach_start
  show ?case
    by (simp add: causal_inv_def completed_before_def initial_state_def stage_set_def)
next
  case (reach_cycle n s t)
  have head: "pipe_inv config w 1 s" using reach_inv [OF reach_cycle(1)] .
  have n: "n < 2 ^ 64" "causal_inv n s" "completed_before n s" using reach_cycle by simp_all
  let ?r = "retire_pass s"
  have ir: "pipe_inv config w 1 ?r" by (rule retire_pass_inv [OF head])
  have cr: "causal_inv n ?r" by (rule retire_pass_causal [OF head n(2,3)])
  obtain u where u: "execute_pass ?r = Inr u" "pipe_inv config w 0 u"
    by (rule execute_pass_inv [OF ir])
  have ue: "u = fold complete_one (finished_now ?r) (aged ?r)"
    using u(1) execute_pass_eq [OF pipe_invD(4) [OF ir]] by simp
  have "causal_inv n (aged ?r)"
    using cr by (simp add: causal_inv_def issued_after_deps_def aged_def stage_set_def)
  then have cu: "causal_inv n u"
    unfolding ue by (rule complete_all_causal [OF aged_hand [OF ir]])
  have "causal_inv n (cycle_moves config u) \<and> pipe_inv config w 0 (cycle_moves config u)"
    by (rule invariant_steps [OF cycle_moves_steps [where b = False],
          where P = "\<lambda>s. causal_inv n s \<and> pipe_inv config w 0 s"])
      (use cu u(2) n pipe_step_causal pipe_step_inv in blast)+
  then have cm: "causal_inv n (cycle_moves config u)" by simp
  have t: "t = (let s = sample_stats (cycle_moves config u) in s\<lparr>sim_cycle := sim_cycle s + 1\<rparr>)"
    using reach_cycle(3) u(1) by (simp add: cycle_step_def cycle_tail_moves)
  obtain st where "sample_stats (cycle_moves config u) = (cycle_moves config u)\<lparr>sim_stats := st\<rparr>"
    by (rule sample_stats_only)
  with t have t': "t = (cycle_moves config u)\<lparr>sim_stats := st, sim_cycle := sim_cycle (cycle_moves config u) + 1\<rparr>"
    by (simp add: Let_def)
  show ?case
    unfolding t' using cm
    by (auto simp: causal_inv_def completed_before_def issued_after_deps_def le_Suc_eq less_Suc_eq
        less_Suc_eq_le)
qed

end
