(* ===== verification/Pipeline_Counters.thy ===== *)
theory Pipeline_Counters
  imports Pipeline_Causality
begin

text \<open>
  The statistics of a run. \<open>counter_inv\<close> holds after every cycle (\<open>reach_counters\<close>): the stage
  counters are those of the six stages and never exceed the number of cycles, the stall counters are
  those of the five reasons, and the recorded high-water marks stay within the configured
  capacities (\<open>occ_bound\<close>).
\<close>

section \<open>Counters and high-water marks\<close>

lemma omap_get_bump_if:
  "omap_wf m \<Longrightarrow> omap_wf (bump_if c k m) \<and>
     omap_get (bump_if c k m) k' = (if c \<and> k' = k then Some (omap_at m k + 1) else omap_get m k')"
  by (simp add: bump_if_def omap_get_bump)

definition stage_keys :: "string set" where
  "stage_keys = {''Fetch'', ''Decode'', ''Dispatch'', ''Issue'', ''Execute'', ''Retire''}"

definition stall_keys :: "string set" where
  "stall_keys = {''DispatchQueueFull'', ''ReadyQueueFull'', ''WaitingDependency'',
     ''NoComputeUnit'', ''NoMemoryPort''}"

definition busy_inv :: "nat \<Rightarrow> sim_state \<Rightarrow> bool" where
  "busy_inv n s \<longleftrightarrow>
     (let busy = stage_busy_cycles (sim_stats s) in
        omap_wf busy \<and> dom (omap_get busy) = stage_keys \<and> (\<forall>k. unat (omap_at busy k) \<le> n))"

definition stall_inv :: "sim_state \<Rightarrow> bool" where
  "stall_inv s \<longleftrightarrow>
     (let stalls = stall_counts (sim_stats s) in
        omap_wf stalls \<and> dom (omap_get stalls) = stall_keys)"

definition occ_bound :: "simulator_config \<Rightarrow> nat \<Rightarrow> string \<Rightarrow> nat" where
  "occ_bound config len key =
     (if key = ''dispatch_q'' then unat (dispatch_queue_capacity config)
      else if key = ''ready_q'' then unat (ready_queue_capacity config)
      else if key = ''execute_slots'' then unat (compute_units config) + unat (memory_ports config)
      else len)"

definition occ_inv :: "simulator_config \<Rightarrow> nat \<Rightarrow> sim_state \<Rightarrow> bool" where
  "occ_inv config len s \<longleftrightarrow>
     (let occ = max_queue_occupancy (sim_stats s) in
        omap_wf occ \<and> (\<forall>k. unat (omap_at occ k) \<le> occ_bound config len k))"

lemma bump_bound:
  assumes "omap_wf m" and "unat (omap_at m k) \<le> n"
  shows "unat (omap_at (bump m k 1) k) \<le> Suc n"
  using assms
  by (simp add: omap_at_def omap_get_bump unat_word_ariths)

lemma if_Suc_bound: "x \<le> (if b then Suc n else n) \<Longrightarrow> x \<le> Suc n"
  by (simp split: if_splits)

lemma busy_step:
  assumes "omap_wf m \<and> dom (omap_get m) = stage_keys \<and>
      (\<forall>k'. unat (omap_at m k') \<le> (if k' \<in> done_keys then Suc n else n))"
    and "k \<in> stage_keys" and "k \<notin> done_keys"
  shows "omap_wf (bump_if c k m) \<and> dom (omap_get (bump_if c k m)) = stage_keys \<and>
      (\<forall>k'. unat (omap_at (bump_if c k m) k') \<le> (if k' \<in> insert k done_keys then Suc n else n))"
proof (cases c)
  case True
  have "omap_at (bump m k 1) k' = omap_at m k'" if "k' \<noteq> k" for k'
    using that assms(1) by (simp add: omap_at_def omap_get_bump)
  moreover have "unat (omap_at (bump m k 1) k) \<le> Suc n"
    using bump_bound [of m k n] assms(1) [THEN conjunct2, THEN conjunct2, THEN spec, of k]
      assms(1,3) by simp
  moreover have "dom (omap_get (bump m k 1)) = stage_keys"
    using assms(1,2) by (simp add: dom_bump insert_absorb)
  moreover have "unat (omap_at m k') \<le> (if k' \<in> done_keys then Suc n else n)" for k'
    using assms(1) by blast
  ultimately have "unat (omap_at (bump m k 1) k') \<le> (if k' \<in> insert k done_keys then Suc n else n)"
    for k' by (cases "k' = k") auto
  then show ?thesis using True assms(1) \<open>dom (omap_get (bump m k 1)) = stage_keys\<close>
    by (simp add: bump_if_def)
next
  case False
  have "unat (omap_at m k') \<le> (if k' \<in> insert k done_keys then Suc n else n)" for k'
    using assms(1) [THEN conjunct2, THEN conjunct2, THEN spec, of k']
    by (cases "k' = k") (auto split: if_splits)
  then show ?thesis using False assms(1) by (simp add: bump_if_def)
qed

lemma sample_busy:
  assumes "busy_inv n s"
  shows "busy_inv (Suc n) (sample_stats s)"
proof -
  have base: "omap_wf (stage_busy_cycles (sim_stats s)) \<and>
      dom (omap_get (stage_busy_cycles (sim_stats s))) = stage_keys \<and>
      (\<forall>k'. unat (omap_at (stage_busy_cycles (sim_stats s)) k') \<le> (if k' \<in> {} then Suc n else n))"
    using assms by (simp add: busy_inv_def Let_def)
  note steps = busy_step [OF busy_step [OF busy_step [OF busy_step [OF busy_step [OF busy_step [OF base]]]]]]
  define busy where "busy = stage_busy_cycles (sim_stats (sample_stats s))"
  have all: "omap_wf busy \<and> dom (omap_get busy) = stage_keys \<and> (\<forall>k'. unat (omap_at busy k') \<le>
      (if k' \<in> {''Retire'', ''Execute'', ''Issue'', ''Dispatch'', ''Decode'', ''Fetch''}
       then Suc n else n))"
    unfolding busy_def sample_stats_def Let_def
    using steps [of "''Fetch''" "''Decode''" "''Dispatch''" "''Issue''" "''Execute''" "''Retire''"
        "retire_q s \<noteq> []" "exec_slots s \<noteq> []" "ready_q s \<noteq> []"
        "decode_q s \<noteq> [] \<or> dispatch_q s \<noteq> []" "fetch_q s \<noteq> []"
        "next_to_fetch s < length (sim_instrs s)"]
    by (simp add: stage_keys_def)
  have "unat (omap_at busy k) \<le> Suc n" for k
    by (rule if_Suc_bound) (rule all [THEN conjunct2, THEN conjunct2, THEN spec])
  then show ?thesis using all by (simp add: busy_inv_def busy_def Let_def)
qed

lemma update_max_bound:
  assumes "omap_wf m \<and> (\<forall>k'. unat (omap_at m k') \<le> f k')" and "unat v \<le> f k"
  shows "omap_wf (update_max m k v) \<and> (\<forall>k'. unat (omap_at (update_max m k v) k') \<le> f k')"
  using assms by (auto simp: omap_at_def omap_get_update_max max_def)

lemma unat_of_nat_bound: "n \<le> m \<Longrightarrow> unat (of_nat n :: u64) \<le> m"
  using unat_of_nat_le le_trans by blast

lemma sample_occ:
  assumes occ: "occ_inv config (length w) s" and inv: "pipe_inv config w d s"
  shows "occ_inv config (length w) (sample_stats s)"
proof -
  note invs = pipe_invD [OF inv]
  have lens: "length (queue_of st s) \<le> length w" if "st \<noteq> Done" for st
  proof -
    have "set (queue_of st s) \<subseteq> {..<length w}"
      using loc_inv_queue(1) [OF invs(2) that] fetched_bound [OF invs(1,2)] by auto
    then have "card (set (queue_of st s)) \<le> length w"
      using card_mono [of "{..<length w}"] by fastforce
    then show ?thesis using loc_inv_queue(2) [OF invs(2) that] by (simp add: distinct_card)
  qed
  have slots: "length (exec_slots s) \<le> unat (compute_units config) + unat (memory_ports config)"
  proof -
    have "length (exec_slots s) = mem_slots (exec_slots s) + alu_slots (exec_slots s)"
      using sum_length_filter_compl [of slot_uses_memory "exec_slots s"]
      by (simp add: mem_slots_def alu_slots_def)
    then show ?thesis using unit_inv_counts(1,2) [OF invs(4)] invs(4)
      by (simp add: unit_inv_def word_le_nat_alt)
  qed
  let ?b = "occ_bound config (length w)"
  have b: "length (fetch_q s) \<le> ?b ''fetch_q''" "length (decode_q s) \<le> ?b ''decode_q''"
    "length (dispatch_q s) \<le> ?b ''dispatch_q''" "length (ready_q s) \<le> ?b ''ready_q''"
    "length (exec_slots s) \<le> ?b ''execute_slots''" "length (retire_q s) \<le> ?b ''retire_q''"
    using invs(5) lens [of Fetch] lens [of Decode] lens [of Retire] slots
    by (simp_all add: occ_bound_def cap_inv_def)
  have base: "omap_wf (max_queue_occupancy (sim_stats s)) \<and>
      (\<forall>k. unat (omap_at (max_queue_occupancy (sim_stats s)) k) \<le> ?b k)"
    using occ by (simp add: occ_inv_def Let_def)
  show ?thesis
    unfolding occ_inv_def Let_def sample_stats_def
    by simp (intro update_max_bound base unat_of_nat_bound b)
qed

lemma pipe_step_counters:
  "pipe_step config b s t \<Longrightarrow>
     stage_busy_cycles (sim_stats t) = stage_busy_cycles (sim_stats s) \<and>
     max_queue_occupancy (sim_stats t) = max_queue_occupancy (sim_stats s) \<and>
     (stall_inv s \<longrightarrow> stall_inv t)"
proof (induction rule: pipe_step.induct)
  case (stall key s)
  then show ?case
    by (auto simp: bump_stall_def stall_inv_def stall_keys_def dom_bump Let_def)
qed (auto simp: step_defs stall_inv_def)

definition counter_inv :: "simulator_config \<Rightarrow> nat \<Rightarrow> nat \<Rightarrow> sim_state \<Rightarrow> bool" where
  "counter_inv config len n s \<longleftrightarrow> busy_inv n s \<and> stall_inv s \<and> occ_inv config len s"

lemma pipe_step_counter_inv:
  "pipe_step config b s t \<Longrightarrow> counter_inv config len n s \<Longrightarrow> counter_inv config len n t"
  using pipe_step_counters [of config b s t] by (simp add: counter_inv_def busy_inv_def occ_inv_def)

lemma counter_inv_stats:
  "sim_stats t = sim_stats s \<Longrightarrow> counter_inv config len n t = counter_inv config len n s"
  by (simp add: counter_inv_def busy_inv_def occ_inv_def stall_inv_def)

lemma complete_all_stats: "sim_stats (fold complete_one fin s) = sim_stats s"
  by (induction fin arbitrary: s) (auto simp: complete_one_def write_instr_def Let_def)

lemma omap_at_bump_zero:
  "omap_wf m \<and> (\<forall>k. omap_at m k = 0) \<Longrightarrow> omap_wf (bump m k' 0) \<and> (\<forall>k. omap_at (bump m k' 0) k = 0)"
  by (simp add: omap_at_def omap_get_bump)

lemma initial_counters: "counter_inv config len 0 (initial_state w)"
proof -
  note ib = initial_stats_def empty_stats_def Let_def
  have zero: "omap_wf ([] :: (string, u64) omap) \<and> (\<forall>k. omap_at ([] :: (string, u64) omap) k = 0)"
    by (simp add: omap_at_def omap_get_def)
  have busy: "omap_wf (stage_busy_cycles initial_stats) \<and> (\<forall>k. omap_at (stage_busy_cycles initial_stats) k = 0)"
    unfolding initial_stats_def Let_def stats.simps empty_stats_def by (intro omap_at_bump_zero zero)
  have stall: "omap_wf (stall_counts initial_stats) \<and> (\<forall>k. omap_at (stall_counts initial_stats) k = 0)"
    unfolding initial_stats_def Let_def stats.simps empty_stats_def by (intro omap_at_bump_zero zero)
  have occ: "max_queue_occupancy initial_stats = []" by (simp add: ib)
  have "dom (omap_get (stage_busy_cycles initial_stats)) = stage_keys"
    unfolding ib by (simp add: dom_bump stage_keys_def) (auto simp: omap_get_def)
  moreover have "dom (omap_get (stall_counts initial_stats)) = stall_keys"
    unfolding ib by (simp add: dom_bump stall_keys_def) (auto simp: omap_get_def)
  ultimately show ?thesis using busy stall occ zero
    by (simp add: counter_inv_def busy_inv_def stall_inv_def occ_inv_def initial_state_def)
qed

lemma reach_counters: "reach config w n s \<Longrightarrow> counter_inv config (length w) n s"
proof (induction rule: reach.induct)
  case reach_start
  show ?case by (rule initial_counters)
next
  case (reach_cycle n s t)
  let ?c = "counter_inv config (length w)"
  note head = reach_inv [OF reach_cycle(1)]
  let ?r = "retire_pass s"
  have ir: "pipe_inv config w 1 ?r" by (rule retire_pass_inv [OF head])
  have cr: "?c n ?r" 
    using invariant_steps [where P = "?c n", OF retire_pass_steps [of config] reach_cycle(4)]
      pipe_step_counter_inv by blast
  obtain u where u: "execute_pass ?r = Inr u" "pipe_inv config w 0 u"
    by (rule execute_pass_inv [OF ir])
  have "u = fold complete_one (finished_now ?r) (aged ?r)"
    using u(1) execute_pass_eq [OF pipe_invD(4) [OF ir]] by simp
  then have "sim_stats u = sim_stats ?r" by (simp add: complete_all_stats aged_def)
  then have cu: "?c n u" using cr counter_inv_stats by blast
  let ?m = "cycle_moves config u"
  have cm: "?c n ?m" 
    using invariant_steps [where P = "?c n", OF cycle_moves_steps [of config True] cu]
      pipe_step_counter_inv by blast
  have im: "pipe_inv config w 0 ?m" by (rule pipe_steps_inv [OF cycle_moves_steps u(2)])
  have "stall_inv (sample_stats ?m)"
    using cm sample_stats_only [of ?m] by (metis counter_inv_def stall_inv_def ext_inject
      sim_state.select_convs(2) sim_state.surjective sim_state.update_convs(2))
  then have "?c (Suc n) (sample_stats ?m)"
    using cm sample_busy sample_occ [OF _ im] by (simp add: counter_inv_def)
  moreover have "t = (let s = sample_stats ?m in s\<lparr>sim_cycle := sim_cycle s + 1\<rparr>)"
    using reach_cycle(3) u(1) by (simp add: cycle_step_def cycle_tail_moves)
  ultimately have "sim_stats t = sim_stats (sample_stats ?m)" "?c (Suc n) (sample_stats ?m)"
    by (simp_all add: Let_def)
  then show ?case using counter_inv_stats by blast
qed

end
