(* ===== verification/Pipeline_Runs.thy ===== *)
theory Pipeline_Runs
  imports Pipeline_Counters
begin

text \<open>
  What a whole run looks like: \<open>run_returned\<close> gives the final state behind a result and the bound
  on its cycles, \<open>run_hangs\<close> the stuck state behind a run that does not return, and
  \<open>done_everywhere\<close> what every instruction looks like in the end. Three more facts about the
  cycles of a run: at most \<open>issue_width\<close> instructions leave the ready queue in one
  (\<open>reach_unissued\<close>), no instruction moves backward (\<open>cycle_step_forward\<close>), and none gets past
  the queue or unit it has no room in (\<open>reach_behind\<close>).
\<close>

section \<open>What a returned run is\<close>

lemma run_returned:
  assumes "run_workload w config = Some r"
  obtains n t where "r = Inr (finish_run config t)" and "reach config w n t"
    and "\<not> has_work_left t" and "n \<le> (\<Sum>i\<leftarrow>w. 7 + unat (execute_latency i))"
proof -
  obtain m t where "run_loop config (initial_state w) = Some (Inr t)" "reach config w m t"
      "\<not> has_work_left t" "m + work_left w t \<le> work_left w (initial_state w)"
    using run_loop_dichotomy [OF reach_start [of config w]] assms
    by (auto simp: run_workload_def)
  then show thesis using that [of t m] assms by (auto simp: run_workload_def initial_work)
qed

lemma run_hangs:
  assumes "run_workload w config = None"
  obtains n t where "reach config w n t" and "has_work_left t" and "stuck config t"
  using run_loop_dichotomy [OF reach_start [of config w]] assms
  by (auto simp: run_workload_def)

lemma run_completes:
  assumes "topological w" and "units_for config w" and "widths_positive config"
    and "queues_positive config"
  obtains r where "run_workload w config = Some (Inr r)"
proof (cases "run_workload w config")
  case None
  then obtain n t where t: "reach config w n t" "has_work_left t" "stuck config t"
    by (rule run_hangs)
  then show thesis using positive_not_stuck [OF reach_inv [OF t(1)] assms t(2)] by simp
next
  case (Some r)
  then show thesis by (rule run_returned) (use that Some in simp)
qed

text \<open>The parts of a cycle, as the proofs below need them.\<close>

lemma cycle_parts:
  assumes inv: "pipe_inv config w 1 s" and step: "cycle_step config s = Inr t"
  obtains u where "u = fold complete_one (finished_now (retire_pass s)) (aged (retire_pass s))"
    and "pipe_inv config w 1 (retire_pass s)" and "pipe_inv config w 0 u"
    and "t = (let s = sample_stats (cycle_moves config u) in s\<lparr>sim_cycle := sim_cycle s + 1\<rparr>)"
proof -
  have ir: "pipe_inv config w 1 (retire_pass s)" by (rule retire_pass_inv [OF inv])
  obtain u where u: "execute_pass (retire_pass s) = Inr u" "pipe_inv config w 0 u"
    by (rule execute_pass_inv [OF ir])
  show thesis
    using that [of u] u ir step execute_pass_eq [OF pipe_invD(4) [OF ir]]
    by (simp add: cycle_step_def cycle_tail_moves)
qed

lemma complete_all_cycle:
  "sim_cycle (fold complete_one fin s) = sim_cycle s \<and>
   next_to_fetch (fold complete_one fin s) = next_to_fetch s \<and>
   fetch_q (fold complete_one fin s) = fetch_q s \<and> decode_q (fold complete_one fin s) = decode_q s \<and>
   dispatch_q (fold complete_one fin s) = dispatch_q s \<and> ready_q (fold complete_one fin s) = ready_q s \<and>
   length (sim_instrs (fold complete_one fin s)) = length (sim_instrs s)"
  by (induction fin arbitrary: s) (auto simp: complete_one_def write_instr_def Let_def)

lemma pipe_step_cycle: "pipe_step config b s t \<Longrightarrow> sim_cycle t = sim_cycle s"
  by (induction rule: pipe_step.induct) (auto simp: step_defs)

lemma cycle_step_cycle:
  assumes "pipe_inv config w 1 s" and "cycle_step config s = Inr t"
  shows "sim_cycle t = sim_cycle s + 1"
proof (rule cycle_parts [OF assms])
  fix u
  assume u: "u = fold complete_one (finished_now (retire_pass s)) (aged (retire_pass s))"
    and t: "t = (let s = sample_stats (cycle_moves config u) in s\<lparr>sim_cycle := sim_cycle s + 1\<rparr>)"
  have "sim_cycle (cycle_moves config u) = sim_cycle u"
    by (rule invariant_steps [OF cycle_moves_steps [of config True]]) (auto simp: pipe_step_cycle)
  then show ?thesis using retire_pass_frame [of s]
    by (simp add: t Let_def u complete_all_cycle aged_def)
qed

lemma reach_cycle_count: "reach config w n s \<Longrightarrow> sim_cycle s = of_nat n"
proof (induction rule: reach.induct)
  case reach_start
  show ?case by (simp add: initial_state_def)
next
  case (reach_cycle n s t)
  have "sim_cycle t = sim_cycle s + 1"
    by (rule cycle_step_cycle [OF reach_inv [OF reach_cycle(1)] reach_cycle(3)])
  then show ?case using reach_cycle(4) by simp
qed

lemma done_everywhere:
  assumes "reach config w n t" and "\<not> has_work_left t"
  shows "length (sim_instrs t) = length w" and "stage_set Done t = {..<length w}"
    and "\<forall>i \<in> set (sim_instrs t). instr_stage i = Done \<and> finish_time i"
    and "map instr_core (sim_instrs t) = map instr_core w"
    and "completed_ops (sim_stats t) = of_nat (length w)"
    and "total_latency (sim_stats t) =
      (\<Sum>i\<leftarrow>sim_instrs t. complete_cycle i - enqueue_cycle i)"
proof -
  note inv = reach_inv [OF assms(1)]
  note invs = pipe_invD [OF inv] and fin = finished_state [OF inv assms(2)]
  show len: "length (sim_instrs t) = length w" and done_all: "stage_set Done t = {..<length w}"
    using fin by simp_all
  show "\<forall>i \<in> set (sim_instrs t). instr_stage i = Done \<and> finish_time i"
  proof
    fix i assume "i \<in> set (sim_instrs t)"
    then obtain k where k: "k < length w" "i = sim_instrs t ! k"
      using len by (auto simp: in_set_conv_nth)
    then show "instr_stage i = Done \<and> finish_time i"
      using fin(3) invs(8) done_all by (auto simp: time_inv_def)
  qed
  show "map instr_core (sim_instrs t) = map instr_core w"
    using invs(1) by (simp add: program_inv_def)
  show "completed_ops (sim_stats t) = of_nat (length w)"
    using invs(3) done_all by (simp add: retired_inv_def)
  have "total_latency (sim_stats t) = (\<Sum>k<length (sim_instrs t).
      complete_cycle (sim_instrs t ! k) - enqueue_cycle (sim_instrs t ! k))"
    using invs(3) done_all len by (simp add: retired_inv_def)
  also have "\<dots> = (\<Sum>i\<leftarrow>sim_instrs t. complete_cycle i - enqueue_cycle i)"
    by (simp add: sum_list_sum_nth atLeast0LessThan [symmetric])
  finally show "total_latency (sim_stats t) = \<dots>" .
qed

section \<open>How fast instructions can leave the front end\<close>

definition unissued :: "sim_state \<Rightarrow> nat" where
  "unissued s = length (fetch_q s) + length (decode_q s) + length (dispatch_q s) +
     length (ready_q s) + (length (sim_instrs s) - next_to_fetch s)"

lemma ready_pass_unissued: "unissued (ready_pass config n s) = unissued s"
proof (induction n arbitrary: s)
  case 0
  show ?case by simp
next
  case (Suc n)
  show ?case
  proof (cases "dispatch_q s")
    case Nil
    then show ?thesis by simp
  next
    case (Cons idx rest)
    have "unissued (ready_one config idx (s\<lparr>dispatch_q := rest\<rparr>)) = unissued s"
      using Cons by (simp add: unissued_def ready_one_def write_instr_def bump_stall_def Let_def)
    then show ?thesis using Suc.IH Cons by simp
  qed
qed

lemma issue_pass_unissued:
  "unat issued \<le> unat (issue_width config) \<Longrightarrow> issue_pass config n (issued, s) = (issued', s') \<Longrightarrow>
     unissued s + unat issued = unissued s' + unat issued' \<and> unat issued' \<le> unat (issue_width config)"
proof (induction n arbitrary: issued s)
  case 0
  then show ?case by simp
next
  case (Suc n)
  show ?case
  proof (cases "ready_q s")
    case Nil
    then show ?thesis using Suc.prems by simp
  next
    case (Cons idx rest)
    obtain k u where p: "issue_one config idx (issued, s\<lparr>ready_q := rest\<rparr>) = (k, u)"
      by (cases "issue_one config idx (issued, s\<lparr>ready_q := rest\<rparr>)")
    have "unissued s + unat issued = unissued u + unat k \<and> unat k \<le> unat (issue_width config)"
    proof (cases "issue_width config \<le> issued")
      case True
      then show ?thesis using p Cons Suc.prems(1) by (auto simp: issue_one_def unissued_def)
    next
      case False
      then have "unat (issued + 1) = Suc (unat issued)" "unat issued < unat (issue_width config)"
        using unat_inc_below [of issued "issue_width config"] by (simp_all add: word_less_nat_alt not_le)
      then show ?thesis using p Cons False
        by (auto simp: issue_one_def unissued_def start_execution_def write_instr_def bump_stall_def
            Let_def split: if_splits)
    qed
    moreover have "issue_pass config n (k, u) = (issued', s')" using Suc.prems(2) Cons p by simp
    ultimately show ?thesis using Suc.IH [of k u] by simp
  qed
qed

lemma dispatch_pass_unissued: "unissued (dispatch_pass config d s) = unissued s"
proof (induction config d s rule: dispatch_pass.induct)
  case (1 config d s)
  then show ?case
    by (auto simp: dispatch_pass.simps [of config d s] unissued_def dispatch_one_def write_instr_def
        bump_stall_def Let_def split: list.split)
qed

lemma decode_pass_unissued: "unissued (decode_pass config d s) = unissued s"
proof (induction config d s rule: decode_pass.induct)
  case (1 config d s)
  then show ?case
    by (auto simp: decode_pass.simps [of config d s] unissued_def decode_one_def write_instr_def
        Let_def split: list.split)
qed

lemma fetch_pass_unissued: "unissued (fetch_pass config d s) = unissued s"
proof (induction config d s rule: fetch_pass.induct)
  case (1 config d s)
  then show ?case
    by (auto simp: fetch_pass.simps [of config d s] unissued_def fetch_one_def write_instr_def
        Let_def)
qed

lemma cycle_step_unissued:
  assumes "pipe_inv config w 1 s" and "cycle_step config s = Inr t"
  shows "unissued s \<le> unissued t + unat (issue_width config)"
proof (rule cycle_parts [OF assms])
  fix u
  assume u: "u = fold complete_one (finished_now (retire_pass s)) (aged (retire_pass s))"
    and ir: "pipe_inv config w 1 (retire_pass s)"
    and t: "t = (let s = sample_stats (cycle_moves config u) in s\<lparr>sim_cycle := sim_cycle s + 1\<rparr>)"
  have "length (sim_instrs (retire_pass s)) = length (sim_instrs s)"
    using program_invD(1) [OF pipe_invD(1) [OF ir]] program_invD(1) [OF pipe_invD(1) [OF assms(1)]]
    by simp
  then have us: "unissued u = unissued s"
    using retire_pass_frame [of s] by (simp add: u unissued_def complete_all_cycle aged_def)
  let ?a = "ready_pass config (length (dispatch_q u)) u"
  obtain k b where b: "issue_pass config (length (ready_q ?a)) (0, ?a) = (k, b)"
    by (cases "issue_pass config (length (ready_q ?a)) (0, ?a)")
  have "unissued ?a = unissued b + unat k" "unat k \<le> unat (issue_width config)"
    using issue_pass_unissued [OF _ b] by simp_all
  moreover have "unissued (cycle_moves config u) = unissued b"
    by (simp add: cycle_moves_def Let_def b fetch_pass_unissued decode_pass_unissued
        dispatch_pass_unissued)
  moreover have "unissued t = unissued (cycle_moves config u)"
    by (rule sample_stats_only [of "cycle_moves config u"]) (simp add: t unissued_def)
  ultimately show ?thesis using us ready_pass_unissued [of config "length (dispatch_q u)" u] by simp
qed

lemma reach_unissued:
  "reach config w n s \<Longrightarrow> length w \<le> unissued s + n * unat (issue_width config)"
proof (induction rule: reach.induct)
  case reach_start
  show ?case by (simp add: unissued_def initial_state_def)
next
  case (reach_cycle n s t)
  then show ?case using cycle_step_unissued [OF reach_inv [OF reach_cycle(1)] reach_cycle(3)] by simp
qed

section \<open>Instructions only move forward\<close>

definition forward :: "sim_state \<Rightarrow> sim_state \<Rightarrow> bool" where
  "forward s t \<longleftrightarrow> next_to_fetch s \<le> next_to_fetch t \<and>
     (\<forall>i < next_to_fetch s. instr_stage (sim_instrs s ! i) \<le> instr_stage (sim_instrs t ! i))"

lemma forward_refl [simp]: "forward s s"
  by (simp add: forward_def)

lemma forward_trans: "forward s t \<Longrightarrow> forward t u \<Longrightarrow> forward s u"
  unfolding forward_def by (meson order_trans less_le_trans)

lemma forward_write:
  assumes "loc_inv h s" and "idx \<in> stage_set st s" and "sim_instrs t = (sim_instrs s)[idx := i]"
    and "next_to_fetch t = next_to_fetch s" and "st \<le> instr_stage i"
  shows "forward s t"
proof -
  have "instr_stage (sim_instrs s ! j) \<le> instr_stage (sim_instrs t ! j)" if "j < next_to_fetch s" for j
    using assms that by (cases "j = idx") (auto simp: stage_set_def loc_inv_def)
  then show ?thesis using assms(4) by (simp add: forward_def)
qed

lemma pipe_step_forward: "pipe_step config b s t \<Longrightarrow> loc_inv {#} s \<Longrightarrow> forward s t"
proof (induction rule: pipe_step.induct)
  case (retire s idx rest)
  then have "idx \<in> stage_set Retire s" by (simp add: front_stage)
  from retire(3) this show ?case
    by (rule forward_write [where i = "(sim_instrs s ! idx)\<lparr>instr_stage := Done\<rparr>"])
      (simp_all add: step_defs less_eq_stage_def stage_rank_def)
next
  case (wake s idx rest)
  then have "idx \<in> stage_set Dispatch s" by (simp add: front_stage)
  from wake(4) this show ?case
    by (rule forward_write [where i = "(sim_instrs s ! idx)\<lparr>instr_stage := Ready\<rparr>"])
      (simp_all add: step_defs less_eq_stage_def stage_rank_def)
next
  case (issue s idx rest uses_memory)
  then have "idx \<in> stage_set Ready s" by (simp add: front_stage)
  from issue(4) this show ?case
    by (rule forward_write [where
          i = "(sim_instrs s ! idx)\<lparr>instr_stage := Execute, issue_cycle := sim_cycle s\<rparr>"])
      (simp_all add: step_defs less_eq_stage_def stage_rank_def)
next
  case (dispatch s idx rest)
  then have "idx \<in> stage_set Decode s" by (simp add: front_stage)
  from dispatch(3) this show ?case
    by (rule forward_write [where i = "(sim_instrs s ! idx)\<lparr>instr_stage := Dispatch\<rparr>"])
      (simp_all add: step_defs less_eq_stage_def stage_rank_def)
next
  case (decode s idx rest)
  then have "idx \<in> stage_set Fetch s" by (simp add: front_stage)
  from decode(2) this show ?case
    by (rule forward_write [where i = "(sim_instrs s ! idx)\<lparr>instr_stage := Decode\<rparr>"])
      (simp_all add: step_defs less_eq_stage_def stage_rank_def)
next
  case (fetch s)
  then show ?case by (auto simp: forward_def step_defs)
qed (simp_all add: forward_def bump_stall_def)

lemma pipe_steps_forward:
  assumes "pipe_steps config b s t" and "loc_inv {#} s"
  shows "forward s t"
proof -
  have "loc_inv {#} t \<and> forward s t"
    using assms(1)
  proof (induction rule: rtranclp_induct)
    case base
    show ?case using assms(2) by simp
  next
    case (step t u)
    then show ?case using pipe_step_loc pipe_step_forward forward_trans by blast
  qed
  then show ?thesis ..
qed

lemma complete_all_forward:
  "hand_inv config w (mset fin) s \<Longrightarrow> forward s (fold complete_one fin s)"
proof (induction fin arbitrary: s)
  case Nil
  show ?case by simp
next
  case (Cons idx fin)
  have h: "hand_inv config w (add_mset idx (mset fin)) s" using Cons.prems by simp
  then have loc: "loc_inv (add_mset idx (mset fin)) s" by (simp add: hand_inv_def)
  have "idx \<in> stage_set Execute s" by (rule hand_in_execute [OF loc]) simp
  with loc have "forward s (complete_one idx s)"
    by (rule forward_write [where
          i = "(sim_instrs s ! idx)\<lparr>complete_cycle := sim_cycle s, instr_stage := Retire\<rparr>"])
      (simp_all add: step_defs less_eq_stage_def stage_rank_def)
  moreover have "forward (complete_one idx s) (fold complete_one fin (complete_one idx s))"
    by (rule Cons.IH [OF complete_one_hand [OF h]])
  ultimately show ?case using forward_trans by simp
qed

lemma cycle_step_forward:
  assumes "pipe_inv config w 1 s" and "cycle_step config s = Inr t"
  shows "forward s t"
proof (rule cycle_parts [OF assms])
  fix u
  assume u: "u = fold complete_one (finished_now (retire_pass s)) (aged (retire_pass s))"
    and ir: "pipe_inv config w 1 (retire_pass s)" and iu: "pipe_inv config w 0 u"
    and t: "t = (let s = sample_stats (cycle_moves config u) in s\<lparr>sim_cycle := sim_cycle s + 1\<rparr>)"
  have "forward s (retire_pass s)"
    by (rule pipe_steps_forward [OF retire_pass_steps [of config] pipe_invD(2) [OF assms(1)]])
  moreover have "forward (retire_pass s) (aged (retire_pass s))" by (simp add: forward_def aged_def)
  moreover have "forward (aged (retire_pass s)) u"
    unfolding u by (rule complete_all_forward [OF aged_hand [OF ir]])
  moreover have "forward u (cycle_moves config u)"
    by (rule pipe_steps_forward [OF cycle_moves_steps [of config True] pipe_invD(2) [OF iu]])
  moreover have "forward (cycle_moves config u) t"
    by (rule sample_stats_only [of "cycle_moves config u"]) (simp add: t forward_def)
  ultimately show ?thesis by (meson forward_trans)
qed

section \<open>What a run needs\<close>

text \<open>
  The stage an instruction cannot get past: without a unit of its kind it is never issued, without
  room in the ready or dispatch queue it never enters that queue.
\<close>

definition barrier :: "simulator_config \<Rightarrow> instruction \<Rightarrow> stage" where
  "barrier config i =
     (if dispatch_queue_capacity config = 0 then Decode
      else if ready_queue_capacity config = 0 then Dispatch
      else if (if is_memory_op (instr_type i) then memory_ports config else compute_units config) = 0
           then Ready
      else Done)"

definition behind_barrier :: "simulator_config \<Rightarrow> sim_state \<Rightarrow> bool" where
  "behind_barrier config s \<longleftrightarrow>
     (\<forall>i < next_to_fetch s. instr_stage (sim_instrs s ! i) \<le> barrier config (sim_instrs s ! i))"

lemma stage_le_Done [simp]: "st \<le> Done"
  by (cases st) (simp_all add: less_eq_stage_def stage_rank_def)

lemma barrier_cong [simp]:
  "barrier config (i\<lparr>instr_stage := st\<rparr>) = barrier config i"
  "barrier config (i\<lparr>issue_cycle := c\<rparr>) = barrier config i"
  "barrier config (i\<lparr>complete_cycle := c\<rparr>) = barrier config i"
  "barrier config (i\<lparr>enqueue_cycle := c\<rparr>) = barrier config i"
  by (simp_all add: barrier_def)

lemma behind_write:
  assumes "behind_barrier config s" and "sim_instrs t = (sim_instrs s)[idx := i]"
    and "next_to_fetch t = next_to_fetch s" and "instr_stage i \<le> barrier config i"
  shows "behind_barrier config t"
  unfolding behind_barrier_def
proof (intro allI impI)
  fix j assume "j < next_to_fetch t"
  then show "instr_stage (sim_instrs t ! j) \<le> barrier config (sim_instrs t ! j)"
    using assms
    by (cases "j = idx"; cases "j < length (sim_instrs s)")
      (auto simp: behind_barrier_def list_update_beyond)
qed

lemma stage_le_simps [simp]:
  "Fetch \<le> st" "Decode \<le> Decode" "Decode \<le> Dispatch" "Decode \<le> Ready" "Dispatch \<le> Ready"
  "\<not> Dispatch \<le> Decode" "\<not> Ready \<le> Decode" "\<not> Execute \<le> Decode" "\<not> Retire \<le> Decode"
  "\<not> Execute \<le> Dispatch" "\<not> Retire \<le> Dispatch"
  "\<not> Execute \<le> Ready" "\<not> Retire \<le> Ready" "\<not> Done \<le> Decode" "\<not> Done \<le> Dispatch" "\<not> Done \<le> Ready"
  by (simp_all add: less_eq_stage_def stage_rank_def)

lemma barrier_cases:
  "Dispatch \<le> barrier config i \<Longrightarrow> dispatch_queue_capacity config \<noteq> 0"
  "Ready \<le> barrier config i \<Longrightarrow> ready_queue_capacity config \<noteq> 0"
  "Retire \<le> barrier config i \<Longrightarrow> barrier config i = Done"
  by (auto simp: barrier_def split: if_splits)

lemma behindD: "behind_barrier config s \<Longrightarrow> idx \<in> stage_set st s \<Longrightarrow> st \<le> barrier config (sim_instrs s ! idx)"
  by (auto simp: behind_barrier_def stage_set_def)

lemma pipe_step_behind:
  "pipe_step config b s t \<Longrightarrow> loc_inv {#} s \<Longrightarrow> behind_barrier config s \<Longrightarrow> behind_barrier config t"
proof (induction rule: pipe_step.induct)
  case (retire s idx rest)
  have "idx \<in> stage_set Retire s" using retire by (simp add: front_stage)
  from barrier_cases(3) [OF behindD [OF retire(4) this]] show ?case
    by (intro behind_write [OF retire(4), where idx = idx and
        i = "(sim_instrs s ! idx)\<lparr>instr_stage := Done\<rparr>"])
      (simp_all add: step_defs)
next
  case (wake s idx rest)
  have "idx \<in> stage_set Dispatch s" using wake by (simp add: front_stage)
  from barrier_cases(1) [OF behindD [OF wake(5) this]] have "Ready \<le> barrier config (sim_instrs s ! idx)"
    using wake(3) by (auto simp: barrier_def)
  then show ?case
    by (intro behind_write [OF wake(5), where idx = idx and
        i = "(sim_instrs s ! idx)\<lparr>instr_stage := Ready\<rparr>"])
      (simp_all add: step_defs)
next
  case (issue s idx rest uses_memory)
  have r: "idx \<in> stage_set Ready s" using issue(1,4) by (simp add: front_stage)
  have "(if is_memory_op (instr_type (sim_instrs s ! idx)) then memory_ports config
      else compute_units config) \<noteq> 0"
    using issue(2,3) by (auto simp: instr_at_def split: if_splits)
  then have "barrier config (sim_instrs s ! idx) = Done"
    using behindD [OF issue(5) r] by (auto simp: barrier_def split: if_splits)
  then show ?case
    by (intro behind_write [OF issue(5), where idx = idx and
        i = "(sim_instrs s ! idx)\<lparr>instr_stage := Execute, issue_cycle := sim_cycle s\<rparr>"])
      (simp_all add: step_defs)
next
  case (dispatch s idx rest)
  then have "dispatch_queue_capacity config \<noteq> 0" by auto
  then show ?case
    by (intro behind_write [OF dispatch(4), where idx = idx and
        i = "(sim_instrs s ! idx)\<lparr>instr_stage := Dispatch\<rparr>"])
      (simp_all add: step_defs barrier_def)
next
  case (decode s idx rest)
  then show ?case
    by (intro behind_write [OF decode(3), where idx = idx and
        i = "(sim_instrs s ! idx)\<lparr>instr_stage := Decode\<rparr>"])
      (simp_all add: step_defs barrier_def)
next
  case (fetch s)
  then show ?case by (auto simp: behind_barrier_def step_defs nth_list_update less_Suc_eq)
qed (auto simp: behind_barrier_def bump_stall_def)

lemma complete_all_behind:
  "hand_inv config w (mset fin) s \<Longrightarrow> behind_barrier config s \<Longrightarrow>
     behind_barrier config (fold complete_one fin s)"
proof (induction fin arbitrary: s)
  case Nil
  then show ?case by simp
next
  case (Cons idx fin)
  have h: "hand_inv config w (add_mset idx (mset fin)) s" using Cons.prems by simp
  then have "idx \<in> stage_set Execute s" by (intro hand_in_execute) (auto simp: hand_inv_def)
  from behindD [OF Cons.prems(2) this] have "barrier config (sim_instrs s ! idx) = Done"
    by (auto simp: barrier_def split: if_splits)
  then have "behind_barrier config (complete_one idx s)"
    by (intro behind_write [OF Cons.prems(2), where idx = idx and
        i = "(sim_instrs s ! idx)\<lparr>complete_cycle := sim_cycle s, instr_stage := Retire\<rparr>"])
      (simp_all add: step_defs)
  then show ?case using Cons.IH complete_one_hand [OF h] by simp
qed

lemma reach_behind: "reach config w n s \<Longrightarrow> behind_barrier config s"
proof (induction rule: reach.induct)
  case reach_start
  show ?case by (simp add: behind_barrier_def initial_state_def)
next
  case (reach_cycle n s t)
  let ?B = "\<lambda>s. loc_inv {#} s \<and> behind_barrier config s"
  have keep: "?B s \<Longrightarrow> pipe_step config b s t \<Longrightarrow> ?B t" for b s t
    using pipe_step_loc pipe_step_behind by blast
  show ?case
  proof (rule cycle_parts [OF reach_inv [OF reach_cycle(1)] reach_cycle(3)])
    fix u
    assume u: "u = fold complete_one (finished_now (retire_pass s)) (aged (retire_pass s))"
      and ir: "pipe_inv config w 1 (retire_pass s)" and iu: "pipe_inv config w 0 u"
      and t: "t = (let s = sample_stats (cycle_moves config u) in s\<lparr>sim_cycle := sim_cycle s + 1\<rparr>)"
    have "?B s" using reach_cycle(4) pipe_invD(2) [OF reach_inv [OF reach_cycle(1)]] by simp
    then have "?B (retire_pass s)"
      using invariant_steps [where P = ?B, OF retire_pass_steps [of config]] keep by blast
    then have "behind_barrier config (aged (retire_pass s))" by (simp add: behind_barrier_def aged_def)
    then have "behind_barrier config u" unfolding u by (rule complete_all_behind [OF aged_hand [OF ir]])
    then have "?B u" using pipe_invD(2) [OF iu] by simp
    then have "?B (cycle_moves config u)"
      using invariant_steps [where P = ?B, OF cycle_moves_steps [of config True]] keep by blast
    then have m: "behind_barrier config (cycle_moves config u)" ..
    show "behind_barrier config t"
      by (rule sample_stats_only [of "cycle_moves config u"]) (use m in \<open>simp add: t behind_barrier_def\<close>)
  qed
qed

section \<open>The speed of a run\<close>

lemma run_issue_bound:
  assumes "run_workload w config = Some (Inr r)"
    and "(\<Sum>i\<leftarrow>w. 7 + unat (execute_latency i)) < 2 ^ 64"
  shows "length w \<le> unat (total_cycles (result_stats r)) * unat (issue_width config)"
proof -
  obtain n t where r: "r = finish_run config t" and t: "reach config w n t" "\<not> has_work_left t"
    and n: "n \<le> (\<Sum>i\<leftarrow>w. 7 + unat (execute_latency i))"
    using assms(1) by (auto elim: run_returned)
  have "unissued t = 0" using t(2) by (simp add: unissued_def has_work_left_def)
  then have "length w \<le> n * unat (issue_width config)" using reach_unissued [OF t(1)] by simp
  moreover have "unat (sim_cycle t) = n"
    using reach_cycle_count [OF t(1)] n assms(2) by (simp add: unat_of_nat take_bit_nat_eq_self)
  ultimately show ?thesis by (simp add: r finish_run_def)
qed

lemma run_counts:
  assumes "run_workload w config = Some (Inr r)"
    and "(\<Sum>i\<leftarrow>w. 7 + unat (execute_latency i)) < 2 ^ 64"
  shows "unat (completed_ops (result_stats r)) = length w"
    and "unat (total_cycles (result_stats r)) \<le> (\<Sum>i\<leftarrow>w. 7 + unat (execute_latency i))"
    and "length w \<le> (\<Sum>i\<leftarrow>w. 7 + unat (execute_latency i))"
proof -
  obtain n t where r: "r = finish_run config t" and t: "reach config w n t" "\<not> has_work_left t"
    and n: "n \<le> (\<Sum>i\<leftarrow>w. 7 + unat (execute_latency i))"
    using assms(1) by (auto elim: run_returned)
  show len: "length w \<le> (\<Sum>i\<leftarrow>w. 7 + unat (execute_latency i))" by (induction w) simp_all
  show "unat (completed_ops (result_stats r)) = length w"
    using done_everywhere(5) [OF t] len assms(2)
    by (simp add: r finish_run_def unat_of_nat take_bit_nat_eq_self)
  show "unat (total_cycles (result_stats r)) \<le> (\<Sum>i\<leftarrow>w. 7 + unat (execute_latency i))"
    using reach_cycle_count [OF t(1)] n assms(2)
    by (simp add: r finish_run_def unat_of_nat take_bit_nat_eq_self)
qed

end
