(* ===== verification/Simulator_Properties.thy ===== *)
theory Simulator_Properties
  imports Pipeline_Runs
begin

text \<open>
  The properties of \<open>run_workload\<close> (\<open>src/simulator.cpp\<close>): that it returns, what it returns, when it
  does not return, and what holds in every cycle. \<open>run_fuel\<close> is the fuel that every returning
  run stays within, so \<open>loop_fuel\<close> with that fuel decides the loop.
\<close>

section \<open>Runs with fuel\<close>

fun loop_fuel :: "nat \<Rightarrow> simulator_config \<Rightarrow> sim_state \<Rightarrow> sim_state result option" where
  "loop_fuel 0 config s = (if has_work_left s then None else Some (Inr s))"
| "loop_fuel (Suc n) config s =
     (if has_work_left s then
        (case cycle_step config s of Inl e \<Rightarrow> Some (Inl e) | Inr t \<Rightarrow> loop_fuel n config t)
      else Some (Inr s))"

lemma loop_fuel_sound: "loop_fuel n config s = Some r \<Longrightarrow> run_loop config s = Some r"
proof (induction n arbitrary: s)
  case 0
  then show ?case by (auto simp: run_loop.simps [of config s] split: if_splits)
next
  case (Suc n)
  then show ?case by (auto simp: run_loop.simps [of config s] split: if_splits sum.splits)
qed

text \<open>The fuel a run can need: the total work of its workload.\<close>

definition run_fuel :: "instruction list \<Rightarrow> nat" where
  "run_fuel w = (\<Sum>i\<leftarrow>w. 7 + unat (execute_latency i))"

lemma loop_fuel_complete:
  assumes "reach config w n s" and "loop_fuel k config s = None"
  shows "\<exists>t. reach config w (n + k) t \<and> has_work_left t"
  using assms
proof (induction k arbitrary: n s)
  case 0
  then show ?case by (auto split: if_splits)
next
  case (Suc k)
  then have left: "has_work_left s" by (auto split: if_splits)
  obtain t where t: "cycle_step config s = Inr t"
    by (rule cycle_step_inv [OF reach_inv [OF Suc.prems(1)]])
  have "loop_fuel k config t = None" using Suc.prems(2) left t by simp
  from Suc.IH [OF reach_cycle [OF Suc.prems(1) left t] this] show ?case by simp
qed

lemma reach_deterministic:
  assumes "reach config w n s" and "reach config w n t"
  shows "s = t"
proof -
  have "\<forall>t. reach config w n t \<longrightarrow> t = s"
    using assms(1)
  proof (induction rule: reach.induct)
    case reach_start
    show ?case by (auto elim: reach.cases)
  next
    case (reach_cycle n s t)
    show ?case
    proof (intro allI impI)
      fix u assume "reach config w (Suc n) u"
      then obtain s' where "reach config w n s'" "cycle_step config s' = Inr u"
        by (auto elim: reach.cases)
      then show "u = t" using reach_cycle by auto
    qed
  qed
  then show ?thesis using assms(2) by blast
qed

lemma reach_prefix: "reach config w n s \<Longrightarrow> m \<le> n \<Longrightarrow> \<exists>t. reach config w m t \<and> (m < n \<longrightarrow> has_work_left t)"
proof (induction rule: reach.induct)
  case reach_start
  then show ?case using reach.reach_start by auto
next
  case (reach_cycle n s t)
  show ?case
  proof (cases "m = Suc n")
    case True
    then show ?thesis using reach.reach_cycle [OF reach_cycle(1-3)] by auto
  next
    case False
    then have "m \<le> n" using reach_cycle(5) by simp
    then obtain u where u: "reach config w m u" "m < n \<longrightarrow> has_work_left u"
      using reach_cycle(4) by blast
    have "has_work_left u"
      using u reach_cycle(2) reach_deterministic [OF reach_cycle(1), of u] \<open>m \<le> n\<close>
      by (cases "m < n") auto
    then show ?thesis using u(1) by blast
  qed
qed

lemma run_loop_fuel: "run_loop config (initial_state w) = loop_fuel (run_fuel w) config (initial_state w)"
proof (cases "loop_fuel (run_fuel w) config (initial_state w)")
  case (Some r)
  then show ?thesis using loop_fuel_sound by simp
next
  case None
  then obtain t where t: "reach config w (run_fuel w) t" "has_work_left t"
    using loop_fuel_complete [OF reach_start None] by auto
  have "run_loop config (initial_state w) = None"
  proof (rule ccontr)
    assume "run_loop config (initial_state w) \<noteq> None"
    then obtain m u where u: "reach config w m u" "\<not> has_work_left u" "m \<le> run_fuel w"
      using run_loop_dichotomy [OF reach_start [of config w]]
      by (auto simp: initial_work run_fuel_def)
    then obtain u' where "reach config w m u'" "has_work_left u'"
      using reach_prefix [OF t(1) u(3)] t reach_deterministic by (cases "m < run_fuel w") auto
    then show False using u reach_deterministic by blast
  qed
  then show ?thesis using None by simp
qed

section \<open>The workload of the examples\<close>

text \<open>A load, a computation on what it loads, and a store of the result.\<close>

definition chain_workload :: "instruction list" where
  "chain_workload =
     [new_instruction\<lparr>instr_id := 1, instr_type := Load, execute_latency := 4, memory_bytes := 64\<rparr>,
      new_instruction\<lparr>instr_id := 2, execute_latency := 2, deps := [1]\<rparr>,
      new_instruction\<lparr>instr_id := 3, instr_type := Store, deps := [2], memory_bytes := 64\<rparr>]"

lemma chain_topological: "topological chain_workload"
  by (auto simp: topological_def chain_workload_def less_Suc_eq nth_Cons' new_instruction_def)

lemma chain_conditions:
  "units_for default_config chain_workload" "widths_positive default_config"
  "queues_positive default_config" "units_for default_config w"
  by (auto simp: units_for_def widths_positive_def queues_positive_def default_config_def)

lemma chain_fuel: "run_fuel chain_workload = 28"
  by (simp add: run_fuel_def chain_workload_def new_instruction_def)

text \<open>Two instructions that wait for each other.\<close>

definition cyclic_workload :: "instruction list" where
  "cyclic_workload =
     [new_instruction\<lparr>instr_id := 1, deps := [2]\<rparr>, new_instruction\<lparr>instr_id := 2, deps := [1]\<rparr>]"

lemma cyclic_waits: "waits_for_itself cyclic_workload {0, 1}"
  by (auto simp: waits_for_itself_def cyclic_workload_def new_instruction_def less_Suc_eq)

section \<open>The run as a whole\<close>

text \<open>
  C1. A workload whose instructions depend only on earlier ones, on a configuration with positive
  widths and queue capacities and a unit for every kind of operation in it, runs to completion:
  \<open>run_workload\<close> returns, without an exception, within seven cycles per instruction plus the sum of
  the latencies.
\<close>

theorem run_workload_terminates:
  assumes "topological w" and "units_for config w" and "widths_positive config"
    and "queues_positive config"
  shows "\<exists>r. run_workload w config = Some (Inr r) \<and>
    unat (total_cycles (result_stats r)) \<le> (\<Sum>i\<leftarrow>w. 7 + unat (execute_latency i))"
proof -
  obtain r where r: "run_workload w config = Some (Inr r)" using run_completes [OF assms] .
  then obtain n t where "r = finish_run config t" "reach config w n t"
      "n \<le> (\<Sum>i\<leftarrow>w. 7 + unat (execute_latency i))"
    by (auto elim: run_returned)
  then have "unat (total_cycles (result_stats r)) \<le> (\<Sum>i\<leftarrow>w. 7 + unat (execute_latency i))"
    using unat_of_nat_bound reach_cycle_count by (simp add: finish_run_def)
  then show ?thesis using r by blast
qed

lemma run_workload_terminates_witness:
  "\<exists>r. run_workload chain_workload default_config = Some (Inr r) \<and>
     unat (total_cycles (result_stats r)) \<le> 28"
  using run_workload_terminates [OF chain_topological chain_conditions(1-3)] chain_fuel
  by (simp add: run_fuel_def)

lemma chain_returns: obtains r where "run_workload chain_workload default_config = Some (Inr r)"
  using run_completes [OF chain_topological chain_conditions(1-3)] .

text \<open>
  C2. What a returned run is: the configuration it was given, the instructions of the workload in
  their order with ids, types, latencies, sizes and dependencies untouched, every one in stage
  \<open>Done\<close> and completed its latency (at least one cycle) after its issue; \<open>completed_ops\<close> counts
  them and \<open>total_latency\<close> sums their times from fetch to completion.
\<close>

theorem run_workload_result:
  assumes "run_workload w config = Some (Inr r)"
  shows "result_config r = config \<and>
    map instr_core (result_instructions r) = map instr_core w \<and>
    (\<forall>i \<in> set (result_instructions r). instr_stage i = Done \<and>
       complete_cycle i = issue_cycle i + of_nat (max 1 (unat (execute_latency i)))) \<and>
    completed_ops (result_stats r) = of_nat (length w) \<and>
    total_latency (result_stats r) =
      (\<Sum>i\<leftarrow>result_instructions r. complete_cycle i - enqueue_cycle i)"
proof -
  obtain n t where r: "r = finish_run config t" and t: "reach config w n t" "\<not> has_work_left t"
    using assms by (auto elim: run_returned)
  show ?thesis using done_everywhere [OF t] by (simp add: r finish_run_def finish_time_def)
qed

lemma run_workload_result_witness:
  "\<exists>r. run_workload chain_workload default_config = Some (Inr r) \<and>
     completed_ops (result_stats r) = 3 \<and> map instr_id (result_instructions r) = [1, 2, 3] \<and>
     (\<forall>i \<in> set (result_instructions r). instr_stage i = Done)"
proof -
  obtain r where r: "run_workload chain_workload default_config = Some (Inr r)" by (rule chain_returns)
  note res = run_workload_result [OF r]
  then have "map fst (map instr_core (result_instructions r)) = map fst (map instr_core chain_workload)"
    by simp
  then have "map instr_id (result_instructions r) = [1, 2, 3]"
    by (simp add: instr_core_def comp_def chain_workload_def new_instruction_def)
  then show ?thesis using r res by (auto simp: chain_workload_def)
qed

text \<open>
  C3. Causality. In a returned run whose cycles fit 64 bits, every dependency of every instruction
  is the id of an instruction of the run that completed strictly before the dependent one was issued.
\<close>

theorem run_workload_causality:
  assumes "run_workload w config = Some (Inr r)"
    and "(\<Sum>i\<leftarrow>w. 7 + unat (execute_latency i)) \<le> 2 ^ 64"
  shows "\<forall>i \<in> set (result_instructions r). \<forall>d \<in> set (deps i).
    \<exists>j \<in> set (result_instructions r). instr_id j = d \<and> complete_cycle j < issue_cycle i"
proof (intro ballI)
  fix i d assume i: "i \<in> set (result_instructions r)" and d: "d \<in> set (deps i)"
  obtain n t where r: "r = finish_run config t" and t: "reach config w n t" "\<not> has_work_left t"
    and n: "n \<le> (\<Sum>i\<leftarrow>w. 7 + unat (execute_latency i))"
    using assms(1) by (auto elim: run_returned)
  have c: "causal_inv n t" using reach_causal [OF t(1)] n assms(2) by simp
  note fin = done_everywhere(1,2) [OF t]
  obtain k where k: "k < length w" "i = sim_instrs t ! k"
    using i fin(1) by (auto simp: r finish_run_def in_set_conv_nth)
  then have "issued_after_deps t k" using c fin(2) by (simp add: causal_inv_def)
  then obtain j where "j \<in> stage_set Done t" "instr_id (sim_instrs t ! j) = d"
      "unat (complete_cycle (sim_instrs t ! j)) < unat (issue_cycle i)"
    using d k(2) by (auto simp: issued_after_deps_def)
  then show "\<exists>j \<in> set (result_instructions r). instr_id j = d \<and> complete_cycle j < issue_cycle i"
    using fin by (intro bexI [of _ "sim_instrs t ! j"])
      (auto simp: r finish_run_def word_less_nat_alt)
qed

lemma run_workload_causality_witness:
  "\<exists>r. run_workload chain_workload default_config = Some (Inr r) \<and>
     (\<forall>i \<in> set (result_instructions r). \<forall>d \<in> set (deps i).
        \<exists>j \<in> set (result_instructions r). instr_id j = d \<and> complete_cycle j < issue_cycle i)"
proof -
  obtain r where r: "run_workload chain_workload default_config = Some (Inr r)" by (rule chain_returns)
  have "(\<Sum>i\<leftarrow>chain_workload. 7 + unat (execute_latency i)) \<le> 2 ^ 64"
    using chain_fuel by (simp add: run_fuel_def)
  from run_workload_causality [OF r this] r show ?thesis by blast
qed

text \<open>
  C4. \<open>run_workload\<close> is decided by running the cycle for \<open>run_fuel w\<close> rounds: if the work is not
  finished by then the loop never returns, and otherwise both give the same result.
\<close>

theorem run_workload_decided:
  "run_workload w config =
     map_option (map_sum id (finish_run config)) (loop_fuel (run_fuel w) config (initial_state w))"
  by (simp add: run_workload_def run_loop_fuel)

text \<open>
  C5. Deadlock, exactly. With positive widths and capacities, a unit for every kind of operation and
  a dispatch queue that holds the whole workload, the run fails to return if and only if some
  instructions wait for each other: a nonempty set each of whose members has a dependency that no
  instruction outside the set produces (a dependency cycle, a self-dependency or an unknown id).
\<close>

theorem run_workload_deadlock_iff:
  assumes "units_for config w" and "widths_positive config" and "queues_positive config"
    and "length w \<le> unat (dispatch_queue_capacity config)"
  shows "run_workload w config = None \<longleftrightarrow> (\<exists>S. waits_for_itself w S)"
proof
  assume "run_workload w config = None"
  then obtain n t where t: "reach config w n t" "has_work_left t" "stuck config t"
    by (rule run_hangs)
  show "\<exists>S. waits_for_itself w S"
    using stuck_waits [OF reach_inv [OF t(1)] assms t(2,3)] by blast
next
  assume "\<exists>S. waits_for_itself w S"
  then show "run_workload w config = None" using run_loop_never by (auto simp: run_workload_def)
qed

lemma run_workload_deadlock_iff_witness:
  "run_workload cyclic_workload default_config = None \<and>
   \<not> (\<exists>S. waits_for_itself chain_workload S)"
proof -
  have len: "length cyclic_workload \<le> unat (dispatch_queue_capacity default_config)"
    "length chain_workload \<le> unat (dispatch_queue_capacity default_config)"
    by (simp_all add: cyclic_workload_def chain_workload_def default_config_def)
  have "run_workload chain_workload default_config \<noteq> None"
    using chain_returns by auto
  then have "\<not> (\<exists>S. waits_for_itself chain_workload S)"
    using run_workload_deadlock_iff [OF chain_conditions(4,2,3) len(2)] by simp
  moreover have "run_workload cyclic_workload default_config = None"
    using run_workload_deadlock_iff [OF chain_conditions(4,2,3) len(1)] cyclic_waits by fast
  ultimately show ?thesis by simp
qed

text \<open>
  What a run needs to return, on any configuration: a unit for every kind of operation of the
  workload, room in the dispatch and the ready queue, and no instructions that wait for each other.
  The command line accepts a zero for each of the four resources and any dependency graph; such a
  run never ends.
\<close>

theorem run_workload_needs:
  assumes "run_workload w config = Some r" and "w \<noteq> []"
  shows "units_for config w \<and> queues_positive config \<and> \<not> (\<exists>S. waits_for_itself w S)"
proof -
  obtain n t where t: "reach config w n t" "\<not> has_work_left t"
    using assms(1) by (auto elim: run_returned)
  note fin = done_everywhere(1,2) [OF t] and inv = pipe_invD(1) [OF reach_inv [OF t(1)]]
  have b: "barrier config (w ! i) = Done" if i: "i < length w" for i
  proof -
    have "i \<in> stage_set Done t" using fin i by simp
    then have "Done \<le> barrier config (sim_instrs t ! i)" by (rule behindD [OF reach_behind [OF t(1)]])
    then show ?thesis using program_inv_fields(4) [OF inv i]
      by (simp add: barrier_def split: if_splits)
  qed
  have u: "(if is_memory_op (instr_type (w ! i)) then 0 < memory_ports config
      else 0 < compute_units config)" if "i < length w" for i
    using b [OF that] by (auto simp: barrier_def word_gt_0 split: if_splits)
  have "queues_positive config"
    using b [of 0] assms(2) by (auto simp: barrier_def queues_positive_def word_gt_0 split: if_splits)
  moreover have "units_for config w"
    unfolding units_for_def using u by (metis in_set_conv_nth)
  moreover have "\<not> (\<exists>S. waits_for_itself w S)"
    using run_loop_never [of w _ config] assms(1) by (auto simp: run_workload_def)
  ultimately show ?thesis by blast
qed

lemma run_workload_needs_witness:
  "\<exists>r. run_workload chain_workload default_config = Some r \<and> units_for default_config chain_workload \<and>
     queues_positive default_config \<and> \<not> (\<exists>S. waits_for_itself chain_workload S)"
proof -
  obtain r where r: "run_workload chain_workload default_config = Some (Inr r)" by (rule chain_returns)
  moreover have "chain_workload \<noteq> []" by (simp add: chain_workload_def)
  ultimately show ?thesis using run_workload_needs [OF r] by blast
qed

text \<open>
  C6. The resource counters never underflow: no run ends with one of the exceptions that
  \<open>run_workload\<close> throws when a unit is released that was not in use.
\<close>

theorem run_workload_no_underflow: "run_workload w config \<noteq> Some (Inl e)"
proof
  assume "run_workload w config = Some (Inl e)"
  then show False by (auto elim: run_returned)
qed

section \<open>Every state of a run\<close>

text \<open>
  C7. At the head of every cycle the bounded queues respect their capacities, the units in use are
  exactly the occupied slots and no more than configured, and each fetched instruction is in exactly
  the queue of its stage, once: the queues and the retired instructions partition what was fetched.
\<close>

theorem reachable_resources:
  assumes "reach config w n s"
  shows "length (dispatch_q s) \<le> unat (dispatch_queue_capacity config) \<and>
    length (ready_q s) \<le> unat (ready_queue_capacity config) \<and>
    unat (memory_in_use s) = length (filter slot_uses_memory (exec_slots s)) \<and>
    unat (compute_in_use s) = length (filter (\<lambda>slot. \<not> slot_uses_memory slot) (exec_slots s)) \<and>
    memory_in_use s \<le> memory_ports config \<and> compute_in_use s \<le> compute_units config \<and>
    mset (fetch_q s @ decode_q s @ dispatch_q s @ ready_q s @ map slot_index (exec_slots s) @ retire_q s) +
      mset_set {i. i < next_to_fetch s \<and> instr_stage (sim_instrs s ! i) = Done} =
      mset [0..<next_to_fetch s]"
proof -
  note invs = pipe_invD [OF reach_inv [OF assms]]
  have q: "mset (queue_of st s) = mset_set (stage_set st s)" if "st \<noteq> Done" for st
    using invs(2) that by (simp add: loc_inv_def)
  have "{..<next_to_fetch s} = stage_set Fetch s \<union> (stage_set Decode s \<union>
      (stage_set Dispatch s \<union> (stage_set Ready s \<union> (stage_set Execute s \<union>
      (stage_set Retire s \<union> stage_set Done s)))))" (is "_ = ?all")
    unfolding stage_set_def using stage.exhaust by blast
  then have all: "mset [0..<next_to_fetch s] = mset_set ?all"
    by (simp only: mset_upt atLeast0LessThan)
  have un: "mset_set (A \<union> B) = mset_set A + mset_set B"
    if "A \<inter> B = {}" "finite A" "finite B" for A B :: "nat set"
    using that by (simp add: mset_set_Union)
  have "mset_set ?all = mset_set (stage_set Fetch s) + (mset_set (stage_set Decode s) +
      (mset_set (stage_set Dispatch s) + (mset_set (stage_set Ready s) + (mset_set (stage_set Execute s) +
      (mset_set (stage_set Retire s) + mset_set (stage_set Done s))))))"
    by (subst un, force simp: stage_set_def, simp, simp)+ simp
  then have part: "mset [0..<next_to_fetch s] = mset_set (stage_set Fetch s) +
      (mset_set (stage_set Decode s) + (mset_set (stage_set Dispatch s) + (mset_set (stage_set Ready s) +
      (mset_set (stage_set Execute s) + (mset_set (stage_set Retire s) + mset_set (stage_set Done s))))))"
    unfolding all .
  then show ?thesis
    using invs(4,5) q [of Fetch] q [of Decode] q [of Dispatch] q [of Ready] q [of Execute] q [of Retire]
    by (simp add: unit_inv_def cap_inv_def stage_set_def add.assoc)
qed

lemma reachable_resources_witness:
  "\<exists>s. reach default_config chain_workload 1 s \<and>
     length (dispatch_q s) \<le> 16 \<and> memory_in_use s \<le> 1 \<and> compute_in_use s \<le> 2"
proof -
  have left: "has_work_left (initial_state chain_workload)"
    by (simp add: has_work_left_def initial_state_def chain_workload_def)
  obtain t where "cycle_step default_config (initial_state chain_workload) = Inr t"
    by (rule cycle_step_inv [OF initial_inv])
  from reach_cycle [OF reach_start left this]
  have t: "reach default_config chain_workload 1 t" by simp
  show ?thesis using reachable_resources [OF t] t by (auto simp: default_config_def)
qed

text \<open>
  C8. The statistics of a returned run stay within what the configuration allows: the recorded
  high-water marks of the dispatch queue, the ready queue and the execution slots are at most their
  capacities, the busy counters exist for exactly the six stages, none above the number of
  cycles, and the stall counters for exactly the five reasons.
\<close>

theorem run_workload_statistics:
  assumes "run_workload w config = Some (Inr r)"
    and "(\<Sum>i\<leftarrow>w. 7 + unat (execute_latency i)) < 2 ^ 64"
  shows "omap_at (max_queue_occupancy (result_stats r)) ''dispatch_q'' \<le> ucast (dispatch_queue_capacity config) \<and>
    omap_at (max_queue_occupancy (result_stats r)) ''ready_q'' \<le> ucast (ready_queue_capacity config) \<and>
    omap_at (max_queue_occupancy (result_stats r)) ''execute_slots'' \<le>
      ucast (compute_units config) + ucast (memory_ports config) \<and>
    dom (omap_get (stage_busy_cycles (result_stats r))) =
      {''Fetch'', ''Decode'', ''Dispatch'', ''Issue'', ''Execute'', ''Retire''} \<and>
    (\<forall>k. omap_at (stage_busy_cycles (result_stats r)) k \<le> total_cycles (result_stats r)) \<and>
    dom (omap_get (stall_counts (result_stats r))) =
      {''DispatchQueueFull'', ''ReadyQueueFull'', ''WaitingDependency'', ''NoComputeUnit'', ''NoMemoryPort''}"
proof -
  obtain n t where r: "r = finish_run config t" and t: "reach config w n t" "\<not> has_work_left t"
    and n: "n \<le> (\<Sum>i\<leftarrow>w. 7 + unat (execute_latency i))"
    using assms(1) by (auto elim: run_returned)
  have c: "counter_inv config (length w) n t" by (rule reach_counters [OF t(1)])
  have cyc: "unat (sim_cycle t) = n"
    using reach_cycle_count [OF t(1)] n assms(2) by (simp add: unat_of_nat take_bit_nat_eq_self)
  have lt: "unat x < 4294967296" for x :: u32
    using unsigned_less [of x] by simp
  have up: "unat (ucast (x :: u32) :: u64) = unat x" for x
    using lt [of x] by (simp add: unsigned_ucast_eq take_bit_nat_eq_self)
  have add: "unat (ucast (x :: u32) + ucast (y :: u32) :: u64) = unat x + unat y" for x y
    using lt [of x] lt [of y]
    by (simp add: unat_word_ariths up)
  have occ: "unat (omap_at (max_queue_occupancy (sim_stats t)) k) \<le> occ_bound config (length w) k" for k
    using c by (simp add: counter_inv_def occ_inv_def Let_def)
  have busy: "dom (omap_get (stage_busy_cycles (sim_stats t))) = stage_keys"
    "unat (omap_at (stage_busy_cycles (sim_stats t)) k) \<le> unat (sim_cycle t)" for k
    using c cyc by (simp_all add: counter_inv_def busy_inv_def Let_def)
  have stall: "dom (omap_get (stall_counts (sim_stats t))) = stall_keys"
    using c by (simp add: counter_inv_def stall_inv_def Let_def)
  show ?thesis
    using occ [of "''dispatch_q''"] occ [of "''ready_q''"] occ [of "''execute_slots''"] busy stall
    by (simp add: r finish_run_def word_le_nat_alt up add occ_bound_def stage_keys_def stall_keys_def)
qed

lemma run_workload_statistics_witness:
  "\<exists>r. run_workload chain_workload default_config = Some (Inr r) \<and>
     omap_at (max_queue_occupancy (result_stats r)) ''ready_q'' \<le> 16 \<and>
     omap_at (max_queue_occupancy (result_stats r)) ''execute_slots'' \<le> 3"
proof -
  obtain r where r: "run_workload chain_workload default_config = Some (Inr r)" by (rule chain_returns)
  have "(\<Sum>i\<leftarrow>chain_workload. 7 + unat (execute_latency i)) < 2 ^ 64"
    using chain_fuel by (simp add: run_fuel_def)
  from run_workload_statistics [OF r this] r show ?thesis by (auto simp: default_config_def)
qed

text \<open>
  Instructions only move forward: from one cycle of a run to the next, what was fetched stays
  fetched and no instruction returns to an earlier stage.
\<close>

theorem stages_move_forward:
  assumes "reach config w n s" and "cycle_step config s = Inr t"
  shows "next_to_fetch s \<le> next_to_fetch t \<and>
    (\<forall>i < next_to_fetch s. instr_stage (sim_instrs s ! i) \<le> instr_stage (sim_instrs t ! i))"
  using cycle_step_forward [OF reach_inv [OF assms(1)] assms(2)] by (simp add: forward_def)

lemma stages_move_forward_witness:
  "\<exists>t. cycle_step default_config (initial_state chain_workload) = Inr t \<and> 0 \<le> next_to_fetch t"
proof -
  obtain t where t: "cycle_step default_config (initial_state chain_workload) = Inr t"
    by (rule cycle_step_inv [OF initial_inv])
  then show ?thesis using stages_move_forward [OF reach_start t] by simp
qed

text \<open>
  The issue width bounds the speed of a run: \<open>c\<close> cycles complete at most \<open>c\<close> times
  \<open>issue_width\<close> instructions.
\<close>

theorem run_workload_issue_bound:
  assumes "run_workload w config = Some (Inr r)"
    and "(\<Sum>i\<leftarrow>w. 7 + unat (execute_latency i)) < 2 ^ 64"
  shows "length w \<le> unat (total_cycles (result_stats r)) * unat (issue_width config)"
  by (rule run_issue_bound [OF assms])

lemma run_workload_issue_bound_witness:
  "\<exists>r. run_workload chain_workload default_config = Some (Inr r) \<and>
     3 \<le> unat (total_cycles (result_stats r)) * 2"
proof -
  obtain r where r: "run_workload chain_workload default_config = Some (Inr r)" by (rule chain_returns)
  have "(\<Sum>i\<leftarrow>chain_workload. 7 + unat (execute_latency i)) < 2 ^ 64"
    using chain_fuel by (simp add: run_fuel_def)
  from run_workload_issue_bound [OF r this] r show ?thesis
    by (auto simp: default_config_def chain_workload_def)
qed

text \<open>
  The bottleneck that is reported is a stall reason with the largest count, and \<open>None\<close> exactly
  when nothing stalled.
\<close>

theorem top_bottleneck_largest:
  "(if \<exists>p \<in> set (stall_counts st). 0 < snd p
    then \<exists>v. (top_bottleneck st, v) \<in> set (stall_counts st) \<and> 0 < v \<and>
           (\<forall>p \<in> set (stall_counts st). snd p \<le> v)
    else top_bottleneck st = ''None'')"
  using top_bottleneck_scan_max [of "stall_counts st" 0 "''None''"]
    top_bottleneck_scan_zero [of "stall_counts st" 0 "''None''"]
  by (auto simp: top_bottleneck_def not_less)

lemma top_bottleneck_largest_witness:
  "top_bottleneck (empty_stats\<lparr>stall_counts := [(''NoMemoryPort'', 3), (''WaitingDependency'', 5)]\<rparr>) =
     ''WaitingDependency''"
  using top_bottleneck_largest
    [of "empty_stats\<lparr>stall_counts := [(''NoMemoryPort'', 3), (''WaitingDependency'', 5)]\<rparr>"]
  by auto

end
