(* ===== verification/Csv_Rows.thy ===== *)
theory Csv_Rows
  imports Cpp_String
begin

text \<open>
  Files of comma-separated rows. Printing: \<open>join\<close> puts fields into a line, \<open>csv_file\<close> lines into a file, and reading
  them with \<open>std::getline\<close> gives them back. The loaders of the storage and the trajectory program share the shape of
  their loop, the locale \<open>csv_loop\<close>: empty lines are skipped, and so is a first line that starts with \<open>id,\<close>; the locale
  \<open>csv_printed\<close> adds a printer of rows, and its lemmas are what the loop makes of a printed file.
\<close>

section \<open>Lines and fields\<close>

fun join :: "char \<Rightarrow> string list \<Rightarrow> string" where
  "join d [] = []"
| "join d [x] = x"
| "join d (x # y # xs) = x @ d # join d (y # xs)"

lemma join_Nil_iff: "join d xs = [] \<longleftrightarrow> xs = [] \<or> xs = [[]]"
  by (induction d xs rule: join.induct) auto

lemma last_join: "xs \<noteq> [] \<Longrightarrow> last xs \<noteq> [] \<Longrightarrow> last (join d xs) = last (last xs)"
  by (induction d xs rule: join.induct) (auto simp: join_Nil_iff)

lemma set_join: "set (join d xs) \<subseteq> insert d (\<Union> (set (map set xs)))"
  by (induction d xs rule: join.induct) auto

lemma getline_all_join:
  "xs \<noteq> [] \<Longrightarrow> \<forall>x \<in> set xs. d \<notin> set x \<Longrightarrow> last xs \<noteq> [] \<Longrightarrow> getline_all d (join d xs) = xs"
proof (induction d xs rule: join.induct)
  case (1 d)
  then show ?case by simp
next
  case (2 d x)
  then show ?case by (simp add: getline_all_single)
next
  case (3 d x y xs)
  then show ?case by (simp add: getline_all_append)
qed

definition number_chars :: "string \<Rightarrow> bool" where
  "number_chars s \<longleftrightarrow> s \<noteq> [] \<and> (\<forall>c \<in> set s. is_digit c)"

lemma number_to_string [simp]: "number_chars (to_string_u64 x)"
  using dec_string_digits by (simp add: number_chars_def to_string_u64_def)

lemma number_no_comma: "number_chars s \<Longrightarrow> \<not> is_digit c \<Longrightarrow> c \<notin> set s"
  by (auto simp: number_chars_def)

lemma not_digits [simp]:
  "\<not> is_digit (CHR '','')" "\<not> is_digit (CHR ''|'')" "\<not> is_digit (CHR '';'')" "\<not> is_digit (CHR 0x0A)"
  by (simp_all add: is_digit_def)

lemma getline_all_lines:
  "\<forall>l \<in> set ls. d \<notin> set l \<Longrightarrow> getline_all d (concat (map (\<lambda>l. l @ [d]) ls)) = ls"
  by (induction ls) (simp_all add: getline_all_append)

definition csv_file :: "string list \<Rightarrow> string" where
  "csv_file ls = concat (map (\<lambda>l. l @ [CHR 0x0A]) ls)"

lemma csv_file_lines: "\<forall>l \<in> set ls. CHR 0x0A \<notin> set l \<Longrightarrow> getline_all (CHR 0x0A) (csv_file ls) = ls"
  by (simp add: csv_file_def getline_all_lines)

lemma csv_field_join:
  assumes "\<forall>x \<in> set xs. CHR '','' \<notin> set x" and "xs \<noteq> []" and "last xs \<noteq> []"
  shows "csv_field (join (CHR '','') xs) n = (if n < length xs then xs ! n else [])"
  using assms by (simp add: csv_field_def getline_all_join)

lemma csv_line_join:
  assumes "\<forall>x \<in> set xs. CHR 0x0A \<notin> set x" and "xs \<noteq> []" and "last xs \<noteq> []"
  shows "join (CHR '','') xs \<noteq> [] \<and> CHR 0x0A \<notin> set (join (CHR '','') xs)"
  using assms set_join [of "CHR '',''" xs] by (auto simp: join_Nil_iff)

section \<open>The loop of a loader\<close>

locale csv_loop =
  fixes loop :: "bool \<Rightarrow> string list \<Rightarrow> 's \<Rightarrow> 's result"
    and row :: "string \<Rightarrow> 's \<Rightarrow> 's result"
  assumes loop_Nil: "loop b [] s = Inr s"
    and loop_Cons: "loop b (l # ls) s =
      (if l = [] then loop b ls s
       else if b \<and> take 3 l = ''id,'' then loop False ls s
       else bind_result (row l s) (loop False ls))"
begin

lemma loop_header: "take 3 l = ''id,'' \<Longrightarrow> loop True (l # ls) s = loop False ls s"
  by (cases l) (simp_all add: loop_Cons)

lemma loop_append:
  "loop False ls s = Inr t \<Longrightarrow> loop False (ls @ rest) s = loop False rest t"
  by (induction ls arbitrary: s) (auto simp: loop_Nil loop_Cons bind_result_Inr_iff split: if_splits)

text \<open>The first row that is rejected decides.\<close>

lemma loop_error:
  assumes "loop False ls s = Inr t" and "l \<noteq> []" and "row l t = Inl e"
  shows "loop False (ls @ l # rest) s = Inl e"
  using loop_append [OF assms(1)] assms(2,3) by (simp add: loop_Cons)

end

locale csv_printed = csv_loop +
  fixes print :: "'a \<Rightarrow> string"
    and add :: "'a \<Rightarrow> 's \<Rightarrow> 's"
    and ok :: "'a \<Rightarrow> bool"
  assumes row_print: "ok a \<Longrightarrow> row (print a) s = Inr (add a s)"
    and print_line: "ok a \<Longrightarrow> print a \<noteq> [] \<and> CHR 0x0A \<notin> set (print a)"
begin

lemma loop_printed: "\<forall>a \<in> set as. ok a \<Longrightarrow> loop False (map print as) s = Inr (fold add as s)"
  by (induction as arbitrary: s) (simp_all add: loop_Nil loop_Cons row_print print_line)

lemma read_printed:
  assumes "\<forall>a \<in> set as. ok a" and "take 3 header = ''id,''" and "CHR 0x0A \<notin> set header"
  shows "loop True (getline_all (CHR 0x0A) (csv_file (header # map print as))) s = Inr (fold add as s)"
proof -
  have "\<forall>l \<in> set (header # map print as). CHR 0x0A \<notin> set l" using assms print_line by auto
  then show ?thesis using csv_file_lines loop_header [OF assms(2)] loop_printed [OF assms(1)] by simp
qed

lemma read_error:
  assumes "\<forall>a \<in> set as. ok a" and "take 3 header = ''id,''" and "\<forall>l \<in> set (header # bad # rest). CHR 0x0A \<notin> set l"
    and "bad \<noteq> []" and "row bad (fold add as s) = Inl e"
  shows "loop True (getline_all (CHR 0x0A) (csv_file (header # map print as @ bad # rest))) s = Inl e"
proof -
  have "\<forall>l \<in> set (header # map print as @ bad # rest). CHR 0x0A \<notin> set l" using assms(1,3) print_line by auto
  then show ?thesis
    using csv_file_lines loop_header [OF assms(2)] loop_error [OF loop_printed [OF assms(1)] assms(4,5)] by simp
qed

end

end
