(* ===== verification/Workload_Parser.thy ===== *)
theory Workload_Parser
  imports Instruction_Model Csv_Rows
begin

text \<open>
  The workload loader, \<open>src/workload_runner.cpp\<close>: \<open>split\<close>, \<open>trim\<close>, \<open>workload_name_from_path\<close> and
  \<open>load_workload_csv\<close>, the latter over the contents of the file. Every \<open>throw\<close> of the code and of
  the number conversions it calls is an \<open>Inl\<close>. \<open>workload_csv\<close> prints a workload in the format
  of the loader, and the last lemmas show what loading a printed workload gives.
\<close>

section \<open>Fields and lines\<close>

definition split :: "string \<Rightarrow> char \<Rightarrow> string list" where
  "split input delimiter =
     getline_all delimiter input @ (if input \<noteq> [] \<and> last input = delimiter then [[]] else [])"

definition blanks :: "char set" where
  "blanks = {CHR 0x20, CHR 0x09, CHR 0x0D, CHR 0x0A}"

definition trim :: "string \<Rightarrow> string" where
  "trim value =
     (case find_first_not_of blanks value of
        None \<Rightarrow> []
      | Some first \<Rightarrow>
          (case find_last_not_of blanks value of
             None \<Rightarrow> []
           | Some last_pos \<Rightarrow> substr value first (last_pos - first + 1)))"

text \<open>
  \<open>std::filesystem::path(path).stem()\<close>: the part of the last path component before its last dot,
  unless that dot is its first character or the component is \<open>..\<close>.
\<close>

definition workload_name_from_path :: "string \<Rightarrow> string" where
  "workload_name_from_path path =
     (let file = rev (takeWhile (\<lambda>c. c \<noteq> CHR ''/'') (rev path));
          ext = takeWhile (\<lambda>c. c \<noteq> CHR ''.'') (rev file);
          base = take (length file - length ext - 1) file
      in if file = ''..'' \<or> CHR ''.'' \<notin> set file \<or> base = [] then file else base)"

section \<open>One line of the file\<close>

fun push_deps :: "string list \<Rightarrow> u64 list \<Rightarrow> u64 list result" where
  "push_deps [] ds = Inr ds"
| "push_deps (token # rest) ds =
     (let dep = trim token in
      if dep \<noteq> [] \<and> dep \<noteq> ''0''
      then bind_result (stoull dep) (\<lambda>d. push_deps rest (ds @ [d]))
      else push_deps rest ds)"

definition parse_deps :: "string \<Rightarrow> u64 list result" where
  "parse_deps deps_raw =
     (if deps_raw \<noteq> [] \<and> deps_raw \<noteq> ''0'' then
        (let sep = (if CHR ''|'' \<in> set deps_raw then CHR ''|'' else CHR '';'')
         in push_deps (split deps_raw sep) [])
      else Inr [])"

definition parse_line :: "u64 set \<Rightarrow> string \<Rightarrow> instruction result" where
  "parse_line ids line =
     (let cols = split line (CHR '','') in
      if length cols < 4
      then Inl (Runtime_error (''expected at least 4 columns in line: '' @ line))
      else bind_result (stoull (trim (cols ! 0))) (\<lambda>id.
        if id \<in> ids then Inl (Runtime_error (''duplicate instruction id: '' @ to_string_u64 id))
        else bind_result (parse_op_type (trim (cols ! 1))) (\<lambda>op.
        bind_result (stoul (trim (cols ! 2))) (\<lambda>latency.
        let execute_latency = (ucast latency :: u32);
            execute_latency = (if execute_latency = 0 then 1 else execute_latency)
        in bind_result (stoul (trim (cols ! 3))) (\<lambda>bytes.
        bind_result (parse_deps (if 5 \<le> length cols then trim (cols ! 4) else [])) (\<lambda>deps.
        Inr (new_instruction\<lparr>instr_id := id, instr_type := op,
               execute_latency := execute_latency, memory_bytes := ucast bytes,
               deps := deps\<rparr>)))))))"

section \<open>The file\<close>

fun load_lines ::
  "bool \<Rightarrow> u64 set \<Rightarrow> instruction list \<Rightarrow> string list \<Rightarrow> (instruction list \<times> u64 set) result" where
  "load_lines first_line ids instructions [] = Inr (instructions, ids)"
| "load_lines first_line ids instructions (line0 # rest) =
     (let line = trim line0 in
      if line = [] then load_lines first_line ids instructions rest
      else if first_line \<and> take 3 line = ''id,'' then load_lines False ids instructions rest
      else bind_result (parse_line ids line) (\<lambda>instruction.
             load_lines False (insert (instr_id instruction) ids) (instructions @ [instruction]) rest))"

fun check_dep_ids :: "u64 list \<Rightarrow> u64 set \<Rightarrow> unit result" where
  "check_dep_ids [] ids = Inr ()"
| "check_dep_ids (dep # rest) ids =
     (if dep \<notin> ids then Inl (Runtime_error (''missing dependency id: '' @ to_string_u64 dep))
      else check_dep_ids rest ids)"

fun check_deps :: "instruction list \<Rightarrow> u64 set \<Rightarrow> unit result" where
  "check_deps [] ids = Inr ()"
| "check_deps (instruction # rest) ids =
     bind_result (check_dep_ids (deps instruction) ids) (\<lambda>_. check_deps rest ids)"

text \<open>
  \<open>load_workload_csv path contents config\<close>: \<open>contents\<close> is what reading the file gives, \<open>None\<close> when it
  cannot be opened; \<open>config\<close> is \<open>None\<close> for a null pointer, and the returned one is what it points to
  afterwards, also when the call throws.
\<close>

definition load_workload_csv ::
  "string \<Rightarrow> string option \<Rightarrow> simulator_config option \<Rightarrow>
     simulator_config option \<times> instruction list result" where
  "load_workload_csv path contents config =
     (case contents of
        None \<Rightarrow> (config, Inl (Runtime_error (''failed to open workload: '' @ path)))
      | Some text \<Rightarrow>
          (map_option (\<lambda>c. c\<lparr>workload_name := workload_name_from_path path\<rparr>) config,
           bind_result (load_lines True {} [] (getline_all (CHR 0x0A) text)) (\<lambda>(instructions, ids).
             bind_result (check_deps instructions ids) (\<lambda>_. Inr instructions))))"

section \<open>What a loaded workload satisfies\<close>

definition loaded_instruction :: "instruction \<Rightarrow> bool" where
  "loaded_instruction i \<longleftrightarrow> execute_latency i \<noteq> 0 \<and> instr_stage i = Fetch \<and>
     enqueue_cycle i = 0 \<and> issue_cycle i = 0 \<and> complete_cycle i = 0"

lemma parse_line_result:
  assumes "parse_line ids line = Inr i"
  shows "instr_id i \<notin> ids" and "loaded_instruction i"
  using assms
  by (auto simp: parse_line_def Let_def bind_result_Inr_iff loaded_instruction_def new_instruction_def
      split: if_splits)

lemma load_lines_result:
  assumes "load_lines first ids ins lines = Inr (w, ids')"
    and "distinct (map instr_id ins)" and "ids = set (map instr_id ins)"
    and "\<forall>i \<in> set ins. loaded_instruction i"
  shows "distinct (map instr_id w) \<and> ids' = set (map instr_id w) \<and> (\<forall>i \<in> set w. loaded_instruction i)"
  using assms
proof (induction first ids ins lines rule: load_lines.induct)
  case (1 first ids ins)
  then show ?case by auto
next
  case (2 first ids ins line0 rest)
  show ?case
  proof (cases "trim line0 = []")
    case True
    then show ?thesis using 2 by simp
  next
    case False
    show ?thesis
    proof (cases "first \<and> take 3 (trim line0) = ''id,''")
      case True
      then show ?thesis using 2 False by simp
    next
      case hd: False
      then obtain i where i: "parse_line ids (trim line0) = Inr i"
        "load_lines False (insert (instr_id i) ids) (ins @ [i]) rest = Inr (w, ids')"
        using 2(4) False by (auto simp: Let_def bind_result_Inr_iff)
      from "2.IH"(3) [OF refl False hd i] show ?thesis
        using 2(5-7) parse_line_result [OF i(1)] by auto
    qed
  qed
qed

lemma check_dep_ids_iff: "check_dep_ids ds ids = Inr () \<longleftrightarrow> set ds \<subseteq> ids"
  by (induction ds) auto

lemma check_deps_iff: "check_deps w ids = Inr () \<longleftrightarrow> (\<forall>i \<in> set w. set (deps i) \<subseteq> ids)"
  by (induction w) (auto simp: bind_result_Inr_iff check_dep_ids_iff)

lemma check_deps_missing:
  "check_deps w ids = Inl e \<Longrightarrow>
     \<exists>i \<in> set w. \<exists>d \<in> set (deps i). d \<notin> ids \<and> e = Runtime_error (''missing dependency id: '' @ to_string_u64 d)"
proof (induction w)
  case (Cons i w)
  have "check_dep_ids ds ids = Inl e \<Longrightarrow>
      \<exists>d \<in> set ds. d \<notin> ids \<and> e = Runtime_error (''missing dependency id: '' @ to_string_u64 d)" for ds
    by (induction ds) (auto split: if_splits)
  then show ?case using Cons by (fastforce simp: bind_result_Inl_iff)
qed simp

lemma load_result:
  assumes "load_workload_csv path contents config = (config', Inr w)"
  shows "distinct (map instr_id w)" and "\<forall>i \<in> set w. loaded_instruction i"
    and "\<forall>i \<in> set w. set (deps i) \<subseteq> set (map instr_id w)"
    and "config' = map_option (\<lambda>c. c\<lparr>workload_name := workload_name_from_path path\<rparr>) config"
proof -
  obtain content ids where content: "contents = Some content"
    "load_lines True {} [] (getline_all (CHR 0x0A) content) = Inr (w, ids)" "check_deps w ids = Inr ()"
    "config' = map_option (\<lambda>c. c\<lparr>workload_name := workload_name_from_path path\<rparr>) config"
    using assms by (auto simp: load_workload_csv_def bind_result_Inr_iff split: option.splits)
  then show "distinct (map instr_id w)" "\<forall>i \<in> set w. loaded_instruction i"
    "\<forall>i \<in> set w. set (deps i) \<subseteq> set (map instr_id w)"
    "config' = map_option (\<lambda>c. c\<lparr>workload_name := workload_name_from_path path\<rparr>) config"
    using load_lines_result [OF content(2)] check_deps_iff [of w ids] by simp_all
qed

section \<open>Printing a workload\<close>

lemma split_join:
  assumes "xs \<noteq> []" and "\<forall>x \<in> set xs. d \<notin> set x" and "last xs \<noteq> []"
  shows "split (join d xs) d = xs"
proof -
  have "last (join d xs) \<noteq> d"
    using last_join [OF assms(1,3), of d] assms by (metis last_in_set)
  then show ?thesis using getline_all_join assms by (simp add: split_def)
qed

lemma trim_tight:
  assumes "v \<noteq> []" and "hd v \<notin> blanks" and "last v \<notin> blanks"
  shows "trim v = v"
proof -
  have f: "find_first_not_of blanks v = Some 0"
    using assms(1,2) by (cases v) (auto simp: find_first_not_of_def)
  have "takeWhile (\<lambda>c. c \<in> blanks) (rev v) = []"
    using assms(1,3) by (cases v rule: rev_cases) auto
  then have l: "find_last_not_of blanks v = Some (length v - 1)"
    using assms(1) by (simp add: find_last_not_of_def)
  show ?thesis using assms(1) by (simp add: trim_def f l substr_def)
qed

lemma digit_not_blank: "is_digit c \<Longrightarrow> c \<notin> blanks"
  by (auto simp: is_digit_def blanks_def Let_def)

lemma trim_number [simp]: "number_chars s \<Longrightarrow> trim s = s"
  using digit_not_blank by (intro trim_tight) (auto simp: number_chars_def)

lemma trim_op [simp]: "trim (op_to_string op) = op_to_string op"
  by (rule trim_tight) (cases op; simp add: op_to_string_def blanks_def)+

definition deps_field :: "u64 list \<Rightarrow> string" where
  "deps_field ds = (if ds = [] then ''0'' else join (CHR ''|'') (map to_string_u64 ds))"

definition csv_fields :: "u64 \<Rightarrow> op_type \<Rightarrow> u64 \<Rightarrow> u64 \<Rightarrow> u64 list \<Rightarrow> string" where
  "csv_fields a op latency bytes ds = join (CHR '','')
     [to_string_u64 a, op_to_string op, to_string_u64 latency, to_string_u64 bytes, deps_field ds]"

definition csv_line :: "instruction \<Rightarrow> string" where
  "csv_line i = csv_fields (instr_id i) (instr_type i) (ucast (execute_latency i))
     (ucast (memory_bytes i)) (deps i)"

definition workload_csv :: "instruction list \<Rightarrow> string" where
  "workload_csv w = concat (map (\<lambda>l. l @ [CHR 0x0A])
     (''id,op_type,execute_latency,memory_bytes,deps'' # map csv_line w))"

lemma to_string_inject: "to_string_u64 a = to_string_u64 b \<Longrightarrow> a = b"
  by (metis Inr_inject sto_u64_to_string)

lemma to_string_zero: "to_string_u64 0 = ''0''"
  by (simp add: to_string_u64_def dec_string.simps [of 0]) code_simp

lemma push_deps_strings:
  "0 \<notin> set ds \<Longrightarrow> push_deps (map to_string_u64 ds) acc = Inr (acc @ ds)"
proof (induction ds arbitrary: acc)
  case (Cons x ds)
  have "to_string_u64 x \<noteq> ''0''"
    using Cons.prems to_string_inject [of x 0] by (auto simp: to_string_zero)
  moreover have "to_string_u64 x \<noteq> []" by (simp add: to_string_u64_def)
  ultimately show ?case using Cons by (simp add: stoull_def)
qed simp

lemma deps_field_chars: "c \<in> set (deps_field ds) \<Longrightarrow> is_digit c \<or> c = CHR ''|''"
proof -
  assume c: "c \<in> set (deps_field ds)"
  show ?thesis
  proof (cases "ds = []")
    case True
    then show ?thesis using c by (simp add: deps_field_def is_digit_def)
  next
    case False
    then have "c \<in> insert (CHR ''|'') (\<Union> (set (map set (map to_string_u64 ds))))"
      using c False subsetD [OF set_join, of c "CHR ''|''" "map to_string_u64 ds"]
      by (simp add: deps_field_def)
    then show ?thesis using number_to_string by (auto simp: number_chars_def)
  qed
qed

lemma deps_field_ends:
  "deps_field ds \<noteq> [] \<and> is_digit (hd (deps_field ds)) \<and> is_digit (last (deps_field ds))"
proof (cases ds)
  case Nil
  then show ?thesis by (simp add: deps_field_def is_digit_def)
next
  case (Cons x xs)
  have ne: "to_string_u64 y \<noteq> []" "is_digit (hd (to_string_u64 y))" "is_digit (last (to_string_u64 y))" for y
    using number_to_string [of y] by (simp_all add: number_chars_def)
  have "hd (join (CHR ''|'') (map to_string_u64 ds)) = hd (to_string_u64 x)"
    using ne Cons by (cases xs) simp_all
  moreover have "last (map to_string_u64 ds) = to_string_u64 (last ds)" using Cons by (simp add: last_map)
  moreover have "join (CHR ''|'') (map to_string_u64 ds) \<noteq> []"
    using Cons ne by (auto simp: join_Nil_iff)
  ultimately show ?thesis
    using Cons ne last_join [of "map to_string_u64 ds" "CHR ''|''"] by (simp add: deps_field_def)
qed

lemma trim_deps_field [simp]: "trim (deps_field ds) = deps_field ds"
  using deps_field_ends [of ds] digit_not_blank by (intro trim_tight) auto

lemma parse_deps_field:
  assumes "0 \<notin> set ds"
  shows "parse_deps (deps_field ds) = Inr ds"
proof (cases "ds = []")
  case True
  then show ?thesis by (simp add: parse_deps_def deps_field_def)
next
  case False
  let ?f = "deps_field ds"
  have bar: "\<forall>x \<in> set (map to_string_u64 ds). CHR ''|'' \<notin> set x"
    using number_no_comma [OF number_to_string not_digits(2)] by simp
  have last: "last (map to_string_u64 ds) \<noteq> []"
    using False number_to_string by (simp add: last_map number_chars_def)
  have sp: "split ?f (CHR ''|'') = map to_string_u64 ds"
    using split_join [OF _ bar last] False by (simp add: deps_field_def)
  have one: "split ?f (if CHR ''|'' \<in> set ?f then CHR ''|'' else CHR '';'') = map to_string_u64 ds"
  proof (cases "CHR ''|'' \<in> set ?f")
    case True
    then show ?thesis using sp by simp
  next
    case nb: False
    then have l: "ds = [hd ds]"
      using False by (cases ds; cases "tl ds") (auto simp: deps_field_def)
    have f: "?f = to_string_u64 (hd ds)" by (subst l) (simp add: deps_field_def)
    have "split (join (CHR '';'') [to_string_u64 (hd ds)]) (CHR '';'') = [to_string_u64 (hd ds)]"
      using number_no_comma [OF number_to_string not_digits(3)] number_to_string [of "hd ds"]
      by (intro split_join) (auto simp: number_chars_def)
    then have "split ?f (CHR '';'') = [to_string_u64 (hd ds)]" using f by simp
    moreover have "map to_string_u64 ds = [to_string_u64 (hd ds)]" by (subst l) simp
    ultimately show ?thesis using nb by simp
  qed
  have "?f \<noteq> ''0''"
  proof
    assume z: "?f = ''0''"
    then have "split ?f (CHR ''|'') = [''0'']"
      by (simp add: split_def getline_all_single)
    then have "map to_string_u64 ds = [to_string_u64 0]" using sp to_string_zero by simp
    then show False using assms to_string_inject by auto
  qed
  then show ?thesis
    using deps_field_ends [of ds] push_deps_strings [OF assms, of "[]"] one
    by (simp add: parse_deps_def Let_def)
qed

lemma split_csv_fields:
  "split (csv_fields a op l b ds) (CHR '','') =
     [to_string_u64 a, op_to_string op, to_string_u64 l, to_string_u64 b, deps_field ds]"
  unfolding csv_fields_def
proof (rule split_join)
  have "CHR '','' \<notin> set (op_to_string op)"
    by (cases op) (simp_all add: op_to_string_def)
  moreover have "CHR '','' \<notin> set (deps_field ds)"
    using deps_field_chars [of "CHR '',''" ds] by auto
  ultimately show "\<forall>x \<in> set [to_string_u64 a, op_to_string op, to_string_u64 l, to_string_u64 b,
      deps_field ds]. CHR '','' \<notin> set x"
    using number_no_comma [OF number_to_string not_digits(1)] by simp
qed (use deps_field_ends in auto)

lemma csv_fields_ends:
  "csv_fields a op l b ds \<noteq> [] \<and> is_digit (hd (csv_fields a op l b ds)) \<and>
   is_digit (last (csv_fields a op l b ds))"
proof -
  have h: "to_string_u64 a \<noteq> []" "is_digit (hd (to_string_u64 a))"
    using number_to_string [of a] by (simp_all add: number_chars_def)
  then have "hd (csv_fields a op l b ds) = hd (to_string_u64 a)" "csv_fields a op l b ds \<noteq> []"
    by (simp_all add: csv_fields_def)
  moreover have "last (csv_fields a op l b ds) = last (deps_field ds)"
    unfolding csv_fields_def by (subst last_join) (use deps_field_ends in auto)
  ultimately show ?thesis using deps_field_ends h by simp
qed

lemma trim_csv_fields [simp]: "trim (csv_fields a op l b ds) = csv_fields a op l b ds"
  using csv_fields_ends [of a op l b ds] digit_not_blank by (intro trim_tight) auto

lemma csv_line_ends: "csv_line i \<noteq> []"
  using csv_fields_ends by (simp add: csv_line_def)

text \<open>What the fields of a line become: latency and size keep their low 32 bits, and a zero latency
  becomes one.\<close>

definition csv_loaded :: "u64 \<Rightarrow> op_type \<Rightarrow> u64 \<Rightarrow> u64 \<Rightarrow> u64 list \<Rightarrow> instruction" where
  "csv_loaded a op latency bytes ds =
     new_instruction\<lparr>instr_id := a, instr_type := op,
       execute_latency := (if (ucast latency :: u32) = 0 then 1 else ucast latency),
       memory_bytes := ucast bytes, deps := ds\<rparr>"

lemma parse_csv_fields:
  assumes "0 \<notin> set ds"
  shows "parse_line ids (csv_fields a op latency bytes ds) =
    (if a \<in> ids then Inl (Runtime_error (''duplicate instruction id: '' @ to_string_u64 a))
     else Inr (csv_loaded a op latency bytes ds))"
  unfolding parse_line_def split_csv_fields Let_def csv_loaded_def
  using parse_deps_field [OF assms] by (simp add: stoull_def stoul_def)

lemma trim_csv_line [simp]: "trim (csv_line i) = csv_line i"
  by (simp add: csv_line_def)

text \<open>An instruction that a line of the file can describe.\<close>

definition csv_instruction :: "instruction \<Rightarrow> bool" where
  "csv_instruction i \<longleftrightarrow> loaded_instruction i \<and> 0 \<notin> set (deps i)"

lemma ucast_down_up: "(ucast (ucast (x :: u32) :: u64) :: u32) = x"
  by (rule ucast_up_ucast_id) (simp add: is_up)

lemma parse_csv_line:
  assumes "csv_instruction i"
  shows "parse_line ids (csv_line i) =
    (if instr_id i \<in> ids
     then Inl (Runtime_error (''duplicate instruction id: '' @ to_string_u64 (instr_id i)))
     else Inr i)"
proof -
  have "csv_loaded (instr_id i) (instr_type i) (ucast (execute_latency i)) (ucast (memory_bytes i))
      (deps i) = i"
    using assms by (simp add: csv_loaded_def csv_instruction_def loaded_instruction_def
        new_instruction_def ucast_down_up)
  then show ?thesis
    using assms parse_csv_fields by (simp add: csv_line_def csv_instruction_def)
qed

lemma load_csv_lines:
  "\<forall>i \<in> set w. csv_instruction i \<Longrightarrow> distinct (map instr_id w) \<Longrightarrow>
   ids \<inter> set (map instr_id w) = {} \<Longrightarrow>
   load_lines False ids ins (map csv_line w) = Inr (ins @ w, ids \<union> set (map instr_id w))"
proof (induction w arbitrary: ids ins)
  case Nil
  then show ?case by simp
next
  case (Cons i w)
  have "parse_line ids (csv_line i) = Inr i" using Cons.prems parse_csv_line [of i ids] by simp
  moreover have "load_lines False (insert (instr_id i) ids) (ins @ [i]) (map csv_line w) =
      Inr ((ins @ [i]) @ w, insert (instr_id i) ids \<union> set (map instr_id w))"
    using Cons.prems by (intro Cons.IH) auto
  ultimately show ?case using csv_line_ends [of i] by simp
qed

lemma newline_not_in_csv: "CHR 0x0A \<notin> set (csv_line i)"
proof
  assume "CHR 0x0A \<in> set (csv_line i)"
  moreover have "set (csv_line i) \<subseteq> insert (CHR '','') (\<Union> (set (map set
      [to_string_u64 (instr_id i), op_to_string (instr_type i),
      to_string_u64 (ucast (execute_latency i)), to_string_u64 (ucast (memory_bytes i)),
      deps_field (deps i)])))"
    unfolding csv_line_def csv_fields_def by (rule set_join)
  moreover have "CHR 0x0A \<notin> set (op_to_string (instr_type i))"
    by (cases "instr_type i") (simp_all add: op_to_string_def)
  moreover have "CHR 0x0A \<notin> set (deps_field (deps i))"
    using deps_field_chars [of "CHR 0x0A" "deps i"] by auto
  ultimately show False
    using number_no_comma [OF number_to_string not_digits(4)] by auto
qed

lemma load_lines_append:
  "load_lines False ids ins (map csv_line w) = Inr (ins', ids') \<Longrightarrow>
   load_lines False ids ins (map csv_line w @ rest) = load_lines False ids' ins' rest"
  by (induction w arbitrary: ids ins) (auto simp: Let_def bind_result_Inr_iff csv_line_ends)

lemma load_header:
  "load_lines True {} [] (getline_all (CHR 0x0A) (workload_csv w)) =
   load_lines False {} [] (map csv_line w)"
proof -
  let ?h = "''id,op_type,execute_latency,memory_bytes,deps''"
  have lines: "getline_all (CHR 0x0A) (workload_csv w) = ?h # map csv_line w"
    unfolding workload_csv_def using newline_not_in_csv by (intro getline_all_lines) auto
  have "trim ?h = ?h" by (rule trim_tight) (simp_all add: blanks_def)
  then show ?thesis using lines by simp
qed

lemma load_workload_csv_text:
  assumes "\<forall>i \<in> set w. csv_instruction i" and "distinct (map instr_id w)"
  shows "load_workload_csv path (Some (workload_csv w)) config =
    (map_option (\<lambda>c. c\<lparr>workload_name := workload_name_from_path path\<rparr>) config,
     bind_result (check_deps w (set (map instr_id w))) (\<lambda>_. Inr w))"
proof -
  have "load_lines False {} [] (map csv_line w) = Inr (w, set (map instr_id w))"
    using load_csv_lines [OF assms, of "{}" "[]"] by simp
  then show ?thesis by (simp add: load_workload_csv_def load_header)
qed

lemma load_workload_csv_duplicate:
  assumes "\<forall>i \<in> set (w @ [i]). csv_instruction i" and "distinct (map instr_id w)"
    and "instr_id i \<in> set (map instr_id w)"
  shows "snd (load_workload_csv path (Some (workload_csv (w @ i # rest))) config) =
    Inl (Runtime_error (''duplicate instruction id: '' @ to_string_u64 (instr_id i)))"
proof -
  have "load_lines False {} [] (map csv_line w) = Inr (w, set (map instr_id w))"
    using load_csv_lines [of w "{}" "[]"] assms(1,2) by simp
  from load_lines_append [OF this, of "csv_line i # map csv_line rest"]
  have "load_lines False {} [] (map csv_line (w @ i # rest)) =
      Inl (Runtime_error (''duplicate instruction id: '' @ to_string_u64 (instr_id i)))"
    using parse_csv_line [of i] assms(1,3) csv_line_ends [of i] by simp
  then show ?thesis by (simp add: load_workload_csv_def load_header)
qed
end
