(* ===== verification/Workload_Properties.thy ===== *)
theory Workload_Properties
  imports Simulator_Properties Workload_Parser
begin

text \<open>
  The properties of the workload loader, and of loading a workload and then running it.
\<close>

section \<open>Loading\<close>

text \<open>
  C9. What the loader accepts is well formed: the ids are distinct, every dependency is the id of an
  instruction of the file, every latency is at least one cycle, every instruction is fresh, and the
  configuration is named after the file.
\<close>

theorem load_workload_csv_wellformed:
  assumes "load_workload_csv path contents config = (config', Inr w)"
  shows "distinct (map instr_id w) \<and>
    (\<forall>i \<in> set w. set (deps i) \<subseteq> instr_id ` set w \<and> execute_latency i \<noteq> 0 \<and>
       instr_stage i = Fetch \<and> enqueue_cycle i = 0 \<and> issue_cycle i = 0 \<and> complete_cycle i = 0) \<and>
    config' = map_option (\<lambda>c. c\<lparr>workload_name := workload_name_from_path path\<rparr>) config"
  using load_result [OF assms] by (simp add: loaded_instruction_def)

lemma chain_csv: "\<forall>i \<in> set chain_workload. csv_instruction i" "distinct (map instr_id chain_workload)"
  "check_deps chain_workload (set (map instr_id chain_workload)) = Inr ()"
  by (simp_all add: chain_workload_def csv_instruction_def loaded_instruction_def new_instruction_def
      check_deps_iff)

lemma load_workload_csv_wellformed_witness:
  "distinct (map instr_id chain_workload) \<and>
   snd (load_workload_csv ''chain.csv'' (Some (workload_csv chain_workload)) None) = Inr chain_workload"
proof -
  have l: "load_workload_csv ''chain.csv'' (Some (workload_csv chain_workload)) None =
      (None, Inr chain_workload)"
    using load_workload_csv_text [OF chain_csv(1,2)] chain_csv(3) by simp
  from load_workload_csv_wellformed [OF l] l show ?thesis by simp
qed

text \<open>
  C10. Round trip: a workload of fresh instructions with distinct ids, nonzero dependencies and
  latencies of at least one, printed in the format of the file, loads as itself, unless a dependency
  is missing; then the loader names one that is.
\<close>

theorem load_printed_workload:
  assumes "\<forall>i \<in> set w. csv_instruction i" and "distinct (map instr_id w)"
  shows "(if \<forall>i \<in> set w. set (deps i) \<subseteq> instr_id ` set w
    then snd (load_workload_csv path (Some (workload_csv w)) config) = Inr w
    else \<exists>i \<in> set w. \<exists>d \<in> set (deps i). d \<notin> instr_id ` set w \<and>
      snd (load_workload_csv path (Some (workload_csv w)) config) =
        Inl (Runtime_error (''missing dependency id: '' @ to_string_u64 d)))"
proof (cases "check_deps w (set (map instr_id w))")
  case (Inl e)
  then show ?thesis
    using load_workload_csv_text [OF assms] check_deps_missing [OF Inl] check_deps_iff [of w "set (map instr_id w)"]
    by auto
next
  case (Inr u)
  then show ?thesis
    using load_workload_csv_text [OF assms] check_deps_iff [of w "set (map instr_id w)"] by auto
qed

lemma load_printed_workload_witness:
  "snd (load_workload_csv ''chain.csv'' (Some (workload_csv chain_workload)) None) = Inr chain_workload"
  using load_printed_workload [OF chain_csv(1,2), of "''chain.csv''" None]
  by (simp add: chain_workload_def new_instruction_def)

text \<open>
  A duplicate id is rejected: the first printed line whose id an earlier line has makes the
  loader throw, naming the id, whatever follows.
\<close>

theorem load_rejects_duplicate:
  assumes "\<forall>i \<in> set (w @ [i]). csv_instruction i" and "distinct (map instr_id w)"
    and "instr_id i \<in> instr_id ` set w"
  shows "snd (load_workload_csv path (Some (workload_csv (w @ i # rest))) config) =
    Inl (Runtime_error (''duplicate instruction id: '' @ to_string_u64 (instr_id i)))"
  using load_workload_csv_duplicate [OF assms(1,2)] assms(3) by simp

lemma load_rejects_duplicate_witness:
  "snd (load_workload_csv ''x.csv'' (Some (workload_csv [new_instruction, new_instruction])) None) =
   Inl (Runtime_error ''duplicate instruction id: 0'')"
  using load_rejects_duplicate [of "[new_instruction]" new_instruction "''x.csv''" "[]" None]
  by (simp add: csv_instruction_def loaded_instruction_def new_instruction_def to_string_zero)

text \<open>
  The latency and size columns are read as 64-bit numbers and silently lose their upper 32
  bits; a latency whose low 32 bits are zero becomes one. So a line with latency $2^{32}$ loads as
  a single-cycle instruction.
\<close>

theorem parse_line_truncates:
  assumes "0 \<notin> set ds" and "a \<notin> ids"
  shows "\<exists>i. parse_line ids (csv_fields a op latency bytes ds) = Inr i \<and>
    unat (execute_latency i) =
      (if unat latency mod 2 ^ 32 = 0 then 1 else unat latency mod 2 ^ 32) \<and>
    unat (memory_bytes i) = unat bytes mod 2 ^ 32 \<and>
    instr_id i = a \<and> instr_type i = op \<and> deps i = ds"
proof -
  have low: "unat (ucast x :: u32) = unat x mod 2 ^ 32" for x :: u64
    by (simp add: unsigned_ucast_eq take_bit_eq_mod)
  have "(ucast latency :: u32) = 0 \<longleftrightarrow> unat latency mod 2 ^ 32 = 0"
    using low [of latency] by (metis unat_eq_zero unsigned_0)
  then show ?thesis
    using assms parse_csv_fields [of ds ids a op latency bytes] low
    by (simp add: csv_loaded_def)
qed

lemma parse_line_truncates_witness:
  "\<exists>i. parse_line {} (csv_fields 7 Compute 4294967296 0 []) = Inr i \<and> unat (execute_latency i) = 1"
  using parse_line_truncates [of "[]" 7 "{}" Compute 4294967296 0] by auto

section \<open>Loading and running\<close>

lemma loaded_run_cycle:
  assumes "load_workload_csv path contents (Some config0) = (Some config, Inr w)"
    and "units_for config w" and "widths_positive config" and "queues_positive config"
    and "length w \<le> unat (dispatch_queue_capacity config)"
  shows "run_workload w config = None \<longleftrightarrow>
    (\<exists>S. S \<noteq> {} \<and> S \<subseteq> {..<length w} \<and>
       (\<forall>i \<in> S. \<exists>j \<in> S. instr_id (w ! j) \<in> set (deps (w ! i))))"
proof -
  note load = load_result [OF assms(1)]
  have inj: "j = k" if "instr_id (w ! j) = instr_id (w ! k)" "j < length w" "k < length w" for j k
    using load(1) that by (auto simp: distinct_conv_nth)
  have known: "\<exists>j < length w. instr_id (w ! j) = x" if "i < length w" "x \<in> set (deps (w ! i))" for i x
  proof -
    have "x \<in> set (map instr_id w)" using load(3) that nth_mem by blast
    then show ?thesis by (auto simp: in_set_conv_nth)
  qed
  have one: "(\<exists>x \<in> set (deps (w ! i)). \<forall>j < length w. instr_id (w ! j) = x \<longrightarrow> j \<in> S) \<longleftrightarrow>
      (\<exists>j \<in> S. instr_id (w ! j) \<in> set (deps (w ! i)))"
    if i: "i < length w" and S: "S \<subseteq> {..<length w}" for i S
  proof
    assume "\<exists>x \<in> set (deps (w ! i)). \<forall>j < length w. instr_id (w ! j) = x \<longrightarrow> j \<in> S"
    then show "\<exists>j \<in> S. instr_id (w ! j) \<in> set (deps (w ! i))" using known [OF i] by blast
  next
    assume "\<exists>j \<in> S. instr_id (w ! j) \<in> set (deps (w ! i))"
    then obtain j where j: "j \<in> S" "instr_id (w ! j) \<in> set (deps (w ! i))" by blast
    have "k \<in> S" if "k < length w" "instr_id (w ! k) = instr_id (w ! j)" for k
      using inj [of k j] that j(1) S by auto
    then show "\<exists>x \<in> set (deps (w ! i)). \<forall>j < length w. instr_id (w ! j) = x \<longrightarrow> j \<in> S"
      using j(2) by blast
  qed
  have eq: "waits_for_itself w S \<longleftrightarrow> S \<noteq> {} \<and> S \<subseteq> {..<length w} \<and>
      (\<forall>i \<in> S. \<exists>j \<in> S. instr_id (w ! j) \<in> set (deps (w ! i)))" for S
  proof (cases "S \<subseteq> {..<length w}")
    case True
    have lt: "i < length w" if "i \<in> S" for i using True that by blast
    show ?thesis unfolding waits_for_itself_def using True lt one [OF lt True] by blast
  next
    case False
    then show ?thesis unfolding waits_for_itself_def by blast
  qed
  have "run_workload w config = None \<longleftrightarrow> (\<exists>S. waits_for_itself w S)"
  proof
    assume "run_workload w config = None"
    then obtain n t where t: "reach config w n t" "has_work_left t" "stuck config t"
      by (rule run_hangs)
    show "\<exists>S. waits_for_itself w S"
      using stuck_waits [OF reach_inv [OF t(1)] assms(2-5) t(2,3)] by blast
  next
    assume "\<exists>S. waits_for_itself w S"
    then show "run_workload w config = None" using run_loop_never by (auto simp: run_workload_def)
  qed
  then show ?thesis by (simp only: eq)
qed

text \<open>
  A loaded workload, run with units for its operations, positive widths and capacities and a
  dispatch queue that holds it, fails to return exactly when its dependencies have a cycle: a
  nonempty set of its instructions, each with a dependency on a member of the set. The loader
  accepts such files.
\<close>

theorem loaded_run_deadlock_iff:
  assumes "load_workload_csv path contents (Some config0) = (Some config, Inr w)"
    and "units_for config w" and "widths_positive config" and "queues_positive config"
    and "length w \<le> unat (dispatch_queue_capacity config)"
  shows "run_workload w config = None \<longleftrightarrow>
    (\<exists>S. S \<noteq> {} \<and> S \<subseteq> {..<length w} \<and>
       (\<forall>i \<in> S. \<exists>j \<in> S. instr_id (w ! j) \<in> set (deps (w ! i))))"
  by (rule loaded_run_cycle [OF assms])

lemma loaded_run_deadlock_iff_witness:
  "\<exists>config. load_workload_csv ''cyclic.csv'' (Some (workload_csv cyclic_workload)) (Some default_config)
      = (Some config, Inr cyclic_workload) \<and> run_workload cyclic_workload config = None"
proof -
  let ?c = "default_config\<lparr>workload_name := workload_name_from_path ''cyclic.csv''\<rparr>"
  have "\<forall>i \<in> set cyclic_workload. csv_instruction i" "distinct (map instr_id cyclic_workload)"
    "check_deps cyclic_workload (set (map instr_id cyclic_workload)) = Inr ()"
    by (simp_all add: cyclic_workload_def csv_instruction_def loaded_instruction_def
        new_instruction_def check_deps_iff)
  then have l: "load_workload_csv ''cyclic.csv'' (Some (workload_csv cyclic_workload))
      (Some default_config) = (Some ?c, Inr cyclic_workload)"
    using load_workload_csv_text [of cyclic_workload] by simp
  have conds: "units_for ?c cyclic_workload" "widths_positive ?c" "queues_positive ?c"
    "length cyclic_workload \<le> unat (dispatch_queue_capacity ?c)"
    by (auto simp: units_for_def widths_positive_def queues_positive_def default_config_def
        cyclic_workload_def)
  have "\<exists>S. S \<noteq> {} \<and> S \<subseteq> {..<length cyclic_workload} \<and>
      (\<forall>i \<in> S. \<exists>j \<in> S. instr_id (cyclic_workload ! j) \<in> set (deps (cyclic_workload ! i)))"
    by (rule exI [of _ "{0, 1}"]) (auto simp: cyclic_workload_def new_instruction_def)
  then have "run_workload cyclic_workload ?c = None"
    by (rule iffD2 [OF loaded_run_deadlock_iff [OF l conds]])
  with l show ?thesis by (intro exI conjI)
qed

end
