(* ===== verification/Bounded_Fifo.thy ===== *)
theory Bounded_Fifo
  imports Instruction_Model
begin

text \<open>
  Bounded first-in first-out queues. The locale \<open>bounded_fifo\<close> is the contract that every queue of
  the repository offers its clients, and its lemmas say what any sequence of operations does;
  \<open>ring_items\<close> is the abstraction of a circular array. The first provider is the legacy template
  \<open>BoundedQueue\<close> (\<open>include/accelsim/queue.h\<close>); the firmware ring buffer is in \<open>Firmware_Units\<close>.
\<close>

section \<open>Sequences of operations\<close>

datatype 'a fifo_op = Push 'a | Pop

text \<open>
  Running operations on a queue: an operation that is refused (the code returns false or throws)
  leaves the queue as it was. The result is what was popped, what was accepted, and the final queue.
\<close>

fun fifo_run ::
  "('s \<Rightarrow> 'a \<Rightarrow> 's option) \<Rightarrow> ('s \<Rightarrow> ('a \<times> 's) option) \<Rightarrow> 'a fifo_op list \<Rightarrow> 's \<Rightarrow>
     'a list \<times> 'a list \<times> 's" where
  "fifo_run push pop [] s = ([], [], s)"
| "fifo_run push pop (Push x # ops) s =
     (case push s x of
        None \<Rightarrow> fifo_run push pop ops s
      | Some t \<Rightarrow> (let (out, acc, u) = fifo_run push pop ops t in (out, x # acc, u)))"
| "fifo_run push pop (Pop # ops) s =
     (case pop s of
        None \<Rightarrow> fifo_run push pop ops s
      | Some (x, t) \<Rightarrow> (let (out, acc, u) = fifo_run push pop ops t in (x # out, acc, u)))"

text \<open>The same on the list of a queue of capacity \<open>n\<close>.\<close>

definition list_push :: "nat \<Rightarrow> 'a list \<Rightarrow> 'a \<Rightarrow> 'a list option" where
  "list_push n xs x = (if length xs < n then Some (xs @ [x]) else None)"

definition list_pop :: "'a list \<Rightarrow> ('a \<times> 'a list) option" where
  "list_pop xs = (case xs of [] \<Rightarrow> None | x # ys \<Rightarrow> Some (x, ys))"

section \<open>The contract of a bounded queue\<close>

locale bounded_fifo =
  fixes items :: "'s \<Rightarrow> 'a list"
    and ok :: "'s \<Rightarrow> bool"
    and capacity :: "'s \<Rightarrow> nat"
    and push :: "'s \<Rightarrow> 'a \<Rightarrow> 's option"
    and pop :: "'s \<Rightarrow> ('a \<times> 's) option"
  assumes within: "ok s \<Longrightarrow> length (items s) \<le> capacity s"
    and push_full: "ok s \<Longrightarrow> length (items s) = capacity s \<Longrightarrow> push s x = None"
    and push_room: "ok s \<Longrightarrow> length (items s) < capacity s \<Longrightarrow>
      \<exists>t. push s x = Some t \<and> ok t \<and> items t = items s @ [x] \<and> capacity t = capacity s"
    and pop_none: "ok s \<Longrightarrow> items s = [] \<Longrightarrow> pop s = None"
    and pop_some: "ok s \<Longrightarrow> items s = x # xs \<Longrightarrow>
      \<exists>t. pop s = Some (x, t) \<and> ok t \<and> items t = xs \<and> capacity t = capacity s"
begin

lemma push_cases:
  assumes "ok s"
  shows "(push s x = None \<and> list_push (capacity s) (items s) x = None) \<or>
    (\<exists>t. push s x = Some t \<and> ok t \<and> capacity t = capacity s \<and>
       list_push (capacity s) (items s) x = Some (items t))"
  using push_full [OF assms] push_room [OF assms, of x] within [OF assms]
  by (cases "length (items s) < capacity s") (auto simp: list_push_def)

lemma pop_cases:
  assumes "ok s"
  shows "(pop s = None \<and> list_pop (items s) = None) \<or>
    (\<exists>x t. pop s = Some (x, t) \<and> ok t \<and> capacity t = capacity s \<and>
       list_pop (items s) = Some (x, items t))"
  using pop_none [OF assms] pop_some [OF assms]
  by (cases "items s") (auto simp: list_pop_def)

text \<open>Any sequence of operations does what it does on the list.\<close>

lemma run_refines:
  "ok s \<Longrightarrow> fifo_run push pop ops s = (out, acc, t) \<Longrightarrow>
     fifo_run (list_push (capacity s)) list_pop ops (items s) = (out, acc, items t) \<and>
     ok t \<and> capacity t = capacity s"
proof (induction ops arbitrary: s out acc t)
  case Nil
  then show ?case by simp
next
  case (Cons op ops)
  show ?case
  proof (cases op)
    case (Push x)
    from push_cases [OF Cons.prems(1), of x] show ?thesis
    proof (elim disjE exE conjE)
      assume none: "push s x = None" "list_push (capacity s) (items s) x = None"
      then show ?thesis using Cons.IH [OF Cons.prems(1)] Cons.prems(2) Push by simp
    next
      fix u
      assume u: "push s x = Some u" "ok u" "capacity u = capacity s"
        "list_push (capacity s) (items s) x = Some (items u)"
      obtain out' acc' where r: "fifo_run push pop ops u = (out', acc', t)" "out = out'" "acc = x # acc'"
        using Cons.prems(2) Push u(1) by (auto split: prod.splits)
      show ?thesis using Cons.IH [OF u(2) r(1)] u r Push by simp
    qed
  next
    case Pop
    from pop_cases [OF Cons.prems(1)] show ?thesis
    proof (elim disjE exE conjE)
      assume none: "pop s = None" "list_pop (items s) = None"
      then show ?thesis using Cons.IH [OF Cons.prems(1)] Cons.prems(2) Pop by simp
    next
      fix x u
      assume u: "pop s = Some (x, u)" "ok u" "capacity u = capacity s"
        "list_pop (items s) = Some (x, items u)"
      obtain out' acc' where r: "fifo_run push pop ops u = (out', acc', t)" "out = x # out'" "acc = acc'"
        using Cons.prems(2) Pop u(1) by (auto split: prod.splits)
      show ?thesis using Cons.IH [OF u(2) r(1)] u r Pop by simp
    qed
  qed
qed

text \<open>First in, first out: nothing is lost, duplicated or reordered.\<close>

lemma run_fifo:
  "ok s \<Longrightarrow> fifo_run push pop ops s = (out, acc, t) \<Longrightarrow>
     out @ items t = items s @ acc \<and> length (items t) \<le> capacity s"
proof (induction ops arbitrary: s out acc t)
  case Nil
  then show ?case using within by auto
next
  case (Cons op ops)
  show ?case
  proof (cases op)
    case (Push x)
    from push_cases [OF Cons.prems(1), of x] show ?thesis
    proof (elim disjE exE conjE)
      assume "push s x = None"
      then show ?thesis using Cons.IH [OF Cons.prems(1)] Cons.prems(2) Push by simp
    next
      fix u
      assume u: "push s x = Some u" "ok u" "capacity u = capacity s"
        "list_push (capacity s) (items s) x = Some (items u)"
      obtain out' acc' where r: "fifo_run push pop ops u = (out', acc', t)" "out = out'" "acc = x # acc'"
        using Cons.prems(2) Push u(1) by (auto split: prod.splits)
      show ?thesis using Cons.IH [OF u(2) r(1)] u r by (auto simp: list_push_def split: if_splits)
    qed
  next
    case Pop
    from pop_cases [OF Cons.prems(1)] show ?thesis
    proof (elim disjE exE conjE)
      assume "pop s = None"
      then show ?thesis using Cons.IH [OF Cons.prems(1)] Cons.prems(2) Pop by simp
    next
      fix x u
      assume u: "pop s = Some (x, u)" "ok u" "capacity u = capacity s"
        "list_pop (items s) = Some (x, items u)"
      obtain out' acc' where r: "fifo_run push pop ops u = (out', acc', t)" "out = x # out'" "acc = acc'"
        using Cons.prems(2) Pop u(1) by (auto split: prod.splits)
      show ?thesis using Cons.IH [OF u(2) r(1)] u r by (auto simp: list_pop_def split: list.splits)
    qed
  qed
qed

end

section \<open>Circular arrays\<close>

text \<open>The \<open>cnt\<close> elements of a circular array from \<open>head\<close> on.\<close>

definition ring_items :: "'a list \<Rightarrow> nat \<Rightarrow> nat \<Rightarrow> 'a list" where
  "ring_items data head cnt = map (\<lambda>k. data ! ((head + k) mod length data)) [0..<cnt]"

lemma length_ring_items [simp]: "length (ring_items data head cnt) = cnt"
  by (simp add: ring_items_def)

lemma ring_items_empty_iff [simp]: "ring_items data head cnt = [] \<longleftrightarrow> cnt = 0"
  by (metis length_0_conv length_ring_items)

lemma mod_offset_inj:
  fixes n :: nat
  assumes "j < n" and "k < n" and "(h + j) mod n = (h + k) mod n"
  shows "j = k"
proof -
  have *: "j = k" if "j < n" "k < n" "(h + j) mod n = (h + k) mod n" "j \<le> k" for j k
  proof -
    have "n dvd (h + k) - (h + j)"
      using that(3,4) by (metis add_le_cancel_left mod_eq_dvd_iff_nat)
    then have "n dvd k - j" by simp
    then show "j = k" using that by (metis diff_is_0_eq dvd_imp_le less_imp_diff_less
      linorder_not_less nat_less_le not_gr_zero)
  qed
  show ?thesis using *[of j k] *[of k j] assms by (metis nat_le_linear)
qed

lemma ring_push:
  assumes "cnt < length data"
  shows "ring_items (data[(head + cnt) mod length data := x]) head (Suc cnt) =
    ring_items data head cnt @ [x]"
proof -
  let ?n = "length data"
  have n: "data \<noteq> []" using assms by auto
  have "data[(head + cnt) mod ?n := x] ! ((head + k) mod ?n) = data ! ((head + k) mod ?n)"
    if "k < cnt" for k
    using mod_offset_inj [of k ?n cnt head] that assms by (metis less_trans nat_neq_iff nth_list_update_neq)
  then show ?thesis using n by (simp add: ring_items_def)
qed

lemma ring_pop:
  assumes "0 < cnt" and "data \<noteq> []"
  shows "ring_items data head cnt =
    data ! (head mod length data) # ring_items data ((head + 1) mod length data) (cnt - 1)"
proof -
  obtain c where c: "cnt = Suc c" using assms(1) by (cases cnt) auto
  have "[0..<Suc c] = 0 # map Suc [0..<c]" by (simp add: map_Suc_upt upt_conv_Cons del: upt_Suc)
  then show ?thesis
    by (simp add: c ring_items_def comp_def mod_add_left_eq del: upt_Suc)
qed

section \<open>The legacy template queue\<close>

record 'a bounded_queue =
  bq_cap :: nat
  bq_items :: "'a list"

definition bq_new :: "nat \<Rightarrow> 'a bounded_queue" where
  "bq_new capacity = \<lparr>bq_cap = capacity, bq_items = []\<rparr>"

definition bq_full :: "'a bounded_queue \<Rightarrow> bool" where
  "bq_full q \<longleftrightarrow> bq_cap q \<le> length (bq_items q)"

definition bq_empty :: "'a bounded_queue \<Rightarrow> bool" where
  "bq_empty q \<longleftrightarrow> bq_items q = []"

definition bq_size :: "'a bounded_queue \<Rightarrow> nat" where
  "bq_size q = length (bq_items q)"

definition bq_capacity :: "'a bounded_queue \<Rightarrow> nat" where
  "bq_capacity q = bq_cap q"

definition bq_push :: "'a bounded_queue \<Rightarrow> 'a \<Rightarrow> 'a bounded_queue result" where
  "bq_push q v =
     (if bq_full q then Inl (Runtime_error ''Queue full'')
      else Inr (q\<lparr>bq_items := bq_items q @ [v]\<rparr>))"

definition bq_pop :: "'a bounded_queue \<Rightarrow> ('a \<times> 'a bounded_queue) result" where
  "bq_pop q =
     (if bq_empty q then Inl (Runtime_error ''Queue empty'')
      else (let v = hd (bq_items q) in Inr (v, q\<lparr>bq_items := tl (bq_items q)\<rparr>)))"

definition bq_front :: "'a bounded_queue \<Rightarrow> 'a result" where
  "bq_front q =
     (if bq_empty q then Inl (Runtime_error ''Queue empty'') else Inr (hd (bq_items q)))"

text \<open>An operation that throws is one that is refused.\<close>

definition accepted :: "'a result \<Rightarrow> 'a option" where
  "accepted r = (case r of Inl e \<Rightarrow> None | Inr x \<Rightarrow> Some x)"

interpretation bq: bounded_fifo bq_items "\<lambda>q. length (bq_items q) \<le> bq_cap q" bq_cap
  "\<lambda>q v. accepted (bq_push q v)" "\<lambda>q. accepted (bq_pop q)"
  by unfold_locales (auto simp: accepted_def bq_push_def bq_pop_def bq_full_def bq_empty_def)

end
