(* ===== verification/Firmware_Units.thy ===== *)
theory Firmware_Units
  imports Bounded_Fifo
begin

text \<open>
  The units under \<open>firmware_style_validation/\<close>: the ring buffer (\<open>ring_buffer.cpp\<close>), a provider of
  \<open>bounded_fifo\<close>; the Q8.8 fixed-point filter (\<open>fixed_point_filter.cpp\<close>), on machine integers and
  compared with a recurrence on integers; the register mock (\<open>hardware_interface_mock.h\<close>).
\<close>

section \<open>The ring buffer\<close>

definition fw_ring_buffer_capacity :: nat where
  "fw_ring_buffer_capacity = 8"

record fw_ring_buffer =
  rb_data :: "u8 list"
  rb_head :: nat
  rb_tail :: nat
  rb_count :: nat

definition fw_ring_buffer_init :: "fw_ring_buffer \<Rightarrow> fw_ring_buffer" where
  "fw_ring_buffer_init rb = rb\<lparr>rb_head := 0, rb_tail := 0, rb_count := 0\<rparr>"

definition fw_ring_buffer_is_empty :: "fw_ring_buffer \<Rightarrow> bool" where
  "fw_ring_buffer_is_empty rb \<longleftrightarrow> rb_count rb = 0"

definition fw_ring_buffer_is_full :: "fw_ring_buffer \<Rightarrow> bool" where
  "fw_ring_buffer_is_full rb \<longleftrightarrow> rb_count rb = fw_ring_buffer_capacity"

definition fw_ring_buffer_size :: "fw_ring_buffer \<Rightarrow> nat" where
  "fw_ring_buffer_size rb = rb_count rb"

text \<open>\<open>None\<close> is the return value \<open>false\<close>: nothing is written then.\<close>

definition fw_ring_buffer_push :: "fw_ring_buffer \<Rightarrow> u8 \<Rightarrow> fw_ring_buffer option" where
  "fw_ring_buffer_push rb v =
     (if fw_ring_buffer_is_full rb then None
      else Some (rb\<lparr>rb_data := (rb_data rb)[rb_tail rb := v],
                    rb_tail := (rb_tail rb + 1) mod fw_ring_buffer_capacity,
                    rb_count := rb_count rb + 1\<rparr>))"

definition fw_ring_buffer_pop :: "fw_ring_buffer \<Rightarrow> (u8 \<times> fw_ring_buffer) option" where
  "fw_ring_buffer_pop rb =
     (if fw_ring_buffer_is_empty rb then None
      else Some (rb_data rb ! rb_head rb,
                 rb\<lparr>rb_head := (rb_head rb + 1) mod fw_ring_buffer_capacity,
                    rb_count := rb_count rb - 1\<rparr>))"

definition rb_ok :: "fw_ring_buffer \<Rightarrow> bool" where
  "rb_ok rb \<longleftrightarrow> length (rb_data rb) = fw_ring_buffer_capacity \<and>
     rb_head rb < fw_ring_buffer_capacity \<and> rb_count rb \<le> fw_ring_buffer_capacity \<and>
     rb_tail rb = (rb_head rb + rb_count rb) mod fw_ring_buffer_capacity"

definition rb_items :: "fw_ring_buffer \<Rightarrow> u8 list" where
  "rb_items rb = ring_items (rb_data rb) (rb_head rb) (rb_count rb)"

lemma rb_init_ok:
  "length (rb_data rb) = fw_ring_buffer_capacity \<Longrightarrow>
     rb_ok (fw_ring_buffer_init rb) \<and> rb_items (fw_ring_buffer_init rb) = []"
  by (simp add: rb_ok_def rb_items_def fw_ring_buffer_init_def fw_ring_buffer_capacity_def)

lemma rb_push_room:
  assumes "rb_ok rb" and "length (rb_items rb) < fw_ring_buffer_capacity"
  shows "\<exists>t. fw_ring_buffer_push rb v = Some t \<and> rb_ok t \<and> rb_items t = rb_items rb @ [v]"
proof -
  have c: "rb_count rb < fw_ring_buffer_capacity" using assms(2) by (simp add: rb_items_def)
  then show ?thesis
    using assms(1) ring_push [of "rb_count rb" "rb_data rb" "rb_head rb" v]
    by (auto simp: fw_ring_buffer_push_def fw_ring_buffer_is_full_def rb_ok_def rb_items_def mod_Suc_eq)
qed

lemma rb_pop_some:
  assumes "rb_ok rb" and "rb_items rb = x # xs"
  shows "\<exists>t. fw_ring_buffer_pop rb = Some (x, t) \<and> rb_ok t \<and> rb_items t = xs"
proof -
  have c: "0 < rb_count rb" using assms(2) by (metis gr0I list.distinct(1) rb_items_def ring_items_empty_iff)
  have d: "rb_data rb \<noteq> []" using assms(1) by (auto simp: rb_ok_def fw_ring_buffer_capacity_def)
  obtain n where n: "rb_count rb = Suc n" using c by (cases "rb_count rb") auto
  have "rb_tail rb = ((rb_head rb + 1) mod 8 + (rb_count rb - 1)) mod 8"
    using assms(1) by (simp add: n rb_ok_def fw_ring_buffer_capacity_def mod_add_left_eq)
  then show ?thesis
    using assms c ring_pop [OF c d, of "rb_head rb"]
    by (auto simp: fw_ring_buffer_pop_def fw_ring_buffer_is_empty_def rb_ok_def rb_items_def
        fw_ring_buffer_capacity_def)
qed

interpretation rb: bounded_fifo rb_items rb_ok "\<lambda>rb. fw_ring_buffer_capacity"
  fw_ring_buffer_push fw_ring_buffer_pop
proof (unfold_locales, goal_cases)
  case (1 s)
  then show ?case by (simp add: rb_items_def rb_ok_def)
next
  case (2 s x)
  then show ?case
    by (simp add: rb_items_def fw_ring_buffer_push_def fw_ring_buffer_is_full_def)
next
  case (3 s x)
  then show ?case using rb_push_room by simp
next
  case (4 s)
  then show ?case
    by (simp add: rb_items_def fw_ring_buffer_pop_def fw_ring_buffer_is_empty_def)
next
  case (5 s x xs)
  then show ?case using rb_pop_some by simp
qed

section \<open>The fixed-point filter\<close>

text \<open>
  \<open>int16_t\<close> is \<open>16 word\<close> read by \<open>sint\<close>. An arithmetic operation on two of them is computed in
  \<open>int\<close> (32 bits) after promotion; a cast to \<open>int16_t\<close> keeps the low 16 bits.
\<close>

definition q8_8_mul :: "i16 \<Rightarrow> i16 \<Rightarrow> i16" where
  "q8_8_mul a b =
     (let product = (scast a :: 32 word) * scast b in ucast (signed_drop_bit 8 product))"

record fixed_point_filter =
  filter_alpha :: i16
  filter_state :: i16

definition new_filter :: "i16 \<Rightarrow> fixed_point_filter" where
  "new_filter alpha_q8_8 = \<lparr>filter_alpha = alpha_q8_8, filter_state = 0\<rparr>"

definition filter_update :: "i16 \<Rightarrow> fixed_point_filter \<Rightarrow> i16 \<times> fixed_point_filter" where
  "filter_update input f =
     (let inverse_alpha = (ucast ((scast (256 :: i16) :: 32 word) - scast (filter_alpha f)) :: i16);
          input_term = q8_8_mul (filter_alpha f) input;
          state_term = q8_8_mul inverse_alpha (filter_state f);
          new_state = (ucast ((scast input_term :: 32 word) + scast state_term) :: i16)
      in (new_state, f\<lparr>filter_state := new_state\<rparr>))"

fun filter_loop :: "i16 list \<Rightarrow> fixed_point_filter \<Rightarrow> i16 list \<Rightarrow> i16 list" where
  "filter_loop [] f outputs = outputs"
| "filter_loop (sample # rest) f outputs =
     (let (y, f') = filter_update sample f in filter_loop rest f' (outputs @ [y]))"

definition run_filter_sequence :: "i16 list \<Rightarrow> i16 \<Rightarrow> i16 list" where
  "run_filter_sequence inputs alpha_q8_8 = filter_loop inputs (new_filter alpha_q8_8) []"

lemma sint16_range: "- 32768 \<le> sint (a :: i16) \<and> sint a < 32768"
  using sint_greater_eq [of a] sint_less [of a] by simp

lemma sint_of_int_small: "- 32768 \<le> k \<Longrightarrow> k < 32768 \<Longrightarrow> sint (word_of_int k :: i16) = k"
  by (simp add: signed_of_int signed_take_bit_int_eq_self)

lemma sint_of_int32: "- 2147483648 \<le> k \<Longrightarrow> k < 2147483648 \<Longrightarrow> sint (word_of_int k :: 32 word) = k"
  by (simp add: signed_of_int signed_take_bit_int_eq_self)

lemma product_bound:
  fixes x y :: int
  assumes "- 32768 \<le> x" "x < 32768" "- 32768 \<le> y" "y < 32768"
  shows "- 2147483648 \<le> x * y \<and> x * y < 2147483648"
proof -
  have "\<bar>x * y\<bar> \<le> 32768 * 32768"
    unfolding abs_mult using assms by (intro mult_mono) auto
  then show ?thesis by (simp add: abs_le_iff)
qed

lemma scast_mult16: "(scast (a :: i16) :: 32 word) * scast b = word_of_int (sint a * sint b)"
  unfolding scast_eq by (simp only: of_int_mult)

lemma scast_add16: "(scast (a :: i16) :: 32 word) + scast b = word_of_int (sint a + sint b)"
  unfolding scast_eq by (simp only: of_int_add)

lemma scast_diff16: "(scast (a :: i16) :: 32 word) - scast b = word_of_int (sint a - sint b)"
  unfolding scast_eq by (simp only: of_int_diff)

lemma ucast_down16: "(ucast (w :: 32 word) :: i16) = word_of_int (sint w)"
  by (rule bit_word_eqI) (simp add: bit_simps bit_signed_take_bit_iff)

lemma q8_8_mul_eq: "q8_8_mul a b = word_of_int ((sint a * sint b) div 256)"
proof -
  have "sint (word_of_int (sint a * sint b) :: 32 word) = sint a * sint b"
    using product_bound [of "sint a" "sint b"] sint16_range [of a] sint16_range [of b]
    by (intro sint_of_int32) simp_all
  then have "sint (signed_drop_bit 8 (word_of_int (sint a * sint b) :: 32 word)) =
      (sint a * sint b) div 256"
    by (simp only: sint_signed_drop_bit_eq drop_bit_eq_div) simp
  then show ?thesis unfolding q8_8_mul_def Let_def scast_mult16 ucast_down16 by simp
qed

text \<open>One update on integers, for a coefficient between 0 and 1 (256 in Q8.8).\<close>

definition filter_ref :: "int \<Rightarrow> int \<Rightarrow> int \<Rightarrow> int" where
  "filter_ref alpha x y = (alpha * x) div 256 + ((256 - alpha) * y) div 256"

lemma weighted_div:
  fixes a x y :: int
  assumes "0 \<le> a" and "a \<le> 256" and "m \<le> x" and "x \<le> k" and "m \<le> y" and "y \<le> k"
  shows "m - 1 \<le> filter_ref a x y \<and> filter_ref a x y \<le> k \<and>
    a * x + (256 - a) * y - 510 \<le> 256 * filter_ref a x y \<and>
    256 * filter_ref a x y \<le> a * x + (256 - a) * y"
proof -
  let ?p = "a * x" and ?q = "(256 - a) * y"
  have "a * m \<le> ?p" "?p \<le> a * k" "(256 - a) * m \<le> ?q" "?q \<le> (256 - a) * k"
    using assms by (simp_all add: mult_left_mono)
  then have s: "256 * m \<le> ?p + ?q" "?p + ?q \<le> 256 * k" by (simp_all add: left_diff_distrib)
  have "m - 1 \<le> p div 256 + q div 256 \<and> p div 256 + q div 256 \<le> k \<and>
      p + q - 510 \<le> 256 * (p div 256 + q div 256) \<and> 256 * (p div 256 + q div 256) \<le> p + q"
    if "256 * m \<le> p + q" "p + q \<le> 256 * k" for p q :: int
  proof -
    define i r j t where "i = p div 256" and "r = p mod 256" and "j = q div 256" and "t = q mod 256"
    have "p = 256 * i + r" "q = 256 * j + t" "0 \<le> r" "r \<le> 255" "0 \<le> t" "t \<le> 255"
      by (simp_all add: i_def r_def j_def t_def)
    then show ?thesis using that unfolding i_def [symmetric] j_def [symmetric]
      by (auto simp: distrib_left)
  qed
  from this [OF s] show ?thesis by (simp only: filter_ref_def)
qed

text \<open>The multiples of 256 at the end of the range are exact, so the range is never left.\<close>

lemma filter_ref_range:
  fixes a x y :: int
  assumes "0 \<le> a" and "a \<le> 256" and "- 32768 \<le> x" and "x < 32768" and "- 32768 \<le> y" and "y < 32768"
  shows "- 32768 \<le> filter_ref a x y \<and> filter_ref a x y < 32768"
proof -
  have l: "- 128 * c \<le> (c * z) div 256" if "0 \<le> c" "- 32768 \<le> z" for c z :: int
  proof -
    have "c * (- 32768) \<le> c * z" by (rule mult_left_mono [OF that(2,1)])
    then have "(- 128 * c) * 256 \<le> c * z" by simp
    then show ?thesis by linarith
  qed
  have "- 128 * a \<le> (a * x) div 256" "- 128 * (256 - a) \<le> ((256 - a) * y) div 256"
    using l [of a x] l [of "256 - a" y] assms by simp_all
  moreover have "- 32768 \<le> p + q" if "- 128 * a \<le> p" "- 128 * (256 - a) \<le> q" for p q :: int
    using that by (simp add: right_diff_distrib)
  ultimately have "- 32768 \<le> filter_ref a x y" unfolding filter_ref_def by blast
  moreover have "filter_ref a x y \<le> 32767"
    using weighted_div [of a "- 32768" x 32767 y] assms by simp
  ultimately show ?thesis by simp
qed

lemma filter_term_range:
  fixes a x :: int
  assumes "0 \<le> a" and "a \<le> 256" and "- 32768 \<le> x" and "x < 32768"
  shows "- 32768 \<le> (a * x) div 256 \<and> (a * x) div 256 < 32768"
proof -
  have "a * (- 32768) \<le> a * x" "a * x \<le> a * 32767"
    using mult_left_mono [OF assms(3,1)] mult_left_mono [of x 32767 a] assms by simp_all
  then have "- 8388608 \<le> a * x" "a * x \<le> 8388352" using assms(1,2) by linarith+
  then show ?thesis by linarith
qed

lemma filter_update_eq:
  assumes "0 \<le> sint (filter_alpha f)" and "sint (filter_alpha f) \<le> 256"
  shows "\<exists>y. filter_update x f = (y, f\<lparr>filter_state := y\<rparr>) \<and>
    sint y = filter_ref (sint (filter_alpha f)) (sint x) (sint (filter_state f))"
proof -
  let ?a = "sint (filter_alpha f)" and ?x = "sint x" and ?s = "sint (filter_state f)"
  have "sint (256 :: i16) = 256" by simp
  then have w32: "sint (word_of_int (sint (256 :: i16) - ?a) :: 32 word) = 256 - ?a"
    using sint16_range [of "filter_alpha f"] by (intro trans [OF sint_of_int32]) simp_all
  define inverse :: i16 where
    "inverse = ucast ((scast (256 :: i16) :: 32 word) - scast (filter_alpha f))"
  have inv: "sint inverse = 256 - ?a"
    unfolding inverse_def scast_diff16 ucast_down16 w32 using assms by (intro sint_of_int_small) simp_all
  have t1: "sint (q8_8_mul (filter_alpha f) x) = (?a * ?x) div 256"
    unfolding q8_8_mul_eq using filter_term_range [OF assms] sint16_range by (simp add: sint_of_int_small)
  have t2: "sint (q8_8_mul inverse (filter_state f)) = ((256 - ?a) * ?s) div 256"
    unfolding q8_8_mul_eq inv
    using filter_term_range [of "256 - ?a" ?s] assms sint16_range [of "filter_state f"]
    by (simp add: sint_of_int_small)
  have r: "- 32768 \<le> filter_ref ?a ?x ?s \<and> filter_ref ?a ?x ?s < 32768"
    using filter_ref_range [of ?a ?x ?s] assms sint16_range [of x] sint16_range [of "filter_state f"]
    by simp
  then have "sint (word_of_int (filter_ref ?a ?x ?s) :: 32 word) = filter_ref ?a ?x ?s"
    by (intro sint_of_int32) simp_all
  then have "sint (word_of_int (sint (word_of_int (filter_ref ?a ?x ?s) :: 32 word)) :: i16) =
      filter_ref ?a ?x ?s" using r by (simp only: sint_of_int_small)
  then have "sint (ucast ((scast (q8_8_mul (filter_alpha f) x) :: 32 word) +
      scast (q8_8_mul inverse (filter_state f))) :: i16) = filter_ref ?a ?x ?s"
    unfolding scast_add16 ucast_down16 t1 t2 by (simp only: filter_ref_def)
  then show ?thesis unfolding filter_update_def Let_def inverse_def by (intro exI conjI) (rule refl)
qed

fun filter_ref_run :: "int \<Rightarrow> int \<Rightarrow> int list \<Rightarrow> int list" where
  "filter_ref_run alpha y [] = []"
| "filter_ref_run alpha y (x # xs) =
     (let z = filter_ref alpha x y in z # filter_ref_run alpha z xs)"

lemma filter_loop_ref:
  "0 \<le> sint (filter_alpha f) \<Longrightarrow> sint (filter_alpha f) \<le> 256 \<Longrightarrow>
   map sint (filter_loop xs f out) =
     map sint out @ filter_ref_run (sint (filter_alpha f)) (sint (filter_state f)) (map sint xs)"
proof (induction xs f out rule: filter_loop.induct)
  case (1 f out)
  then show ?case by simp
next
  case (2 x rest f out)
  obtain y where y: "filter_update x f = (y, f\<lparr>filter_state := y\<rparr>)"
    "sint y = filter_ref (sint (filter_alpha f)) (sint x) (sint (filter_state f))"
    using filter_update_eq [OF 2(2,3)] by blast
  show ?case using "2.IH" [OF y(1) [symmetric] refl] 2(2,3) y by (simp add: Let_def)
qed

section \<open>The register mock\<close>

type_synonym hardware_mock = "(u32 \<times> u32) list"

definition write_register :: "u32 \<Rightarrow> u32 \<Rightarrow> hardware_mock \<Rightarrow> hardware_mock" where
  "write_register address v writes = writes @ [(address, v)]"

fun read_back :: "u32 \<Rightarrow> (u32 \<times> u32) list \<Rightarrow> u32" where
  "read_back address [] = 0"
| "read_back address ((a, v) # rest) = (if a = address then v else read_back address rest)"

definition read_register :: "u32 \<Rightarrow> hardware_mock \<Rightarrow> u32" where
  "read_register address writes = read_back address (rev writes)"

definition write_count :: "hardware_mock \<Rightarrow> nat" where
  "write_count writes = length writes"

lemma read_write_register:
  "read_register a (write_register b v m) = (if a = b then v else read_register a m)"
  by (simp add: read_register_def write_register_def)

text \<open>The mock is a register file that starts at zero.\<close>

lemma read_register_fold:
  "read_register a (fold (\<lambda>(b, v). write_register b v) ws []) =
   (fold (\<lambda>(b, v) f. f(b := v)) ws (\<lambda>_. 0)) a"
proof (induction ws rule: rev_induct)
  case Nil
  show ?case by (simp add: read_register_def)
next
  case (snoc p ws)
  then show ?case by (cases p) (simp add: read_write_register)
qed

end
