(* ===== verification/Legacy_Units.thy ===== *)
theory Legacy_Units
  imports Bounded_Fifo
begin

text \<open>
  The units of the first simulator that are still in the tree: operations and their latencies
  (\<open>src/instruction.cpp\<close>), the compute unit (\<open>src/compute_unit.cpp\<close>), the memory controller
  (\<open>src/memory_controller.cpp\<close>) and the trace writer (\<open>src/trace_writer.cpp\<close>). Cycles are C++
  \<open>int\<close>s whose overflow is undefined, so they are integers here.
\<close>

section \<open>Operations\<close>

datatype op = ADD | MATMUL | LOAD | STORE | UNKNOWN

definition parse_op :: "string \<Rightarrow> op" where
  "parse_op s =
     (let t = map cpp_toupper s in
      if t = ''ADD'' then ADD
      else if t = ''MATMUL'' then MATMUL
      else if t = ''LOAD'' then LOAD
      else if t = ''STORE'' then STORE
      else UNKNOWN)"

definition default_compute_latency :: "op \<Rightarrow> int" where
  "default_compute_latency op =
     (case op of ADD \<Rightarrow> 1 | MATMUL \<Rightarrow> 6 | LOAD \<Rightarrow> 1 | STORE \<Rightarrow> 1 | _ \<Rightarrow> 1)"

section \<open>The compute unit\<close>

record compute_unit =
  cu_current :: "u64 option"
  cu_done_cycle :: int

definition new_compute_unit :: compute_unit where
  "new_compute_unit = \<lparr>cu_current = None, cu_done_cycle = - 1\<rparr>"

definition cu_busy :: "compute_unit \<Rightarrow> bool" where
  "cu_busy u \<longleftrightarrow> cu_current u \<noteq> None"

definition cu_issue :: "u64 \<Rightarrow> int \<Rightarrow> int \<Rightarrow> compute_unit \<Rightarrow> compute_unit" where
  "cu_issue instr now_cycle latency u =
     u\<lparr>cu_current := Some instr, cu_done_cycle := now_cycle + latency\<rparr>"

definition cu_tick :: "int \<Rightarrow> compute_unit \<Rightarrow> u64 option \<times> compute_unit" where
  "cu_tick now_cycle u =
     (if cu_current u = None then (None, u)
      else if cu_done_cycle u \<le> now_cycle
      then (cu_current u, u\<lparr>cu_current := None, cu_done_cycle := - 1\<rparr>)
      else (None, u))"

text \<open>Ticks at the given cycles, with what each returns.\<close>

fun cu_ticks :: "int list \<Rightarrow> compute_unit \<Rightarrow> u64 option list \<times> compute_unit" where
  "cu_ticks [] u = ([], u)"
| "cu_ticks (t # ts) u =
     (let (r, v) = cu_tick t u; (rs, x) = cu_ticks ts v in (r # rs, x))"

lemma cu_ticks_idle: "cu_current u = None \<Longrightarrow> cu_ticks ts u = (replicate (length ts) None, u)"
  by (induction ts) (simp_all add: cu_tick_def)

lemma cu_ticks_issued:
  assumes "cu_current u = Some i"
  shows "cu_ticks ts u =
    (let early = takeWhile (\<lambda>t. t < cu_done_cycle u) ts; late = drop (length early) ts in
     if late = [] then (replicate (length ts) None, u)
     else (replicate (length early) None @ Some i # replicate (length late - 1) None,
           u\<lparr>cu_current := None, cu_done_cycle := - 1\<rparr>))"
proof (induction ts)
  case Nil
  show ?case by simp
next
  case (Cons t ts)
  show ?case
  proof (cases "t < cu_done_cycle u")
    case True
    then show ?thesis using Cons assms by (simp add: cu_tick_def Let_def)
  next
    case False
    then show ?thesis using assms cu_ticks_idle [of "u\<lparr>cu_current := None, cu_done_cycle := - 1\<rparr>" ts]
      by (simp add: cu_tick_def)
  qed
qed

section \<open>The memory controller\<close>

record mem_req =
  req_instr :: u64
  req_ready :: int

record memory_controller =
  mc_latency :: int
  mc_queue :: "mem_req list"

definition new_memory_controller :: "int \<Rightarrow> memory_controller" where
  "new_memory_controller fixed_latency = \<lparr>mc_latency = fixed_latency, mc_queue = []\<rparr>"

definition mc_issue :: "u64 \<Rightarrow> int \<Rightarrow> memory_controller \<Rightarrow> memory_controller" where
  "mc_issue instr now_cycle m =
     m\<lparr>mc_queue := mc_queue m @ [\<lparr>req_instr = instr, req_ready = now_cycle + mc_latency m\<rparr>]\<rparr>"

fun mc_drain :: "int \<Rightarrow> mem_req list \<Rightarrow> u64 list \<Rightarrow> u64 list \<times> mem_req list" where
  "mc_drain now_cycle [] finished = (finished, [])"
| "mc_drain now_cycle (r # q) finished =
     (if req_ready r \<le> now_cycle then mc_drain now_cycle q (finished @ [req_instr r])
      else (finished, r # q))"

definition mc_tick :: "int \<Rightarrow> memory_controller \<Rightarrow> u64 list \<times> memory_controller" where
  "mc_tick now_cycle m =
     (let (finished, q) = mc_drain now_cycle (mc_queue m) [] in (finished, m\<lparr>mc_queue := q\<rparr>))"

lemma mc_drain_eq:
  "mc_drain now q fin =
     (fin @ map req_instr (takeWhile (\<lambda>r. req_ready r \<le> now) q), dropWhile (\<lambda>r. req_ready r \<le> now) q)"
  by (induction now q fin rule: mc_drain.induct) auto

text \<open>A schedule of issues and ticks at given cycles, with the cycle at which each request completes.\<close>

datatype mc_event = Mc_issue u64 int | Mc_tick int

fun event_cycle :: "mc_event \<Rightarrow> int" where
  "event_cycle (Mc_issue i t) = t"
| "event_cycle (Mc_tick t) = t"

fun mc_run :: "mc_event list \<Rightarrow> memory_controller \<Rightarrow> (u64 \<times> int) list \<times> memory_controller" where
  "mc_run [] m = ([], m)"
| "mc_run (Mc_issue i t # es) m = mc_run es (mc_issue i t m)"
| "mc_run (Mc_tick t # es) m =
     (let (ids, m1) = mc_tick t m; (out, m2) = mc_run es m1 in (map (\<lambda>i. (i, t)) ids @ out, m2))"

fun issues :: "mc_event list \<Rightarrow> (u64 \<times> int) list" where
  "issues [] = []"
| "issues (Mc_issue i t # es) = (i, t) # issues es"
| "issues (Mc_tick t # es) = issues es"

lemma mc_run_fifo:
  "mc_run es m = (out, m') \<Longrightarrow>
     map fst out @ map req_instr (mc_queue m') = map req_instr (mc_queue m) @ map fst (issues es) \<and>
     mc_latency m' = mc_latency m"
proof (induction es m arbitrary: out rule: mc_run.induct)
  case (1 m)
  then show ?case by auto
next
  case (2 i t es m)
  then show ?case by (simp add: mc_issue_def)
next
  case (3 t es m)
  let ?q = "mc_queue m"
  have tk: "mc_tick t m = (map req_instr (takeWhile (\<lambda>r. req_ready r \<le> t) ?q),
      m\<lparr>mc_queue := dropWhile (\<lambda>r. req_ready r \<le> t) ?q\<rparr>)"
    by (simp add: mc_tick_def mc_drain_eq)
  obtain out' where r: "mc_run es (m\<lparr>mc_queue := dropWhile (\<lambda>r. req_ready r \<le> t) ?q\<rparr>) = (out', m')"
    "out = map (\<lambda>i. (i, t)) (map req_instr (takeWhile (\<lambda>r. req_ready r \<le> t) ?q)) @ out'"
    using 3(2) tk by (auto split: prod.splits)
  have "map req_instr (takeWhile (\<lambda>r. req_ready r \<le> t) ?q) @
      map req_instr (dropWhile (\<lambda>r. req_ready r \<le> t) ?q) = map req_instr ?q"
    by (metis map_append takeWhile_dropWhile_id)
  then show ?case using "3.IH" [OF tk [symmetric] refl r(1)] r(2) by (simp add: comp_def)
qed

lemma sorted_dropWhile_filter:
  "sorted (map f q) \<Longrightarrow> takeWhile (\<lambda>r. f r \<le> (t::int)) q = filter (\<lambda>r. f r \<le> t) q \<and>
     dropWhile (\<lambda>r. f r \<le> t) q = filter (\<lambda>r. t < f r) q"
proof (induction q)
  case (Cons r q)
  show ?case
  proof (cases "f r \<le> t")
    case True
    then show ?thesis using Cons by simp
  next
    case False
    then have "\<forall>x \<in> set q. t < f x" using Cons.prems by auto
    then show ?thesis using False by (auto simp: filter_empty_conv not_le intro!: filter_True [symmetric])
  qed
qed simp

lemma mc_run_append:
  "mc_run (es @ fs) m = (let (o1, m1) = mc_run es m; (o2, m2) = mc_run fs m1 in (o1 @ o2, m2))"
  by (induction es m rule: mc_run.induct) (auto simp: Let_def split: prod.splits)

fun ticks :: "mc_event list \<Rightarrow> int list" where
  "ticks [] = []"
| "ticks (Mc_issue i t # es) = ticks es"
| "ticks (Mc_tick t # es) = t # ticks es"

lemma schedule_append [simp]:
  "issues (es @ fs) = issues es @ issues fs" "ticks (es @ fs) = ticks es @ ticks fs"
  by (induction es rule: issues.induct) simp_all

lemma schedule_cycles:
  "set (ticks es) \<subseteq> event_cycle ` set es" "set (map snd (issues es)) \<subseteq> event_cycle ` set es"
  by (induction es rule: issues.induct) auto

lemma sorted_issues: "sorted (map event_cycle es) \<Longrightarrow> sorted (map snd (issues es))"
proof (induction es rule: issues.induct)
  case (2 i t es)
  then show ?case using schedule_cycles(2) [of es] by auto
qed simp_all

definition requests :: "int \<Rightarrow> mc_event list \<Rightarrow> mem_req list" where
  "requests latency es = map (\<lambda>(i, t). \<lparr>req_instr = i, req_ready = t + latency\<rparr>) (issues es)"

lemma sorted_requests:
  assumes "sorted (map event_cycle es)"
  shows "sorted (map req_ready (requests latency es))"
proof -
  have "map req_ready (requests latency es) = map (\<lambda>t. t + latency) (map snd (issues es))"
    by (simp add: requests_def comp_def split_def)
  then show ?thesis using sorted_issues [OF assms] by (simp add: sorted_map sorted_wrt_map)
qed

text \<open>With the cycles in order, the queue holds the requests that no tick has reached yet.\<close>

lemma mc_run_queue:
  assumes "sorted (map event_cycle es)" and "0 < latency"
  shows "mc_queue (snd (mc_run es (new_memory_controller latency))) =
    filter (\<lambda>r. \<forall>u \<in> set (ticks es). u < req_ready r) (requests latency es) \<and>
    mc_latency (snd (mc_run es (new_memory_controller latency))) = latency"
  using assms(1)
proof (induction es rule: rev_induct)
  case Nil
  show ?case by (simp add: new_memory_controller_def requests_def)
next
  case (snoc e es)
  let ?m = "snd (mc_run es (new_memory_controller latency))"
  have so: "sorted (map event_cycle es)" and le: "\<forall>x \<in> set es. event_cycle x \<le> event_cycle e"
    using snoc.prems by (simp_all add: sorted_append)
  note IH = snoc.IH [OF so]
  show ?case
  proof (cases e)
    case (Mc_issue i t)
    have u: "u < t + latency" if "u \<in> set (ticks es)" for u
      using subsetD [OF schedule_cycles(1) that] le Mc_issue assms(2) by force
    obtain out m' where run: "mc_run es (new_memory_controller latency) = (out, m')"
      by (cases "mc_run es (new_memory_controller latency)")
    show ?thesis using IH u run
      by (simp add: Mc_issue mc_run_append mc_issue_def requests_def)
  next
    case (Mc_tick t)
    have q: "sorted (map req_ready (mc_queue ?m))"
      using IH sorted_requests [OF so] by (simp add: sorted_filter)
    obtain out m' where run: "mc_run es (new_memory_controller latency) = (out, m')"
      by (cases "mc_run es (new_memory_controller latency)")
    have "snd (mc_run (es @ [e]) (new_memory_controller latency)) =
        m'\<lparr>mc_queue := filter (\<lambda>r. t < req_ready r) (mc_queue m')\<rparr>"
      using sorted_dropWhile_filter [OF q, of t] run
      by (simp add: Mc_tick mc_run_append mc_tick_def mc_drain_eq)
    moreover have "requests latency (es @ [e]) = requests latency es" "ticks (es @ [e]) = ticks es @ [t]"
      by (simp_all add: Mc_tick requests_def)
    moreover have "filter (\<lambda>r. t < req_ready r) (filter (\<lambda>r. \<forall>u \<in> set (ticks es). u < req_ready r) R) =
        filter (\<lambda>r. \<forall>u \<in> set (ticks es @ [t]). u < req_ready r) R" for R
      unfolding filter_filter by (rule filter_cong) auto
    ultimately show ?thesis using IH run by simp
  qed
qed

lemma mc_run_completed:
  assumes "sorted (map event_cycle es)" and "0 < latency"
  shows "map fst (fst (mc_run es (new_memory_controller latency))) =
    map req_instr (filter (\<lambda>r. \<exists>u \<in> set (ticks es). req_ready r \<le> u) (requests latency es))"
proof -
  let ?R = "requests latency es" and ?m = "new_memory_controller latency"
  obtain out m' where run: "mc_run es ?m = (out, m')" by (cases "mc_run es ?m")
  have q: "mc_queue m' = filter (\<lambda>r. \<forall>u \<in> set (ticks es). u < req_ready r) ?R"
    using mc_run_queue [OF assms] run by simp
  have fifo: "map fst out @ map req_instr (mc_queue m') = map req_instr ?R"
    using mc_run_fifo [OF run] by (simp add: new_memory_controller_def requests_def comp_def split_def)
  show ?thesis
  proof (cases "ticks es = []")
    case True
    then have "mc_queue m' = ?R" using q by simp
    then show ?thesis using fifo True run by simp
  next
    case False
    let ?t = "Max (set (ticks es))"
    have t: "(\<forall>u \<in> set (ticks es). u < x) \<longleftrightarrow> ?t < x" "(\<exists>u \<in> set (ticks es). x \<le> u) \<longleftrightarrow> x \<le> ?t" for x
      using False by (auto simp: Max_ge_iff)
    let ?done = "map req_instr (filter (\<lambda>r. req_ready r \<le> ?t) ?R)"
    let ?left = "map req_instr (filter (\<lambda>r. ?t < req_ready r) ?R)"
    have split: "map req_instr ?R = ?done @ ?left"
      using sorted_dropWhile_filter [OF sorted_requests [OF assms(1), of latency], of ?t]
      takeWhile_dropWhile_id [of "\<lambda>r. req_ready r \<le> ?t" ?R]
      by (simp only: map_append [symmetric])
    have "map req_instr (mc_queue m') = ?left" unfolding q t(1) ..
    with fifo split have "map fst out @ ?left = ?done @ ?left" by (simp only:)
    then have "map fst out = ?done" by (simp only: append_same_eq)
    then show ?thesis unfolding t(2) run by (simp only: fst_conv)
  qed
qed

section \<open>The trace file\<close>

definition int_to_string :: "int \<Rightarrow> string" where
  "int_to_string i = (if i < 0 then CHR ''-'' # dec_string (nat (- i)) else dec_string (nat i))"

text \<open>\<open>opened\<close> says whether the file could be opened; the stream is the text written so far.\<close>

definition new_trace_writer :: "bool \<Rightarrow> string result" where
  "new_trace_writer opened =
     (if \<not> opened then Inl (Runtime_error ''Failed to open trace output file'') else Inr [])"

definition trace_write_header :: "string \<Rightarrow> string" where
  "trace_write_header out = out @ ''cycle,instr_id,event'' @ [CHR 0x0A]"

definition trace_log :: "int \<Rightarrow> u64 \<Rightarrow> string \<Rightarrow> string \<Rightarrow> string" where
  "trace_log cycle instr event out =
     out @ int_to_string cycle @ '','' @ to_string_u64 instr @ '','' @ event @ [CHR 0x0A]"

end
