(* ===== verification/Device_Properties.thy ===== *)
theory Device_Properties
  imports Firmware_Units Legacy_Units
begin

text \<open>The properties of the queues, the firmware units and the legacy units.\<close>

section \<open>Queues\<close>

text \<open>
  \<open>BoundedQueue\<close> is a first-in first-out queue: for any sequence of pushes and pops, refused
  ones included, what was popped followed by what is left is exactly what was accepted, in order,
  and the queue never holds more than its capacity.
\<close>

theorem bounded_queue_fifo:
  assumes "fifo_run (\<lambda>q v. accepted (bq_push q v)) (\<lambda>q. accepted (bq_pop q)) ops (bq_new n) =
    (out, acc, q)"
  shows "out @ bq_items q = acc \<and> bq_size q \<le> n"
  using bq.run_fifo [OF _ assms] by (simp add: bq_new_def bq_size_def)

lemma bounded_queue_fifo_witness:
  "fifo_run (\<lambda>q v. accepted (bq_push q v)) (\<lambda>q. accepted (bq_pop q))
     [Push 1, Push 2, Push (3 :: nat), Pop] (bq_new 2) =
     ([1], [1, 2], \<lparr>bq_cap = 2, bq_items = [2]\<rparr>) \<and> [1] @ [2] = [1, 2 :: nat]"
proof -
  have run: "fifo_run (\<lambda>q v. accepted (bq_push q v)) (\<lambda>q. accepted (bq_pop q))
      [Push 1, Push 2, Push (3 :: nat), Pop] (bq_new 2) =
      ([1], [1, 2], \<lparr>bq_cap = 2, bq_items = [2]\<rparr>)"
    by (simp add: bq_new_def accepted_def bq_push_def bq_pop_def bq_full_def bq_empty_def)
  from bounded_queue_fifo [OF run] run show ?thesis by simp
qed

text \<open>
  C18. The firmware ring buffer, initialised over any memory, behaves on every sequence of pushes and
  pops as a list of at most eight bytes: the same operations succeed, the same bytes come out, and
  the bytes between head and tail are the list.
\<close>

theorem fw_ring_buffer_refines:
  assumes "length (rb_data rb) = 8"
    and "fifo_run fw_ring_buffer_push fw_ring_buffer_pop ops (fw_ring_buffer_init rb) = (out, acc, rb')"
  shows "fifo_run (list_push 8) list_pop ops [] = (out, acc, rb_items rb') \<and>
    fw_ring_buffer_size rb' = length (rb_items rb') \<and> out @ rb_items rb' = acc"
proof -
  have ok: "rb_ok (fw_ring_buffer_init rb)" "rb_items (fw_ring_buffer_init rb) = []"
    using rb_init_ok [of rb] assms(1) by (simp_all add: fw_ring_buffer_capacity_def)
  have "fw_ring_buffer_size rb' = length (rb_items rb')"
    by (simp add: fw_ring_buffer_size_def rb_items_def)
  with rb.run_refines [OF ok(1) assms(2)] rb.run_fifo [OF ok(1) assms(2)] show ?thesis
    unfolding ok(2) fw_ring_buffer_capacity_def by simp
qed

lemma fw_ring_buffer_refines_witness:
  "\<exists>rb'. fifo_run fw_ring_buffer_push fw_ring_buffer_pop [Pop, Push 7, Push 9, Pop]
      (fw_ring_buffer_init \<lparr>rb_data = replicate 8 0, rb_head = 3, rb_tail = 5, rb_count = 1\<rparr>) =
      ([7], [7, 9], rb') \<and> rb_items rb' = [9]"
proof -
  let ?rb = "\<lparr>rb_data = replicate 8 0, rb_head = 3, rb_tail = 5, rb_count = 1\<rparr>"
  obtain out acc rb' where run: "fifo_run fw_ring_buffer_push fw_ring_buffer_pop
      [Pop, Push 7, Push 9, Pop] (fw_ring_buffer_init ?rb) = (out, acc, rb')"
    using prod_cases3 by blast
  have "length (rb_data ?rb) = 8" by simp
  note ref = fw_ring_buffer_refines [OF this run]
  have "fifo_run (list_push 8) list_pop [Pop, Push 7, Push 9, Pop] [] = ([7], [7, 9], [9 :: u8])"
    by (simp add: list_push_def list_pop_def)
  with ref have "out = [7]" "acc = [7, 9]" "rb_items rb' = [9]" by (metis prod.inject)+
  then show ?thesis using run by blast
qed

section \<open>Firmware units\<close>

text \<open>
  C19. One update of the fixed-point filter with a coefficient between 0 and 1 never wraps: the
  new state is the sum of the two products, each rounded down to a multiple of $1/256$, so it is
  below the exact blend of input and state by less than two units in the last place, at most the
  larger of the two and at least the smaller less one.
\<close>

theorem filter_update_exact:
  assumes "0 \<le> sint (filter_alpha f)" and "sint (filter_alpha f) \<le> 256"
  shows "let (y, f') = filter_update x f;
             a = sint (filter_alpha f);
             blend = a * sint x + (256 - a) * sint (filter_state f)
    in filter_state f' = y \<and> filter_alpha f' = filter_alpha f \<and>
       sint y = (a * sint x) div 256 + ((256 - a) * sint (filter_state f)) div 256 \<and>
       blend - 510 \<le> 256 * sint y \<and> 256 * sint y \<le> blend \<and>
       min (sint x) (sint (filter_state f)) - 1 \<le> sint y \<and>
       sint y \<le> max (sint x) (sint (filter_state f))"
proof -
  obtain y where y: "filter_update x f = (y, f\<lparr>filter_state := y\<rparr>)"
    "sint y = filter_ref (sint (filter_alpha f)) (sint x) (sint (filter_state f))"
    using filter_update_eq [OF assms] by blast
  show ?thesis
    using weighted_div [OF assms, of "min (sint x) (sint (filter_state f))" "sint x"
        "max (sint x) (sint (filter_state f))" "sint (filter_state f)"] y
    by (simp add: Let_def) (simp add: filter_ref_def)
qed

lemma filter_update_exact_witness:
  "sint (fst (filter_update 256 (new_filter 128))) = 128"
proof -
  have a: "0 \<le> sint (filter_alpha (new_filter 128))" "sint (filter_alpha (new_filter 128)) \<le> 256"
    by (simp_all add: new_filter_def)
  from filter_update_exact [OF a, of 256] show ?thesis
    by (simp add: new_filter_def Let_def split: prod.splits)
qed

text \<open>
  \<open>run_filter_sequence\<close> is the recurrence on integers: with a coefficient between 0 and 1 the
  16-bit outputs, one per input, are those of \<open>filter_ref_run\<close> from state zero.
\<close>

theorem run_filter_sequence_ref:
  assumes "0 \<le> sint alpha" and "sint alpha \<le> 256"
  shows "map sint (run_filter_sequence inputs alpha) = filter_ref_run (sint alpha) 0 (map sint inputs)"
  using filter_loop_ref [of "new_filter alpha" inputs "[]"] assms
  by (simp add: run_filter_sequence_def new_filter_def)

lemma run_filter_sequence_ref_witness:
  "map sint (run_filter_sequence [256, 256, 512, 0] 128) = [128, 192, 352, 176]"
proof -
  have a: "0 \<le> sint (128 :: i16)" "sint (128 :: i16) \<le> 256" by simp_all
  show ?thesis
    using run_filter_sequence_ref [OF a, of "[256, 256, 512, 0]"] by (simp add: filter_ref_def)
qed

text \<open>
  The register mock is a register file that starts at zero: after any sequence of writes, reading
  an address gives the last value written to it, and \<open>write_count\<close> is the number of writes.
\<close>

theorem hardware_mock_registers:
  "read_register a (fold (\<lambda>(b, v). write_register b v) ws []) =
     (fold (\<lambda>(b, v) f. f(b := v)) ws (\<lambda>_. 0)) a \<and>
   write_count (fold (\<lambda>(b, v). write_register b v) ws []) = length ws"
proof -
  have "length (fold (\<lambda>(b, v). write_register b v) ws m) = length m + length ws" for m
    by (induction ws arbitrary: m) (auto simp: write_register_def)
  then show ?thesis using read_register_fold by (simp add: write_count_def)
qed

section \<open>Legacy units\<close>

text \<open>
  A compute unit returns what it was issued at the first tick whose cycle has reached issue
  plus latency, exactly once, and nothing at any other tick.
\<close>

theorem compute_unit_completes_once:
  assumes "\<forall>t \<in> set early. t < now + latency" and "now + latency \<le> t"
  shows "fst (cu_ticks (early @ t # later) (cu_issue i now latency u)) =
      replicate (length early) None @ Some i # replicate (length later) None \<and>
    \<not> cu_busy (snd (cu_ticks (early @ t # later) (cu_issue i now latency u)))"
proof -
  have cur: "cu_current (cu_issue i now latency u) = Some i"
    "cu_done_cycle (cu_issue i now latency u) = now + latency"
    by (simp_all add: cu_issue_def)
  have "takeWhile (\<lambda>t. t < now + latency) (early @ t # later) = early"
    using assms by (simp add: takeWhile_append2)
  then show ?thesis
    by (simp add: cu_ticks_issued [OF cur(1), unfolded cur(2)] Let_def cu_busy_def)
qed

lemma compute_unit_completes_once_witness:
  "fst (cu_ticks [10, 12, 16, 17] (cu_issue 3 10 6 new_compute_unit)) = [None, None, Some 3, None]"
  using compute_unit_completes_once [of "[10, 12]" 10 6 16 "[17]" 3 new_compute_unit]
  by (simp add: numeral_2_eq_2)

text \<open>
  With the cycles of a schedule in order and a positive latency, the memory controller
  completes by any tick exactly the requests issued at least the latency before, in issue order.
\<close>

theorem memory_controller_completes:
  assumes "sorted (map event_cycle (es @ [Mc_tick t]))" and "0 < latency"
  shows "map fst (fst (mc_run (es @ [Mc_tick t]) (new_memory_controller latency))) =
    map fst (filter (\<lambda>(i, s). s + latency \<le> t) (issues es))"
proof -
  have le: "u \<le> t" if "u \<in> set (ticks es)" for u
    using subsetD [OF schedule_cycles(1) that] assms(1) by (auto simp: sorted_append)
  have "(\<exists>u \<in> set (ticks (es @ [Mc_tick t])). x \<le> u) \<longleftrightarrow> x \<le> t" for x
    using le by fastforce
  then show ?thesis
    using mc_run_completed [OF assms]
    by (simp add: requests_def filter_map comp_def split_def)
qed

lemma memory_controller_completes_witness:
  "map fst (fst (mc_run [Mc_issue 1 0, Mc_issue 2 5, Mc_tick 20] (new_memory_controller 20))) = [1]"
  using memory_controller_completes [of "[Mc_issue 1 0, Mc_issue 2 5]" 20 20] by simp

end
