(* ===== verification/Performance_Engine.thy ===== *)
theory Performance_Engine
  imports Instruction_Model
begin

text \<open>
  The sequential part of the performance engine, \<open>performance_engine/src/performance_engine.cpp\<close>:
  construction, the work items, \<open>process_work\<close> on 64-bit words and the single-threaded run. Clock
  readings are not modelled here; what the run computes from them is left out of its result. A
  \<open>std::size_t\<close> is a \<open>nat\<close>: a data vector has fewer than $2^{61}$ elements, so no index wraps; the
  product \<open>offset * stride\<close>, which might, is taken in 64 bits.
\<close>

unbundle bit_operations_syntax

section \<open>Configuration, data, metrics\<close>

datatype access_pattern = CacheLocal | CacheUnfriendly

definition access_pattern_name :: "access_pattern \<Rightarrow> string" where
  "access_pattern_name p = (if p = CacheLocal then ''cache_local'' else ''cache_unfriendly'')"

record work_item =
  work_id :: u64
  work_begin :: nat
  work_end :: nat

record benchmark_config =
  worker_count :: nat
  workload_size :: nat
  chunk_size :: nat
  queue_capacity :: nat
  access_pattern :: access_pattern
  queue_batch_size :: nat

definition default_benchmark :: benchmark_config where
  "default_benchmark =
     \<lparr>worker_count = 1, workload_size = 10000, chunk_size = 256, queue_capacity = 1024,
      access_pattern = CacheLocal, queue_batch_size = 1\<rparr>"

record worker_metrics =
  tasks_completed :: u64
  simulated_allocations :: u64
  lock_acquisitions :: u64
  contended_lock_acquisitions :: u64
  lock_wait_ns :: u64
  queue_wait_ns :: u64

definition zero_metrics :: worker_metrics where
  "zero_metrics =
     \<lparr>tasks_completed = 0, simulated_allocations = 0, lock_acquisitions = 0,
      contended_lock_acquisitions = 0, lock_wait_ns = 0, queue_wait_ns = 0\<rparr>"

record engine =
  engine_config :: benchmark_config
  engine_data :: "u64 list"

definition data_word :: "nat \<Rightarrow> u64" where
  "data_word i = (of_nat i * 2654435761) XOR drop_bit 3 (of_nat i)"

definition new_engine :: "benchmark_config \<Rightarrow> engine result" where
  "new_engine config =
     (if worker_count config = 0
      then Inl (Invalid_argument ''worker_count must be greater than zero'')
      else if chunk_size config = 0
      then Inl (Invalid_argument ''chunk_size must be greater than zero'')
      else if queue_batch_size config = 0
      then Inl (Invalid_argument ''queue_batch_size must be greater than zero'')
      else Inr \<lparr>engine_config = config,
                engine_data = map data_word [0..<workload_size config]\<rparr>)"

section \<open>Work items\<close>

text \<open>The loop over \<open>begin\<close> from \<open>b\<close> on; it never ends when the chunk size is zero.\<close>

partial_function (option) items_from ::
  "benchmark_config \<Rightarrow> u64 \<Rightarrow> nat \<Rightarrow> work_item list \<Rightarrow> work_item list option" where
  "items_from config k b items =
     (if b < workload_size config then
        items_from config (k + 1) (b + chunk_size config)
          (items @ [\<lparr>work_id = k, work_begin = b,
                     work_end = min (b + chunk_size config) (workload_size config)\<rparr>])
      else Some items)"

declare items_from.simps [code]

definition build_work_items :: "engine \<Rightarrow> work_item list option" where
  "build_work_items e = items_from (engine_config e) 0 0 []"

text \<open>The items in closed form: the \<open>k\<close>-th starts at \<open>k\<close> chunks.\<close>

definition work_item_at :: "nat \<Rightarrow> nat \<Rightarrow> nat \<Rightarrow> work_item" where
  "work_item_at n c k = \<lparr>work_id = of_nat k, work_begin = k * c, work_end = min (k * c + c) n\<rparr>"

definition item_count :: "nat \<Rightarrow> nat \<Rightarrow> nat" where
  "item_count n c = (n + c - 1) div c"

definition work_items :: "benchmark_config \<Rightarrow> work_item list" where
  "work_items config = map (work_item_at (workload_size config) (chunk_size config))
     [0..<item_count (workload_size config) (chunk_size config)]"

lemma item_count_less: "0 < c \<Longrightarrow> k < item_count n c \<longleftrightarrow> k * c < n"
proof -
  assume c: "0 < c"
  have "k < item_count n c \<longleftrightarrow> Suc k * c \<le> n + c - 1"
    using c by (simp add: item_count_def less_eq_div_iff_mult_less_eq Suc_le_eq [symmetric])
  also have "\<dots> \<longleftrightarrow> k * c < n" using c by auto
  finally show ?thesis .
qed

lemma items_from_eq:
  assumes "0 < chunk_size config"
  shows "items_from config (of_nat k) (k * chunk_size config) items =
    Some (items @ map (work_item_at (workload_size config) (chunk_size config))
      [k..<item_count (workload_size config) (chunk_size config)])"
proof (induction "workload_size config - k * chunk_size config" arbitrary: k items rule: less_induct)
  case less
  let ?n = "workload_size config" and ?c = "chunk_size config"
  show ?case
  proof (cases "k * ?c < ?n")
    case True
    then have lt: "k < item_count ?n ?c" using item_count_less [OF assms] by simp
    have "?n - Suc k * ?c < ?n - k * ?c" using True assms by simp
    note IH = less [OF this, of "items @ [work_item_at ?n ?c k]"]
    have "items_from config (of_nat k) (k * ?c) items =
        items_from config (of_nat (Suc k)) (Suc k * ?c) (items @ [work_item_at ?n ?c k])"
      using True by (subst items_from.simps) (simp add: work_item_at_def add.commute)
    then show ?thesis unfolding IH using lt by (simp add: upt_conv_Cons)
  next
    case False
    then have "\<not> k < item_count ?n ?c" using item_count_less [OF assms] by simp
    then show ?thesis using False by (subst items_from.simps) simp
  qed
qed

lemma build_work_items_eq:
  "0 < chunk_size (engine_config e) \<Longrightarrow> build_work_items e = Some (work_items (engine_config e))"
  using items_from_eq [of "engine_config e" 0 "[]"] by (simp add: build_work_items_def work_items_def)

lemma work_items_cover:
  assumes "0 < c"
  shows "concat (map (\<lambda>w. [work_begin w..<work_end w]) (map (work_item_at n c) [0..<k])) =
    [0..<min (k * c) n]"
proof (induction k)
  case 0
  show ?case by simp
next
  case (Suc k)
  have "[0..<min (k * c) n] @ [k * c..<min (k * c + c) n] = [0..<min (Suc k * c) n]"
  proof (cases "k * c \<le> n")
    case True
    then obtain d where "min (k * c + c) n = k * c + d" by (metis le_Suc_ex le_add1 min.bounded_iff)
    then show ?thesis using True upt_add_eq_append [of 0 "k * c" d] by (simp add: add.commute)
  next
    case False
    then show ?thesis by (simp add: min_def)
  qed
  then show ?case using Suc by (simp add: work_item_at_def)
qed

section \<open>Processing an item\<close>

definition item_value :: "engine \<Rightarrow> nat \<Rightarrow> u64" where
  "item_value e i = (engine_data e ! i) XOR of_nat (i * 17)"

definition stride :: nat where
  "stride = 67"

text \<open>\<open>begin + ((offset * stride) % span)\<close>, the product in 64 bits.\<close>

definition stride_index :: "nat \<Rightarrow> nat \<Rightarrow> nat \<Rightarrow> nat" where
  "stride_index b span offset = b + unat (of_nat (offset * stride) :: u64) mod span"

text \<open>The visiting loop: the values read, in order, and their sum.\<close>

fun visit :: "engine \<Rightarrow> nat list \<Rightarrow> u64 list \<Rightarrow> u64 \<Rightarrow> u64 list \<times> u64" where
  "visit e [] temporary local_checksum = (temporary, local_checksum)"
| "visit e (i # is) temporary local_checksum =
     (let value = item_value e i in visit e is (temporary @ [value]) (local_checksum + value))"

text \<open>The loop over adjacent elements of the sorted values.\<close>

fun xor_differences :: "u64 list \<Rightarrow> u64 \<Rightarrow> u64" where
  "xor_differences (a # b # rest) local_checksum = xor_differences (b # rest) (local_checksum XOR (b - a))"
| "xor_differences xs local_checksum = local_checksum"

definition visit_order :: "access_pattern \<Rightarrow> work_item \<Rightarrow> nat list" where
  "visit_order p work =
     (if p = CacheLocal then [work_begin work..<work_end work]
      else map (stride_index (work_begin work) (work_end work - work_begin work))
             [0..<work_end work - work_begin work])"

definition process_work :: "engine \<Rightarrow> work_item \<Rightarrow> worker_metrics \<Rightarrow> u64 \<times> worker_metrics" where
  "process_work e work metrics =
     (let metrics = metrics\<lparr>simulated_allocations := simulated_allocations metrics + 1\<rparr>;
          pattern = access_pattern (engine_config e)
      in if pattern = CacheUnfriendly \<and> work_end work - work_begin work = 0 then (0, metrics)
         else (let (temporary, local_checksum) = visit e (visit_order pattern work) [] 0;
                   temporary = sort temporary
               in (xor_differences temporary local_checksum,
                   metrics\<lparr>tasks_completed := tasks_completed metrics + 1\<rparr>)))"

definition task_checksum :: "engine \<Rightarrow> work_item \<Rightarrow> u64" where
  "task_checksum e work = fst (process_work e work zero_metrics)"

lemma visit_eq:
  "visit e is tmp s = (tmp @ map (item_value e) is, s + (\<Sum>i\<leftarrow>is. item_value e i))"
  by (induction "is" arbitrary: tmp s) (simp_all add: Let_def add.assoc)

lemma process_work_checksum: "fst (process_work e work metrics) = task_checksum e work"
  by (simp add: task_checksum_def process_work_def Let_def split: prod.splits)

lemma process_work_nonempty:
  "work_begin work < work_end work \<Longrightarrow>
   snd (process_work e work metrics) =
     metrics\<lparr>simulated_allocations := simulated_allocations metrics + 1,
             tasks_completed := tasks_completed metrics + 1\<rparr>"
  by (simp add: process_work_def Let_def visit_eq)

text \<open>The checksum of an item depends only on which positions it visits.\<close>

lemma task_checksum_visit:
  "work_begin work < work_end work \<Longrightarrow>
   task_checksum e work =
     (let is = visit_order (access_pattern (engine_config e)) work
      in xor_differences (sort (map (item_value e) is)) (\<Sum>i\<leftarrow>is. item_value e i))"
  by (simp add: task_checksum_def process_work_def Let_def visit_eq)

lemma dvd_less_zero: "(n :: nat) dvd k \<Longrightarrow> k < n \<Longrightarrow> k = 0"
  using dvd_imp_le by (cases k) fastforce+

lemma stride_bijective:
  assumes "coprime 67 span" and "span \<le> 2 ^ 57"
  shows "mset (map (stride_index b span) [0..<span]) = mset [b..<b + span]"
proof -
  have idx: "stride_index b span k = b + (k * 67) mod span" if "k < span" for k
  proof -
    have "k * 67 < 2 ^ 64" using that assms(2) by simp
    then have "unat (of_nat (k * 67) :: u64) = k * 67"
      by (simp only: unsigned_of_nat) (simp add: take_bit_nat_eq_self)
    then show ?thesis by (simp only: stride_index_def stride_def)
  qed
  have same: "x = y" if "x \<le> y" "y < span" "(x * 67) mod span = (y * 67) mod span" for x y
  proof -
    have "span dvd y * 67 - x * 67"
      using that(1,3) by (simp add: mod_eq_dvd_iff_nat [symmetric])
    then have "span dvd (y - x) * 67" by (simp add: diff_mult_distrib)
    then have "span dvd y - x" using assms(1) by (simp add: coprime_dvd_mult_left_iff coprime_commute)
    moreover have "y - x < span" using that(2) by linarith
    ultimately have "y - x = 0" by (rule dvd_less_zero)
    then show "x = y" using that(1) by simp
  qed
  have inj: "inj_on (stride_index b span) {0..<span}"
  proof (rule inj_onI)
    fix x y assume x: "x \<in> {0..<span}" and y: "y \<in> {0..<span}"
      and eq: "stride_index b span x = stride_index b span y"
    then have m: "(x * 67) mod span = (y * 67) mod span" by (simp add: idx)
    show "x = y"
    proof (cases "x \<le> y")
      case True
      from same [OF True _ m] y show ?thesis by (simp only: atLeastLessThan_iff)
    next
      case False
      then have "y \<le> x" by simp
      from same [OF this _ m [symmetric]] x show ?thesis by (simp only: atLeastLessThan_iff)
    qed
  qed
  have sub: "stride_index b span ` {0..<span} \<subseteq> {b..<b + span}"
    using idx by (auto simp: mod_less_divisor)
  have "stride_index b span ` {0..<span} = {b..<b + span}"
    by (rule card_subset_eq) (use sub inj in \<open>simp_all add: card_image\<close>)
  then have "mset_set (stride_index b span ` {0..<span}) = mset [b..<b + span]"
    by (simp add: mset_upt)
  then show ?thesis using inj by (simp add: image_mset_mset_set [symmetric] mset_upt)
qed

lemma task_checksum_order:
  assumes "mset (visit_order (access_pattern (engine_config e)) work) = mset [work_begin work..<work_end work]"
    and "work_begin work < work_end work"
  shows "task_checksum e work =
    xor_differences (sort (map (item_value e) [work_begin work..<work_end work]))
      (\<Sum>i\<leftarrow>[work_begin work..<work_end work]. item_value e i)"
proof -
  let ?is = "visit_order (access_pattern (engine_config e)) work" and ?r = "[work_begin work..<work_end work]"
  have m: "mset (map (item_value e) ?is) = mset (map (item_value e) ?r)"
    using assms(1) by simp
  then have "sort (map (item_value e) ?is) = sort (map (item_value e) ?r)"
    by (metis mset_sort properties_for_sort sorted_sort)
  moreover have "(\<Sum>i\<leftarrow>?is. item_value e i) = (\<Sum>i\<leftarrow>?r. item_value e i)"
    using m by (metis sum_mset_sum_list)
  ultimately show ?thesis using task_checksum_visit [OF assms(2)] by (simp only: Let_def)
qed

section \<open>The single-threaded run\<close>

fun run_items :: "engine \<Rightarrow> work_item list \<Rightarrow> u64 \<Rightarrow> worker_metrics \<Rightarrow> u64 \<times> worker_metrics" where
  "run_items e [] checksum metrics = (checksum, metrics)"
| "run_items e (item # rest) checksum metrics =
     (let (c, metrics) = process_work e item metrics in run_items e rest (checksum XOR c) metrics)"

text \<open>
  \<open>run_single_threaded\<close> less its clock readings: the checksum, the metrics and the number of tasks
  that it passes to \<open>build_result\<close>.
\<close>

definition run_single_threaded :: "engine \<Rightarrow> (u64 \<times> worker_metrics \<times> nat) option" where
  "run_single_threaded e =
     (case build_work_items e of
        None \<Rightarrow> None
      | Some items \<Rightarrow> (let (checksum, metrics) = run_items e items 0 zero_metrics
                      in Some (checksum, metrics, length items)))"

definition xor_list :: "u64 list \<Rightarrow> u64" where
  "xor_list xs = foldr (XOR) xs 0"

lemma xor_list_simps [simp]:
  "xor_list [] = 0" "xor_list (x # xs) = x XOR xor_list xs"
  "xor_list (xs @ ys) = xor_list xs XOR xor_list ys"
proof -
  show "xor_list [] = 0" "xor_list (x # xs) = x XOR xor_list xs" for x xs
    by (simp_all add: xor_list_def)
  then show "xor_list (xs @ ys) = xor_list xs XOR xor_list ys"
    by (induction xs) (simp_all add: xor.assoc)
qed

lemma xor_list_mset: "mset xs = mset ys \<Longrightarrow> xor_list xs = xor_list ys"
proof (induction xs arbitrary: ys)
  case Nil
  then show ?case by simp
next
  case (Cons x xs)
  then have "x \<in> set ys" by (metis list.set_intros(1) set_mset_mset)
  then obtain as bs where ys: "ys = as @ x # bs" by (auto simp: in_set_conv_decomp)
  then have "mset xs = mset (as @ bs)" using Cons.prems by simp
  then have "xor_list xs = xor_list (as @ bs)" by (rule Cons.IH)
  then show ?case by (simp add: ys xor.left_commute)
qed

lemma run_items_eq:
  "\<forall>w \<in> set items. work_begin w < work_end w \<Longrightarrow>
   run_items e items c m =
     (c XOR xor_list (map (task_checksum e) items),
      m\<lparr>simulated_allocations := simulated_allocations m + of_nat (length items),
        tasks_completed := tasks_completed m + of_nat (length items)\<rparr>)"
proof (induction items arbitrary: c m)
  case Nil
  then show ?case by simp
next
  case (Cons w items)
  have "process_work e w m = (task_checksum e w,
      m\<lparr>simulated_allocations := simulated_allocations m + 1, tasks_completed := tasks_completed m + 1\<rparr>)"
    using process_work_nonempty [of w e m] process_work_checksum [of e w m] Cons.prems
    by (simp add: prod_eq_iff)
  then show ?case using Cons by (simp add: xor.assoc add.assoc)
qed

lemma work_items_nonempty:
  assumes "0 < chunk_size config" and "w \<in> set (work_items config)"
  shows "work_begin w < work_end w"
  using assms item_count_less [OF assms(1)] by (auto simp: work_items_def work_item_at_def)

lemma run_single_threaded_eq:
  assumes "0 < chunk_size (engine_config e)"
  shows "run_single_threaded e =
    (let items = work_items (engine_config e) in
       Some (xor_list (map (task_checksum e) items),
         zero_metrics\<lparr>simulated_allocations := of_nat (length items),
           tasks_completed := of_nat (length items)\<rparr>, length items))"
  using run_items_eq [of "work_items (engine_config e)" e 0 zero_metrics]
    work_items_nonempty [OF assms] build_work_items_eq [OF assms]
  by (simp add: run_single_threaded_def Let_def zero_metrics_def)

end
