(* ===== verification/Worker_Pool.thy ===== *)
theory Worker_Pool
  imports Performance_Engine
begin

text \<open>
  \<open>PerformanceEngine::run_multithreaded\<close>, \<open>performance_engine/src/performance_engine.cpp\<close>: a producer
  thread that pushes the work items onto a bounded queue and a pool of workers that take batches
  from it, as a step relation. A step is what one thread does between two points at which another
  can interfere: a critical section of the queue mutex (a worker's from the acquisition, or from the
  wake-up of its wait, to the release or to the wait; the producer's push with its \<open>notify_one\<close>), one
  task of a batch, or the merge under the metrics mutex. Waiting on a condition variable is a phase
  of the thread; a notification moves waiting threads on, and \<open>spurious\<close> admits the wake-ups without
  one that the standard permits. What the steady clock says and whether \<open>try_lock\<close> fails are free in
  every step. Latencies are kept in the clock's nanoseconds. First the relation, then the invariants:
  \<open>pool_inv\<close> accounts for every task and checksum, \<open>thread_inv\<close> for who may wait.
\<close>

unbundle bit_operations_syntax

section \<open>The threads\<close>

datatype worker_phase = Locking | Sleeping | Waking | Running "work_item list" | Merging | Finished

record worker =
  worker_phase :: worker_phase
  worker_metrics :: worker_metrics
  worker_latencies :: "u64 list"

datatype producer =
  Pushing "work_item list" | Blocked "work_item list" | Notifying | Joining | Returned

record pool =
  pool_queue :: "work_item list"
  producer_finished :: bool
  pool_producer :: producer
  pool_workers :: "worker list"
  pool_checksum :: u64
  aggregate_metrics :: worker_metrics
  aggregate_latencies :: "u64 list"

definition new_worker :: worker where
  "new_worker = \<lparr>worker_phase = Locking, worker_metrics = zero_metrics, worker_latencies = []\<rparr>"

definition initial_pool :: "engine \<Rightarrow> work_item list \<Rightarrow> pool" where
  "initial_pool e items =
     \<lparr>pool_queue = [], producer_finished = False, pool_producer = Pushing items,
      pool_workers = replicate (worker_count (engine_config e)) new_worker,
      pool_checksum = 0, aggregate_metrics = zero_metrics, aggregate_latencies = []\<rparr>"

section \<open>What the threads do\<close>

definition set_worker :: "nat \<Rightarrow> worker \<Rightarrow> pool \<Rightarrow> pool" where
  "set_worker i w s = s\<lparr>pool_workers := (pool_workers s)[i := w]\<rparr>"

text \<open>The lock was acquired after \<open>wait_ns\<close>; \<open>contended\<close> is the failure of \<open>try_lock\<close>.\<close>

definition count_lock :: "bool \<Rightarrow> u64 \<Rightarrow> worker \<Rightarrow> worker" where
  "count_lock contended wait_ns w =
     (let m = worker_metrics w;
          m = (if contended then m\<lparr>contended_lock_acquisitions := contended_lock_acquisitions m + 1\<rparr> else m);
          m = m\<lparr>lock_acquisitions := lock_acquisitions m + 1\<rparr>;
          m = m\<lparr>lock_wait_ns := lock_wait_ns m + wait_ns\<rparr>
      in w\<lparr>worker_metrics := m\<rparr>)"

text \<open>\<open>queue_not_full.notify_all()\<close>: only the producer waits there.\<close>

definition notify_not_full :: "producer \<Rightarrow> producer" where
  "notify_not_full p = (case p of Blocked xs \<Rightarrow> Pushing xs | _ \<Rightarrow> p)"

text \<open>A worker that holds the queue lock: the predicate of its wait, and what follows it.\<close>

definition decide :: "engine \<Rightarrow> nat \<Rightarrow> worker \<Rightarrow> pool \<Rightarrow> pool" where
  "decide e i w s =
     (if pool_queue s = [] \<and> \<not> producer_finished s
      then set_worker i (w\<lparr>worker_phase := Sleeping\<rparr>) s
      else if pool_queue s = [] \<and> producer_finished s
      then set_worker i (w\<lparr>worker_phase := Merging\<rparr>) s
      else
        (let tasks_to_take = min (queue_batch_size (engine_config e)) (length (pool_queue s));
             task_batch = take tasks_to_take (pool_queue s);
             s = s\<lparr>pool_queue := drop tasks_to_take (pool_queue s),
                   pool_producer := notify_not_full (pool_producer s)\<rparr>
         in set_worker i (w\<lparr>worker_phase := Running task_batch\<rparr>) s))"

text \<open>One task of a batch; \<open>queued_ns\<close> and \<open>latency\<close> are the clock readings.\<close>

definition run_task :: "engine \<Rightarrow> nat \<Rightarrow> worker \<Rightarrow> work_item \<Rightarrow> work_item list \<Rightarrow> u64 \<Rightarrow> u64 \<Rightarrow> pool \<Rightarrow> pool" where
  "run_task e i w t ts queued_ns latency s =
     (let m = worker_metrics w;
          m = m\<lparr>queue_wait_ns := queue_wait_ns m + queued_ns\<rparr>;
          (c, m) = process_work e t m;
          w = w\<lparr>worker_phase := Running ts, worker_metrics := m,
                worker_latencies := worker_latencies w @ [latency]\<rparr>
      in set_worker i w (s\<lparr>pool_checksum := pool_checksum s XOR c\<rparr>))"

definition add_metrics :: "worker_metrics \<Rightarrow> worker_metrics \<Rightarrow> worker_metrics" where
  "add_metrics a b =
     \<lparr>tasks_completed = tasks_completed a + tasks_completed b,
      simulated_allocations = simulated_allocations a + simulated_allocations b,
      lock_acquisitions = lock_acquisitions a + lock_acquisitions b,
      contended_lock_acquisitions = contended_lock_acquisitions a + contended_lock_acquisitions b,
      lock_wait_ns = lock_wait_ns a + lock_wait_ns b,
      queue_wait_ns = queue_wait_ns a + queue_wait_ns b\<rparr>"

definition merge_worker :: "nat \<Rightarrow> worker \<Rightarrow> pool \<Rightarrow> pool" where
  "merge_worker i w s =
     set_worker i (w\<lparr>worker_phase := Finished\<rparr>)
       (s\<lparr>aggregate_metrics := add_metrics (aggregate_metrics s) (worker_metrics w),
          aggregate_latencies := aggregate_latencies s @ worker_latencies w\<rparr>)"

definition wake_worker :: "nat \<Rightarrow> pool \<Rightarrow> pool" where
  "wake_worker i s = set_worker i ((pool_workers s ! i)\<lparr>worker_phase := Waking\<rparr>) s"

definition push_item :: "work_item \<Rightarrow> work_item list \<Rightarrow> pool \<Rightarrow> pool" where
  "push_item x xs s = s\<lparr>pool_queue := pool_queue s @ [x], pool_producer := Pushing xs\<rparr>"

definition notify_sleeper :: "worker \<Rightarrow> worker" where
  "notify_sleeper w = (if worker_phase w = Sleeping then w\<lparr>worker_phase := Waking\<rparr> else w)"

inductive pool_step :: "engine \<Rightarrow> bool \<Rightarrow> pool \<Rightarrow> pool \<Rightarrow> bool" for e :: engine and spurious :: bool where
  acquire: "i < length (pool_workers s) \<Longrightarrow> w = pool_workers s ! i \<Longrightarrow> worker_phase w = Locking \<Longrightarrow>
    pool_step e spurious s (decide e i (count_lock contended wait_ns w) s)"
| reacquire: "i < length (pool_workers s) \<Longrightarrow> w = pool_workers s ! i \<Longrightarrow> worker_phase w = Waking \<Longrightarrow>
    pool_step e spurious s (decide e i w s)"
| task: "i < length (pool_workers s) \<Longrightarrow> w = pool_workers s ! i \<Longrightarrow> worker_phase w = Running (t # ts) \<Longrightarrow>
    pool_step e spurious s (run_task e i w t ts queued_ns latency s)"
| again: "i < length (pool_workers s) \<Longrightarrow> w = pool_workers s ! i \<Longrightarrow> worker_phase w = Running [] \<Longrightarrow>
    pool_step e spurious s (set_worker i (w\<lparr>worker_phase := Locking\<rparr>) s)"
| merge: "i < length (pool_workers s) \<Longrightarrow> w = pool_workers s ! i \<Longrightarrow> worker_phase w = Merging \<Longrightarrow>
    pool_step e spurious s (merge_worker i w s)"
| push_wake: "pool_producer s = Pushing (x # xs) \<Longrightarrow>
    length (pool_queue s) < queue_capacity (engine_config e) \<Longrightarrow>
    i < length (pool_workers s) \<Longrightarrow> worker_phase (pool_workers s ! i) = Sleeping \<Longrightarrow>
    pool_step e spurious s (wake_worker i (push_item x xs s))"
| push_quiet: "pool_producer s = Pushing (x # xs) \<Longrightarrow>
    length (pool_queue s) < queue_capacity (engine_config e) \<Longrightarrow>
    \<forall>w \<in> set (pool_workers s). worker_phase w \<noteq> Sleeping \<Longrightarrow>
    pool_step e spurious s (push_item x xs s)"
| block: "pool_producer s = Pushing (x # xs) \<Longrightarrow>
    \<not> length (pool_queue s) < queue_capacity (engine_config e) \<Longrightarrow>
    pool_step e spurious s (s\<lparr>pool_producer := Blocked (x # xs)\<rparr>)"
| finish: "pool_producer s = Pushing [] \<Longrightarrow>
    pool_step e spurious s (s\<lparr>producer_finished := True, pool_producer := Notifying\<rparr>)"
| notify: "pool_producer s = Notifying \<Longrightarrow>
    pool_step e spurious s
      (s\<lparr>pool_workers := map notify_sleeper (pool_workers s), pool_producer := Joining\<rparr>)"
| join: "pool_producer s = Joining \<Longrightarrow> \<forall>w \<in> set (pool_workers s). worker_phase w = Finished \<Longrightarrow>
    pool_step e spurious s (s\<lparr>pool_producer := Returned\<rparr>)"
| worker_spurious: "spurious \<Longrightarrow> i < length (pool_workers s) \<Longrightarrow>
    worker_phase (pool_workers s ! i) = Sleeping \<Longrightarrow> pool_step e spurious s (wake_worker i s)"
| producer_spurious: "spurious \<Longrightarrow> pool_producer s = Blocked xs \<Longrightarrow>
    pool_step e spurious s (s\<lparr>pool_producer := Pushing xs\<rparr>)"

text \<open>A run of the pool on an engine whose chunk size is positive, spurious wake-ups included.\<close>

definition pool_reach :: "engine \<Rightarrow> pool \<Rightarrow> bool" where
  "pool_reach e s \<longleftrightarrow> (\<exists>items. build_work_items e = Some items \<and>
     (pool_step e True)\<^sup>*\<^sup>* (initial_pool e items) s)"

section \<open>Outstanding work\<close>

definition running_tasks :: "worker \<Rightarrow> work_item list" where
  "running_tasks w = (case worker_phase w of Running ts \<Rightarrow> ts | _ \<Rightarrow> [])"

definition unqueued :: "producer \<Rightarrow> work_item list" where
  "unqueued p = (case p of Pushing xs \<Rightarrow> xs | Blocked xs \<Rightarrow> xs | _ \<Rightarrow> [])"

definition pending :: "pool \<Rightarrow> work_item list" where
  "pending s = concat (map running_tasks (pool_workers s)) @ pool_queue s @ unqueued (pool_producer s)"

text \<open>What a worker has counted and not merged yet.\<close>

definition unmerged :: "(worker_metrics \<Rightarrow> u64) \<Rightarrow> worker \<Rightarrow> u64" where
  "unmerged f w = (if worker_phase w = Finished then 0 else f (worker_metrics w))"

definition counted :: "(worker_metrics \<Rightarrow> u64) \<Rightarrow> pool \<Rightarrow> u64" where
  "counted f s = f (aggregate_metrics s) + (\<Sum>w\<leftarrow>pool_workers s. unmerged f w)"

definition pool_inv :: "engine \<Rightarrow> work_item list \<Rightarrow> pool \<Rightarrow> bool" where
  "pool_inv e items s \<longleftrightarrow>
     pool_checksum s XOR xor_list (map (task_checksum e) (pending s)) =
       xor_list (map (task_checksum e) items) \<and>
     counted tasks_completed s + of_nat (length (pending s)) = of_nat (length items) \<and>
     counted simulated_allocations s + of_nat (length (pending s)) = of_nat (length items) \<and>
     set (pending s) \<subseteq> set items"

lemma split_workers:
  assumes "i < length ws"
  obtains as bs where "ws = as @ ws ! i # bs" and "\<And>v. ws[i := v] = as @ v # bs"
  using assms id_take_nth_drop [of i ws] upd_conv_take_nth_drop [of i ws] by blast

lemma running_tasks_simps [simp]:
  "worker_phase w = Running ts \<Longrightarrow> running_tasks w = ts"
  "worker_phase w = Locking \<Longrightarrow> running_tasks w = []"
  "worker_phase w = Waking \<Longrightarrow> running_tasks w = []"
  "worker_phase w = Sleeping \<Longrightarrow> running_tasks w = []"
  "worker_phase w = Merging \<Longrightarrow> running_tasks w = []"
  "worker_phase w = Finished \<Longrightarrow> running_tasks w = []"
  by (simp_all add: running_tasks_def)

lemma xor_cancel_mid: "(a :: u64) XOR (b XOR c) = b XOR (a XOR c)"
  by (simp add: xor.left_commute)

text \<open>Replacing one worker, with what it ran and counted before and after.\<close>

lemma pool_inv_set_worker:
  assumes inv: "pool_inv e items s" and i: "i < length (pool_workers s)"
    and workers: "pool_workers t = (pool_workers s)[i := v]"
    and front: "mset (running_tasks v) + mset (pool_queue t) + mset (unqueued (pool_producer t)) + mset gone =
      mset (running_tasks (pool_workers s ! i)) + mset (pool_queue s) + mset (unqueued (pool_producer s))"
    and sum: "pool_checksum t = pool_checksum s XOR xor_list (map (task_checksum e) gone)"
    and tasks: "tasks_completed (aggregate_metrics t) + unmerged tasks_completed v =
      tasks_completed (aggregate_metrics s) + unmerged tasks_completed (pool_workers s ! i) + of_nat (length gone)"
    and allocs: "simulated_allocations (aggregate_metrics t) + unmerged simulated_allocations v =
      simulated_allocations (aggregate_metrics s) + unmerged simulated_allocations (pool_workers s ! i) +
      of_nat (length gone)"
  shows "pool_inv e items t"
proof -
  obtain as bs where ws: "pool_workers s = as @ pool_workers s ! i # bs" "pool_workers t = as @ v # bs"
    using split_workers [OF i] workers by metis
  have m: "mset (pending t) + mset gone = mset (pending s)"
    using front unfolding pending_def by (subst ws(1), subst ws(2)) (simp add: ac_simps)
  then have pend: "mset (pending s) = mset (gone @ pending t)" by (simp add: add.commute)
  have x: "xor_list (map (task_checksum e) (pending s)) =
      xor_list (map (task_checksum e) gone) XOR xor_list (map (task_checksum e) (pending t))"
    using xor_list_mset [of "map (task_checksum e) (pending s)" "map (task_checksum e) (gone @ pending t)"]
      pend by simp
  have len: "length (pending s) = length gone + length (pending t)"
    using arg_cong [OF pend, of size] by simp
  have sub: "set (pending t) \<subseteq> set (pending s)"
    using arg_cong [OF pend, of set_mset] by auto
  have c: "counted f t = counted f s + of_nat (length gone)"
    if "f (aggregate_metrics t) + unmerged f v =
      f (aggregate_metrics s) + unmerged f (pool_workers s ! i) + of_nat (length gone)" for f
  proof -
    have "counted f t = f (aggregate_metrics t) + unmerged f v + ((\<Sum>w\<leftarrow>as. unmerged f w) + (\<Sum>w\<leftarrow>bs. unmerged f w))"
      unfolding counted_def ws(2) by simp
    moreover have "counted f s = f (aggregate_metrics s) + unmerged f (pool_workers s ! i) +
        ((\<Sum>w\<leftarrow>as. unmerged f w) + (\<Sum>w\<leftarrow>bs. unmerged f w))"
      unfolding counted_def by (subst ws(1)) simp
    ultimately show ?thesis using that by simp
  qed
  show ?thesis
    using inv c [OF tasks] c [OF allocs] sub x len sum unfolding pool_inv_def
    by (simp add: xor.assoc add.assoc) blast
qed

text \<open>The producer's moves.\<close>

lemma pool_inv_frame:
  assumes "pool_inv e items s" and "mset (pending t) = mset (pending s)"
    and "pool_checksum t = pool_checksum s" and "counted tasks_completed t = counted tasks_completed s"
    and "counted simulated_allocations t = counted simulated_allocations s"
  shows "pool_inv e items t"
proof -
  have "xor_list (map (task_checksum e) (pending t)) = xor_list (map (task_checksum e) (pending s))"
    using assms(2) by (intro xor_list_mset) simp
  moreover have "length (pending t) = length (pending s)" "set (pending t) = set (pending s)"
    using arg_cong [OF assms(2), of size] arg_cong [OF assms(2), of set_mset] by simp_all
  ultimately show ?thesis using assms by (simp add: pool_inv_def)
qed

lemma unmerged_phase:
  "worker_phase w \<noteq> Finished \<Longrightarrow> p \<noteq> Finished \<Longrightarrow>
     unmerged f (w\<lparr>worker_phase := p\<rparr>) = unmerged f w"
  by (simp add: unmerged_def)

lemma notify_not_full_unqueued [simp]: "unqueued (notify_not_full p) = unqueued p"
  by (cases p) (simp_all add: notify_not_full_def unqueued_def)

lemma count_lock_simps [simp]:
  "worker_phase (count_lock c t w) = worker_phase w"
  "tasks_completed (worker_metrics (count_lock c t w)) = tasks_completed (worker_metrics w)"
  "simulated_allocations (worker_metrics (count_lock c t w)) = simulated_allocations (worker_metrics w)"
  by (simp_all add: count_lock_def Let_def)

lemma decide_inv:
  assumes inv: "pool_inv e items s" and i: "i < length (pool_workers s)"
    and old: "worker_phase (pool_workers s ! i) \<in> {Locking, Waking}"
    and w: "tasks_completed (worker_metrics w) = tasks_completed (worker_metrics (pool_workers s ! i))"
      "simulated_allocations (worker_metrics w) = simulated_allocations (worker_metrics (pool_workers s ! i))"
  shows "pool_inv e items (decide e i w s)"
proof -
  let ?k = "min (queue_batch_size (engine_config e)) (length (pool_queue s))"
  let ?p = "if pool_queue s = [] \<and> \<not> producer_finished s then Sleeping
    else if pool_queue s = [] \<and> producer_finished s then Merging else Running (take ?k (pool_queue s))"
  have split: "mset (take ?k (pool_queue s)) + mset (drop ?k (pool_queue s)) = mset (pool_queue s)"
    by (metis append_take_drop_id mset_append)
  have old': "running_tasks (pool_workers s ! i) = []" using old by auto
  show ?thesis
    by (rule pool_inv_set_worker [OF inv i, where v = "w\<lparr>worker_phase := ?p\<rparr>" and gone = "[]"])
      (use old old' w split in \<open>auto simp: decide_def set_worker_def Let_def unmerged_def\<close>)
qed


lemma run_task_inv:
  assumes inv: "pool_inv e items s" and i: "i < length (pool_workers s)"
    and w: "w = pool_workers s ! i" "worker_phase w = Running (t # ts)"
    and ne: "work_begin t < work_end t"
  shows "pool_inv e items (run_task e i w t ts q l s)"
proof -
  have p: "process_work e t m = (task_checksum e t,
      m\<lparr>simulated_allocations := simulated_allocations m + 1, tasks_completed := tasks_completed m + 1\<rparr>)" for m
    using process_work_nonempty [OF ne, of e m] process_work_checksum [of e t m] by (simp add: prod_eq_iff)
  let ?m = "(worker_metrics w)\<lparr>queue_wait_ns := queue_wait_ns (worker_metrics w) + q\<rparr>"
  let ?v = "w\<lparr>worker_phase := Running ts, worker_metrics := snd (process_work e t ?m),
    worker_latencies := worker_latencies w @ [l]\<rparr>"
  have eq: "run_task e i w t ts q l s = set_worker i ?v
      (s\<lparr>pool_checksum := pool_checksum s XOR task_checksum e t\<rparr>)"
    by (simp add: run_task_def Let_def p)
  show ?thesis
    unfolding eq
    by (rule pool_inv_set_worker [OF inv i, where v = ?v and gone = "[t]"])
      (use w in \<open>simp_all add: set_worker_def p unmerged_def\<close>)
qed

lemma wake_worker_inv:
  assumes "pool_inv e items s" and "i < length (pool_workers s)"
    and "worker_phase (pool_workers s ! i) = Sleeping"
  shows "pool_inv e items (wake_worker i s)"
  by (rule pool_inv_set_worker [OF assms(1,2), where v = "(pool_workers s ! i)\<lparr>worker_phase := Waking\<rparr>"
        and gone = "[]"])
    (use assms(3) in \<open>simp_all add: wake_worker_def set_worker_def unmerged_def\<close>)

lemma push_item_inv:
  assumes "pool_inv e items s" and "pool_producer s = Pushing (x # xs)"
  shows "pool_inv e items (push_item x xs s)"
  by (rule pool_inv_frame [OF assms(1)])
    (use assms(2) in \<open>simp_all add: push_item_def pending_def unqueued_def counted_def\<close>)

lemma notify_sleeper_simps [simp]:
  "running_tasks (notify_sleeper w) = running_tasks w"
  "unmerged f (notify_sleeper w) = unmerged f w"
  by (simp_all add: notify_sleeper_def unmerged_def)

lemma pool_step_inv:
  "pool_step e b s t \<Longrightarrow> pool_inv e items s \<Longrightarrow> \<forall>w \<in> set items. work_begin w < work_end w \<Longrightarrow>
     pool_inv e items t"
proof (induction rule: pool_step.induct)
  case (acquire i s w c t)
  then show ?case by (intro decide_inv) auto
next
  case (reacquire i s w)
  then show ?case by (intro decide_inv) auto
next
  case (task i s w t ts q l)
  have "w \<in> set (pool_workers s)" using task(1,2) by simp
  then have "t \<in> set (pending s)" using task(3) by (force simp: pending_def)
  then have "work_begin t < work_end t" using task(4,5) by (auto simp: pool_inv_def)
  with task show ?case by (intro run_task_inv)
next
  case (again i s w)
  then show ?case
    by (intro pool_inv_set_worker [OF again(4,1), where v = "w\<lparr>worker_phase := Locking\<rparr>" and gone = "[]"])
      (simp_all add: set_worker_def unmerged_def)
next
  case (merge i s w)
  then show ?case
    by (intro pool_inv_set_worker [OF merge(4,1), where v = "w\<lparr>worker_phase := Finished\<rparr>" and gone = "[]"])
      (simp_all add: merge_worker_def set_worker_def unmerged_def add_metrics_def)
next
  case (push_wake s x xs i)
  have "pool_inv e items (push_item x xs s)" by (rule push_item_inv [OF push_wake(5,1)])
  then show ?case using push_wake(3,4) by (intro wake_worker_inv) (simp_all add: push_item_def)
next
  case (push_quiet s x xs)
  then show ?case by (intro push_item_inv)
next
  case (worker_spurious i s)
  then show ?case by (intro wake_worker_inv)
qed (erule pool_inv_frame; simp add: pending_def unqueued_def counted_def comp_def)+

lemma initial_pool_inv: "pool_inv e items (initial_pool e items)"
proof -
  have "(\<Sum>w\<leftarrow>replicate n new_worker. unmerged f w) = 0" if "f zero_metrics = 0" for f n
    using that by (induction n) (simp_all add: new_worker_def unmerged_def)
  then show ?thesis
    by (simp add: pool_inv_def initial_pool_def pending_def unqueued_def counted_def new_worker_def
        running_tasks_def zero_metrics_def)
qed

lemma pool_reach_inv:
  assumes "pool_reach e s" and c: "0 < chunk_size (engine_config e)"
  shows "pool_inv e (work_items (engine_config e)) s"
proof -
  let ?items = "work_items (engine_config e)"
  have "(pool_step e True)\<^sup>*\<^sup>* (initial_pool e ?items) s"
    using assms(1) build_work_items_eq [OF c] by (auto simp: pool_reach_def)
  then show ?thesis
  proof (induction rule: rtranclp_induct)
    case base
    show ?case by (rule initial_pool_inv)
  next
    case (step s t)
    then show ?case using pool_step_inv work_items_nonempty [OF c] by blast
  qed
qed

section \<open>The state of the threads\<close>

definition awake :: "worker \<Rightarrow> bool" where
  "awake w \<longleftrightarrow> (case worker_phase w of Locking \<Rightarrow> True | Waking \<Rightarrow> True | Running ts \<Rightarrow> True | _ \<Rightarrow> False)"

definition thread_inv :: "engine \<Rightarrow> pool \<Rightarrow> bool" where
  "thread_inv e s \<longleftrightarrow>
     length (pool_workers s) = worker_count (engine_config e) \<and>
     length (pool_queue s) \<le> queue_capacity (engine_config e) \<and>
     (pool_queue s \<noteq> [] \<longrightarrow> (\<exists>w \<in> set (pool_workers s). awake w)) \<and>
     (case pool_producer s of
        Pushing xs \<Rightarrow> \<not> producer_finished s
      | Blocked xs \<Rightarrow> \<not> producer_finished s \<and> xs \<noteq> [] \<and>
          queue_capacity (engine_config e) \<le> length (pool_queue s)
      | Notifying \<Rightarrow> producer_finished s
      | _ \<Rightarrow> producer_finished s \<and> (\<forall>w \<in> set (pool_workers s). worker_phase w \<noteq> Sleeping)) \<and>
     (\<forall>w \<in> set (pool_workers s). worker_phase w \<in> {Merging, Finished} \<longrightarrow>
        producer_finished s \<and> pool_queue s = []) \<and>
     (pool_producer s = Returned \<longrightarrow> (\<forall>w \<in> set (pool_workers s). worker_phase w = Finished))"


lemma update_workers_iff:
  assumes "i < length ws"
  shows "(\<forall>w \<in> set (ws[i := v]). P w) \<longleftrightarrow> P v \<and> (\<forall>j < length ws. j \<noteq> i \<longrightarrow> P (ws ! j))"
  using assms by (auto simp: all_set_conv_all_nth nth_list_update)

lemma all_update_workers:
  "\<forall>w \<in> set ws. P w \<Longrightarrow> P v \<Longrightarrow> \<forall>w \<in> set (ws[i := v]). P w"
  using set_update_subset_insert [of ws i v] by blast

lemma ex_update_workers:
  assumes "i < length ws" and "P v \<or> (\<exists>j < length ws. j \<noteq> i \<and> P (ws ! j))"
  shows "\<exists>w \<in> set (ws[i := v]). P w"
  using assms by (metis length_list_update nth_list_update_eq nth_list_update_neq nth_mem)

text \<open>A worker moves on its own, without touching the queue or the producer.\<close>

lemma thread_inv_own:
  assumes inv: "thread_inv e s" and i: "i < length (pool_workers s)"
    and not_done: "worker_phase (pool_workers s ! i) \<notin> {Sleeping, Finished}"
    and t: "pool_workers t = (pool_workers s)[i := v]" "pool_queue t = pool_queue s"
      "pool_producer t = pool_producer s" "producer_finished t = producer_finished s"
    and v: "worker_phase v \<noteq> Sleeping"
      "worker_phase v \<in> {Merging, Finished} \<longrightarrow> producer_finished s \<and> pool_queue s = []"
      "awake (pool_workers s ! i) \<longrightarrow> awake v \<or> pool_queue s = []"
  shows "thread_inv e t"
proof -
  let ?w = "pool_workers s ! i"
  have mem: "?w \<in> set (pool_workers s)" using i by simp
  have "pool_queue s \<noteq> [] \<longrightarrow> (\<exists>w \<in> set (pool_workers t). awake w)"
  proof
    assume q: "pool_queue s \<noteq> []"
    then obtain j where j: "j < length (pool_workers s)" "awake (pool_workers s ! j)"
      using inv by (auto simp: thread_inv_def in_set_conv_nth)
    show "\<exists>w \<in> set (pool_workers t). awake w"
      unfolding t(1) by (rule ex_update_workers [OF i]) (use j v(3) q in auto)
  qed
  moreover have "pool_producer s \<noteq> Returned" using inv mem not_done by (auto simp: thread_inv_def)
  moreover have "\<forall>w \<in> set ((pool_workers s)[i := v]). worker_phase w \<in> {Merging, Finished} \<longrightarrow>
      producer_finished s \<and> pool_queue s = []"
    by (rule all_update_workers) (use inv v(2) in \<open>auto simp: thread_inv_def\<close>)
  moreover have "(\<forall>w \<in> set (pool_workers s). worker_phase w \<noteq> Sleeping) \<longrightarrow>
      (\<forall>w \<in> set ((pool_workers s)[i := v]). worker_phase w \<noteq> Sleeping)"
    using v(1) by (intro impI all_update_workers) simp_all
  ultimately show ?thesis
    using inv unfolding thread_inv_def t by (auto split: producer.splits)
qed

lemma decide_threads:
  assumes inv: "thread_inv e s" and i: "i < length (pool_workers s)"
    and old: "worker_phase (pool_workers s ! i) \<in> {Locking, Waking}"
  shows "thread_inv e (decide e i w s)"
proof (cases "pool_queue s = []")
  case empty: True
  show ?thesis
  proof (cases "producer_finished s")
    case True
    then have "decide e i w s = set_worker i (w\<lparr>worker_phase := Merging\<rparr>) s"
      using empty by (simp add: decide_def)
    then show ?thesis
      by (intro thread_inv_own [OF inv i, where v = "w\<lparr>worker_phase := Merging\<rparr>"])
        (use True empty old in \<open>auto simp: set_worker_def\<close>)
  next
    case False
    then have eq: "decide e i w s = set_worker i (w\<lparr>worker_phase := Sleeping\<rparr>) s"
      using empty by (simp add: decide_def)
    have p: "pool_producer s \<notin> {Notifying, Joining, Returned}"
      using inv False by (auto simp: thread_inv_def)
    have none: "\<forall>w \<in> set (pool_workers s). worker_phase w \<notin> {Merging, Finished}"
      using inv False by (auto simp: thread_inv_def)
    have "\<forall>u \<in> set ((pool_workers s)[i := w\<lparr>worker_phase := Sleeping\<rparr>]).
        worker_phase u \<notin> {Merging, Finished}"
      by (rule all_update_workers [OF none]) simp
    then show ?thesis using inv p False empty unfolding eq thread_inv_def set_worker_def
      by (auto split: producer.splits)
  qed
next
  case False
  let ?k = "min (queue_batch_size (engine_config e)) (length (pool_queue s))"
  let ?v = "w\<lparr>worker_phase := Running (take ?k (pool_queue s))\<rparr>"
  have eq: "decide e i w s = set_worker i ?v
      (s\<lparr>pool_queue := drop ?k (pool_queue s), pool_producer := notify_not_full (pool_producer s)\<rparr>)"
    using False by (simp add: decide_def Let_def)
  have mem: "?v \<in> set ((pool_workers s)[i := ?v])" by (rule set_update_memI [OF i])
  have "awake ?v" by (simp add: awake_def)
  then have ex: "\<exists>w \<in> set ((pool_workers s)[i := ?v]). awake w" using mem by blast
  have none: "\<forall>w \<in> set (pool_workers s). worker_phase w \<notin> {Merging, Finished}"
    using inv False by (auto simp: thread_inv_def)
  have "pool_workers s ! i \<in> set (pool_workers s)" using i by simp
  then have nr: "pool_producer s \<noteq> Returned" using inv none by (auto simp: thread_inv_def)
  have all: "\<forall>w \<in> set ((pool_workers s)[i := ?v]). worker_phase w \<notin> {Merging, Finished}"
    "(\<forall>w \<in> set (pool_workers s). worker_phase w \<noteq> Sleeping) \<longrightarrow>
      (\<forall>w \<in> set ((pool_workers s)[i := ?v]). worker_phase w \<noteq> Sleeping)"
    by (rule all_update_workers [OF none], simp) (intro impI all_update_workers, simp_all)
  have len: "length (drop ?k (pool_queue s)) \<le> queue_capacity (engine_config e)"
    using inv by (auto simp: thread_inv_def)
  define ws where "ws = (pool_workers s)[i := ?v]"
  define qs where "qs = drop ?k (pool_queue s)"
  have ws: "length ws = length (pool_workers s)" by (simp add: ws_def)
  note facts = inv [unfolded thread_inv_def] ex [folded ws_def] all [folded ws_def] len [folded qs_def]
  show ?thesis
    unfolding eq thread_inv_def set_worker_def ws_def [symmetric] qs_def [symmetric]
    using facts nr ws by (cases "pool_producer s") (simp_all add: notify_not_full_def ws_def [symmetric])
qed

lemma wake_worker_threads:
  assumes inv: "thread_inv e s" and i: "i < length (pool_workers s)"
    and old: "worker_phase (pool_workers s ! i) = Sleeping"
  shows "thread_inv e (wake_worker i s)"
proof -
  let ?v = "(pool_workers s ! i)\<lparr>worker_phase := Waking\<rparr>"
  have mem: "?v \<in> set ((pool_workers s)[i := ?v])" by (rule set_update_memI [OF i])
  have "awake ?v" by (simp add: awake_def)
  then have ex: "\<exists>w \<in> set ((pool_workers s)[i := ?v]). awake w" using mem by blast
  have "pool_workers s ! i \<in> set (pool_workers s)" using i by simp
  then have nr: "pool_producer s \<noteq> Returned" using inv old by (auto simp: thread_inv_def)
  have keep: "\<forall>w \<in> set ((pool_workers s)[i := ?v]). P w"
    if "\<forall>w \<in> set (pool_workers s). P w" "P ?v" for P
    by (rule all_update_workers [OF that])
  have merged: "\<forall>w \<in> set ((pool_workers s)[i := ?v]). worker_phase w \<in> {Merging, Finished} \<longrightarrow>
      producer_finished s \<and> pool_queue s = []"
    by (rule keep) (use inv in \<open>auto simp: thread_inv_def\<close>)
  have slept: "(\<forall>w \<in> set (pool_workers s). worker_phase w \<noteq> Sleeping) \<longrightarrow>
      (\<forall>w \<in> set ((pool_workers s)[i := ?v]). worker_phase w \<noteq> Sleeping)"
    by (intro impI keep) simp_all
  show ?thesis
    using inv ex nr merged slept unfolding thread_inv_def wake_worker_def set_worker_def
    by (auto split: producer.splits)
qed

text \<open>A push keeps the invariant once somebody is awake.\<close>

lemma push_item_threads:
  assumes inv: "thread_inv e s" and p: "pool_producer s = Pushing (x # xs)"
    and room: "length (pool_queue s) < queue_capacity (engine_config e)"
  shows "(\<exists>w \<in> set (pool_workers s). awake w) \<Longrightarrow> thread_inv e (push_item x xs s)"
    and "\<forall>w \<in> set (pool_workers s). worker_phase w \<notin> {Merging, Finished}"
  using assms by (auto simp: thread_inv_def push_item_def)

lemma wake_push_commute:
  "wake_worker i (push_item x xs s) = push_item x xs (wake_worker i s)"
  by (simp add: wake_worker_def push_item_def set_worker_def)

lemma pool_step_threads:
  "pool_step e b s t \<Longrightarrow> thread_inv e s \<Longrightarrow> 0 < worker_count (engine_config e) \<Longrightarrow> thread_inv e t"
proof (induction rule: pool_step.induct)
  case (acquire i s w c t)
  then show ?case by (intro decide_threads) auto
next
  case (reacquire i s w)
  then show ?case by (intro decide_threads) auto
next
  case (task i s w t ts q l)
  let ?m = "(worker_metrics w)\<lparr>queue_wait_ns := queue_wait_ns (worker_metrics w) + q\<rparr>"
  let ?v = "w\<lparr>worker_phase := Running ts, worker_metrics := snd (process_work e t ?m),
    worker_latencies := worker_latencies w @ [l]\<rparr>"
  have "run_task e i w t ts q l s = set_worker i ?v
      (s\<lparr>pool_checksum := pool_checksum s XOR fst (process_work e t ?m)\<rparr>)"
    by (simp add: run_task_def Let_def case_prod_beta)
  then show ?case
    by (intro thread_inv_own [OF task(4,1), where v = ?v])
      (use task in \<open>auto simp: set_worker_def awake_def\<close>)
next
  case (again i s w)
  then show ?case
    by (intro thread_inv_own [OF again(4,1), where v = "w\<lparr>worker_phase := Locking\<rparr>"])
      (auto simp: set_worker_def awake_def)
next
  case (merge i s w)
  have "w \<in> set (pool_workers s)" using merge(1,2) by simp
  then have "producer_finished s \<and> pool_queue s = []" using merge(3,4) by (auto simp: thread_inv_def)
  with merge show ?case
    by (intro thread_inv_own [OF merge(4,1), where v = "w\<lparr>worker_phase := Finished\<rparr>"])
      (auto simp: merge_worker_def set_worker_def awake_def)
next
  case (push_wake s x xs i)
  let ?v = "(pool_workers s ! i)\<lparr>worker_phase := Waking\<rparr>"
  have "?v \<in> set (pool_workers (wake_worker i s))" "awake ?v"
    using set_update_memI [OF push_wake(3)] by (simp_all add: wake_worker_def set_worker_def awake_def)
  then have ex: "\<exists>w \<in> set (pool_workers (wake_worker i s)). awake w" by blast
  have "thread_inv e (wake_worker i s)" by (rule wake_worker_threads [OF push_wake(5,3,4)])
  then show ?case
    unfolding wake_push_commute
    by (rule push_item_threads(1) [OF _ _ _ ex])
      (use push_wake(1,2) in \<open>simp_all add: wake_worker_def set_worker_def\<close>)
next
  case (push_quiet s x xs)
  have "pool_workers s \<noteq> []" using push_quiet(4,5) by (auto simp: thread_inv_def)
  then obtain w where w: "w \<in> set (pool_workers s)" using list.set_sel(1) by blast
  have "awake w"
    using push_item_threads(2) [OF push_quiet(4,1,2)] push_quiet(3) w
    by (cases "worker_phase w") (auto simp: awake_def)
  then show ?case using push_item_threads(1) [OF push_quiet(4,1,2)] w by blast
next
  case (notify s)
  have ph: "worker_phase (notify_sleeper w) \<noteq> Sleeping"
    "worker_phase (notify_sleeper w) = Merging \<longleftrightarrow> worker_phase w = Merging"
    "worker_phase (notify_sleeper w) = Finished \<longleftrightarrow> worker_phase w = Finished" for w
    by (simp_all add: notify_sleeper_def)
  have "\<exists>w \<in> set (pool_workers s). awake (notify_sleeper w)" if "\<exists>w \<in> set (pool_workers s). awake w"
    using that by (auto simp: notify_sleeper_def awake_def)
  with notify show ?case by (simp add: thread_inv_def ph)
next
  case (worker_spurious i s)
  then show ?case by (intro wake_worker_threads)
qed (auto simp: thread_inv_def)

lemma initial_threads: "thread_inv e (initial_pool e items)"
  by (auto simp: thread_inv_def initial_pool_def new_worker_def)

lemma pool_reach_threads:
  assumes "pool_reach e s" and "0 < worker_count (engine_config e)"
  shows "thread_inv e s"
proof -
  obtain items where "(pool_step e True)\<^sup>*\<^sup>* (initial_pool e items) s"
    using assms(1) by (auto simp: pool_reach_def)
  then show ?thesis
  proof (induction rule: rtranclp_induct)
    case base
    show ?case by (rule initial_threads)
  next
    case (step s t)
    then show ?case using pool_step_threads assms(2) by blast
  qed
qed

section \<open>Progress\<close>

lemma worker_can_step:
  assumes i: "i < length (pool_workers s)"
    and p: "worker_phase (pool_workers s ! i) \<notin> {Sleeping, Finished}"
  shows "\<exists>t. pool_step e b s t"
proof (cases "worker_phase (pool_workers s ! i)")
  case Locking
  then show ?thesis using pool_step.acquire [OF i refl, of e b] by blast
next
  case Waking
  then show ?thesis using pool_step.reacquire [OF i refl, of e b] by blast
next
  case (Running ts)
  then show ?thesis
    using pool_step.again [OF i refl, of e b] pool_step.task [OF i refl, of _ _ e b] by (cases ts) blast+
next
  case Merging
  then show ?thesis using pool_step.merge [OF i refl, of e b] by blast
qed (use p in simp_all)

lemma awake_can_step:
  "\<exists>w \<in> set (pool_workers s). awake w \<Longrightarrow> \<exists>t. pool_step e b s t"
  using worker_can_step by (fastforce simp: in_set_conv_nth awake_def)

lemma pool_progress:
  assumes inv: "thread_inv e s" and cap: "0 < queue_capacity (engine_config e) \<or> (\<forall>xs. pool_producer s \<noteq> Blocked xs)"
    and running: "pool_producer s \<noteq> Returned"
  shows "\<exists>t. pool_step e b s t"
proof (cases "pool_producer s")
  case (Pushing xs)
  show ?thesis
  proof (cases xs)
    case Nil
    then show ?thesis using Pushing pool_step.finish by blast
  next
    case (Cons x ys)
    then have p: "pool_producer s = Pushing (x # ys)" using Pushing by simp
    consider "\<not> length (pool_queue s) < queue_capacity (engine_config e)"
      | i where "length (pool_queue s) < queue_capacity (engine_config e)"
          "i < length (pool_workers s)" "worker_phase (pool_workers s ! i) = Sleeping"
      | "length (pool_queue s) < queue_capacity (engine_config e)"
          "\<forall>w \<in> set (pool_workers s). worker_phase w \<noteq> Sleeping"
      by (metis in_set_conv_nth)
    then show ?thesis
      using pool_step.block [OF p] pool_step.push_wake [OF p] pool_step.push_quiet [OF p] by cases blast+
  qed
next
  case (Blocked xs)
  then have "pool_queue s \<noteq> []" using inv cap by (auto simp: thread_inv_def)
  then show ?thesis using inv awake_can_step by (auto simp: thread_inv_def)
next
  case Notifying
  then show ?thesis using pool_step.notify by blast
next
  case Joining
  show ?thesis
  proof (cases "\<forall>w \<in> set (pool_workers s). worker_phase w = Finished")
    case True
    then show ?thesis using Joining pool_step.join by blast
  next
    case False
    then obtain i where i: "i < length (pool_workers s)" "worker_phase (pool_workers s ! i) \<noteq> Finished"
      by (auto simp: in_set_conv_nth)
    then have "worker_phase (pool_workers s ! i) \<noteq> Sleeping"
      using inv Joining nth_mem by (auto simp: thread_inv_def)
    then show ?thesis using worker_can_step [OF i(1)] i(2) by blast
  qed
qed (use running in simp_all)

section \<open>Termination\<close>

fun phase_work :: "worker_phase \<Rightarrow> nat" where
  "phase_work Locking = 2"
| "phase_work Waking = 2"
| "phase_work Sleeping = 1"
| "phase_work Merging = 1"
| "phase_work (Running ts) = 3 + 2 * length ts"
| "phase_work Finished = 0"

fun producer_work :: "nat \<Rightarrow> producer \<Rightarrow> nat" where
  "producer_work n (Pushing xs) = 7 * length xs + n + 3"
| "producer_work n (Blocked xs) = 7 * length xs + n + 2"
| "producer_work n Notifying = n + 2"
| "producer_work n Joining = 1"
| "producer_work n Returned = 0"

text \<open>A bound on the steps that the pool still takes without spurious wake-ups.\<close>

definition pool_work :: "pool \<Rightarrow> nat" where
  "pool_work s = (\<Sum>w\<leftarrow>pool_workers s. phase_work (worker_phase w)) + 5 * length (pool_queue s) +
     producer_work (length (pool_workers s)) (pool_producer s)"

lemma pool_work_set_worker:
  assumes "i < length (pool_workers s)"
  shows "pool_work (set_worker i v s) + phase_work (worker_phase (pool_workers s ! i)) =
    pool_work s + phase_work (worker_phase v)"
  using sum_list_map_update [OF assms, of "\<lambda>w. phase_work (worker_phase w)" v] by (simp add: pool_work_def set_worker_def)

lemma notify_not_full_work: "producer_work n (notify_not_full p) \<le> producer_work n p + 1"
  by (cases p) (simp_all add: notify_not_full_def)

lemma decide_work:
  assumes i: "i < length (pool_workers s)" and batch: "0 < queue_batch_size (engine_config e)"
    and old: "worker_phase (pool_workers s ! i) \<in> {Locking, Waking}"
  shows "pool_work (decide e i w s) < pool_work s"
proof (cases "pool_queue s = []")
  case True
  have "pool_work (set_worker i (w\<lparr>worker_phase := p\<rparr>) s) < pool_work s" if "phase_work p = 1" for p
    using pool_work_set_worker [OF i, of "w\<lparr>worker_phase := p\<rparr>"] old that by auto
  then show ?thesis using True by (simp add: decide_def)
next
  case False
  let ?k = "min (queue_batch_size (engine_config e)) (length (pool_queue s))"
  let ?s = "s\<lparr>pool_queue := drop ?k (pool_queue s), pool_producer := notify_not_full (pool_producer s)\<rparr>"
  let ?v = "w\<lparr>worker_phase := Running (take ?k (pool_queue s))\<rparr>"
  have k: "0 < ?k" "?k \<le> length (pool_queue s)" using False batch by simp_all
  have "pool_work ?s + 5 * ?k \<le> pool_work s + 1"
    using k notify_not_full_work [of "length (pool_workers s)" "pool_producer s"]
    by (simp add: pool_work_def)
  moreover have "pool_work (set_worker i ?v ?s) + 2 = pool_work ?s + (3 + 2 * ?k)"
    using pool_work_set_worker [of i ?s ?v] i old by auto
  ultimately have "pool_work (set_worker i ?v ?s) < pool_work s" using k(1) by linarith
  then show ?thesis using False by (simp add: decide_def Let_def)
qed

lemma notify_sleeper_work:
  "(\<Sum>w\<leftarrow>ws. phase_work (worker_phase (notify_sleeper w))) \<le>
   (\<Sum>w\<leftarrow>ws. phase_work (worker_phase w)) + length ws"
  by (induction ws) (auto simp: notify_sleeper_def)

lemma pool_step_work:
  "pool_step e False s t \<Longrightarrow> 0 < queue_batch_size (engine_config e) \<Longrightarrow> pool_work t < pool_work s"
proof (induction rule: pool_step.induct)
  case (acquire i s w c t)
  then show ?case by (intro decide_work) auto
next
  case (reacquire i s w)
  then show ?case by (intro decide_work) auto
next
  case (task i s w t ts q l)
  let ?m = "(worker_metrics w)\<lparr>queue_wait_ns := queue_wait_ns (worker_metrics w) + q\<rparr>"
  let ?v = "w\<lparr>worker_phase := Running ts, worker_metrics := snd (process_work e t ?m),
    worker_latencies := worker_latencies w @ [l]\<rparr>"
  let ?s = "s\<lparr>pool_checksum := pool_checksum s XOR fst (process_work e t ?m)\<rparr>"
  have "run_task e i w t ts q l s = set_worker i ?v ?s"
    by (simp add: run_task_def Let_def case_prod_beta)
  moreover have "pool_work ?s = pool_work s" by (simp add: pool_work_def)
  ultimately show ?case using pool_work_set_worker [of i ?s ?v] task by simp
next
  case (again i s w)
  then show ?case using pool_work_set_worker [of i s "w\<lparr>worker_phase := Locking\<rparr>"] by simp
next
  case (merge i s w)
  let ?s = "s\<lparr>aggregate_metrics := add_metrics (aggregate_metrics s) (worker_metrics w),
    aggregate_latencies := aggregate_latencies s @ worker_latencies w\<rparr>"
  have "pool_work ?s = pool_work s" by (simp add: pool_work_def)
  then show ?case
    using pool_work_set_worker [of i ?s "w\<lparr>worker_phase := Finished\<rparr>"] merge
    by (simp add: merge_worker_def)
next
  case (push_wake s x xs i)
  have "pool_work (push_item x xs s) + 2 = pool_work s"
    using push_wake(1) by (simp add: pool_work_def push_item_def)
  then show ?case
    using pool_work_set_worker [of i "push_item x xs s" "(pool_workers s ! i)\<lparr>worker_phase := Waking\<rparr>"]
      push_wake(3,4) by (simp add: wake_worker_def push_item_def)
next
  case (push_quiet s x xs)
  then show ?case by (simp add: pool_work_def push_item_def)
next
  case (notify s)
  then show ?case
    using notify_sleeper_work [of "pool_workers s"] by (simp add: pool_work_def comp_def)
qed (simp_all add: pool_work_def)

section \<open>No capacity\<close>

lemma no_capacity_step:
  "pool_step e b s t \<Longrightarrow> queue_capacity (engine_config e) = 0 \<Longrightarrow> xs \<noteq> [] \<Longrightarrow>
   pool_queue s = [] \<and> pool_producer s \<in> {Pushing xs, Blocked xs} \<Longrightarrow>
   pool_queue t = [] \<and> pool_producer t \<in> {Pushing xs, Blocked xs}"
  by (induction rule: pool_step.induct)
    (auto simp: decide_def set_worker_def run_task_def Let_def case_prod_beta merge_worker_def wake_worker_def)

lemma no_capacity_reach:
  assumes "(pool_step e b)\<^sup>*\<^sup>* (initial_pool e xs) s"
    and "queue_capacity (engine_config e) = 0" and "xs \<noteq> []"
  shows "pool_queue s = [] \<and> pool_producer s \<in> {Pushing xs, Blocked xs}"
  using assms(1)
proof (induction rule: rtranclp_induct)
  case base
  show ?case by (simp add: initial_pool_def)
next
  case (step s t)
  then show ?case using no_capacity_step [OF _ assms(2,3)] by blast
qed

text \<open>With nothing to push the producer does not need room.\<close>

lemma nothing_to_push:
  "(pool_step e b)\<^sup>*\<^sup>* (initial_pool e []) s \<Longrightarrow>
     pool_producer s \<in> {Pushing [], Notifying, Joining, Returned}"
proof (induction rule: rtranclp_induct)
  case base
  show ?case by (simp add: initial_pool_def)
next
  case (step s t)
  from step(2,3) show ?case
    by (induction rule: pool_step.induct)
      (auto simp: decide_def set_worker_def run_task_def Let_def case_prod_beta merge_worker_def wake_worker_def
        notify_not_full_def split: producer.splits)
qed

section \<open>A run that returns\<close>

lemma pool_reach_step: "pool_reach e s \<Longrightarrow> pool_step e b s t \<Longrightarrow> pool_reach e t"
proof -
  have "pool_step e True s t" if "pool_step e b s t"
    using that by (induction rule: pool_step.induct) (auto intro: pool_step.intros)
  then show "pool_reach e s \<Longrightarrow> pool_step e b s t \<Longrightarrow> pool_reach e t"
    unfolding pool_reach_def by (meson rtranclp.rtrancl_into_rtrancl)
qed

lemma pool_can_return:
  assumes "0 < worker_count (engine_config e)" and "0 < queue_capacity (engine_config e)"
    and "0 < queue_batch_size (engine_config e)"
  shows "pool_reach e s \<Longrightarrow> \<exists>t. pool_reach e t \<and> pool_producer t = Returned"
proof (induction "pool_work s" arbitrary: s rule: less_induct)
  case less
  show ?case
  proof (cases "pool_producer s = Returned")
    case True
    then show ?thesis using less(2) by blast
  next
    case False
    then obtain t where t: "pool_step e False s t"
      using pool_progress [OF pool_reach_threads [OF less(2) assms(1)]] assms(2) by blast
    show ?thesis
      using less(1) [OF pool_step_work [OF t assms(3)] pool_reach_step [OF less(2) t]] .
  qed
qed

lemma pool_step_bound:
  assumes "0 < queue_batch_size (engine_config e)"
  shows "(pool_step e False ^^ k) s t \<Longrightarrow> pool_work t + k \<le> pool_work s"
proof (induction k arbitrary: t)
  case 0
  then show ?case by simp
next
  case (Suc k)
  then obtain u where "(pool_step e False ^^ k) s u" "pool_step e False u t" by auto
  then show ?case using Suc.IH [of u] pool_step_work [OF _ assms, of u t] by simp
qed

end
