(* ===== verification/Engine_Properties.thy ===== *)
theory Engine_Properties
  imports Worker_Pool
begin

text \<open>
  The properties of the performance engine: construction, the work items and the positions that a
  task visits, and the worker pool: its result, its progress and its termination.
\<close>

unbundle bit_operations_syntax

section \<open>Concrete engines\<close>

definition small_config :: "access_pattern \<Rightarrow> benchmark_config" where
  "small_config p = \<lparr>worker_count = 2, workload_size = 10, chunk_size = 4, queue_capacity = 2,
     access_pattern = p, queue_batch_size = 2\<rparr>"

definition engine_of :: "benchmark_config \<Rightarrow> engine" where
  "engine_of config = \<lparr>engine_config = config, engine_data = map data_word [0..<workload_size config]\<rparr>"

lemma new_engine_Inr:
  "new_engine config = Inr e \<longleftrightarrow>
     0 < worker_count config \<and> 0 < chunk_size config \<and> 0 < queue_batch_size config \<and> e = engine_of config"
  by (auto simp: new_engine_def engine_of_def)

lemma engine_of_simps [simp]:
  "engine_config (engine_of config) = config"
  "length (engine_data (engine_of config)) = workload_size config"
  by (simp_all add: engine_of_def)

lemma small_engine: "new_engine (small_config p) = Inr (engine_of (small_config p))"
  by (simp add: new_engine_Inr small_config_def)

lemma initial_reach:
  "build_work_items e = Some items \<Longrightarrow> pool_reach e (initial_pool e items)"
  by (auto simp: pool_reach_def)

lemma small_returns:
  "\<exists>s. pool_reach (engine_of (small_config p)) s \<and> pool_producer s = Returned"
proof -
  have "build_work_items (engine_of (small_config p)) = Some (work_items (small_config p))"
    using build_work_items_eq [of "engine_of (small_config p)"] by (simp add: small_config_def)
  then show ?thesis
    by (intro pool_can_return [OF _ _ _ initial_reach]) (simp_all add: small_config_def)
qed

section \<open>Construction and work items\<close>

text \<open>
  The constructor of the engine throws exactly when the worker count, the chunk size or the batch
  size is zero; the queue capacity is not checked. Otherwise the data has one word per unit of workload.
\<close>

theorem new_engine_checks:
  "(isl (new_engine config) \<longleftrightarrow>
      worker_count config = 0 \<or> chunk_size config = 0 \<or> queue_batch_size config = 0) \<and>
   (worker_count config * chunk_size config * queue_batch_size config \<noteq> 0 \<longrightarrow>
      (\<exists>e. new_engine config = Inr e \<and> engine_config e = config \<and>
        length (engine_data e) = workload_size config))"
  by (auto simp: new_engine_def)

theorem new_engine_checks_witness:
  "worker_count (small_config CacheLocal) * chunk_size (small_config CacheLocal) *
     queue_batch_size (small_config CacheLocal) \<noteq> 0 \<and>
   \<not> isl (new_engine (small_config CacheLocal))"
  using new_engine_checks [of "small_config CacheLocal"] by (simp add: small_config_def)

text \<open>
  C20. The work items of an engine cut the positions of the workload into consecutive, non-empty
  chunks, in order and without gap or overlap, none longer than the chunk size; there are as many as
  the workload size divided by the chunk size, rounded up. The loop that builds them terminates.
\<close>

theorem work_items_partition:
  assumes "new_engine config = Inr e"
  shows "\<exists>items. build_work_items e = Some items \<and>
    concat (map (\<lambda>w. [work_begin w..<work_end w]) items) = [0..<workload_size config] \<and>
    (\<forall>w \<in> set items. work_begin w < work_end w \<and> work_end w - work_begin w \<le> chunk_size config) \<and>
    length items = (workload_size config + chunk_size config - 1) div chunk_size config"
proof -
  have c: "0 < chunk_size config" and e: "e = engine_of config" using assms by (simp_all add: new_engine_Inr)
  let ?k = "item_count (workload_size config) (chunk_size config)"
  have "workload_size config \<le> ?k * chunk_size config"
    using item_count_less [OF c, of ?k "workload_size config"] by simp
  then have "concat (map (\<lambda>w. [work_begin w..<work_end w]) (work_items config)) = [0..<workload_size config]"
    using work_items_cover [OF c, of "workload_size config" ?k] by (simp add: work_items_def min_absorb2)
  moreover have "work_end w - work_begin w \<le> chunk_size config" if "w \<in> set (work_items config)" for w
    using that by (auto simp: work_items_def work_item_at_def)
  ultimately show ?thesis
    using build_work_items_eq [of e] work_items_nonempty [OF c] c e
    by (simp add: work_items_def [of config] item_count_def)
qed

theorem work_items_partition_witness:
  "new_engine (small_config CacheLocal) = Inr (engine_of (small_config CacheLocal)) \<and>
   (\<exists>items. build_work_items (engine_of (small_config CacheLocal)) = Some items \<and> length items = 3)"
  using work_items_partition [OF small_engine [of CacheLocal]] small_engine
  by (auto simp: small_config_def)

text \<open>
  Whatever the access pattern, a work item reads only inside the data vector, and inside the
  chunk of the item.
\<close>

theorem visits_in_bounds:
  assumes "new_engine config = Inr e" and "build_work_items e = Some items" and "w \<in> set items"
    and "i \<in> set (visit_order p w)"
  shows "work_begin w \<le> i \<and> i < work_end w \<and> i < length (engine_data e)"
proof -
  have c: "0 < chunk_size config" and e: "e = engine_of config" using assms by (simp_all add: new_engine_Inr)
  then have w: "w \<in> set (work_items config)" using assms(2,3) build_work_items_eq [of e] by simp
  have lt: "work_begin w < work_end w" by (rule work_items_nonempty [OF c w])
  have "stride_index (work_begin w) (work_end w - work_begin w) k < work_end w" for k
    using mod_less_divisor [of "work_end w - work_begin w"] lt unfolding stride_index_def
    by (metis add.commute less_diff_conv zero_less_diff)
  then have "work_begin w \<le> i \<and> i < work_end w"
    using assms(4) lt by (auto simp: visit_order_def stride_index_def split: if_splits)
  moreover have "work_end w \<le> workload_size config" using w by (auto simp: work_items_def work_item_at_def)
  ultimately show ?thesis using e by simp
qed

theorem visits_in_bounds_witness:
  "stride_index 8 2 1 \<in> set (visit_order CacheUnfriendly \<lparr>work_id = 2, work_begin = 8, work_end = 10\<rparr>) \<and>
   stride_index 8 2 1 < length (engine_data (engine_of (small_config CacheUnfriendly)))"
proof -
  let ?w = "\<lparr>work_id = 2, work_begin = 8, work_end = 10\<rparr> :: work_item"
  have v: "stride_index 8 2 1 \<in> set (visit_order CacheUnfriendly ?w)"
    by (simp add: visit_order_def upt_rec)
  have b: "build_work_items (engine_of (small_config CacheUnfriendly)) =
      Some (work_items (small_config CacheUnfriendly))"
    using build_work_items_eq [of "engine_of (small_config CacheUnfriendly)"] by (simp add: small_config_def)
  have w: "?w \<in> set (work_items (small_config CacheUnfriendly))"
    by (simp add: work_items_def small_config_def item_count_def work_item_at_def upt_rec)
  show ?thesis using v visits_in_bounds [OF small_engine b w v] by simp
qed

section \<open>Access patterns\<close>

text \<open>
  C21. The cache-unfriendly pattern computes the checksum, and the counts, of the cache-local one when the
  stride 67 is coprime to the length of every item (and the workload is below $2^{57}$, so that the
  64-bit product does not wrap).
\<close>

theorem patterns_agree:
  assumes "new_engine (config\<lparr>access_pattern := CacheUnfriendly\<rparr>) = Inr e"
    and "new_engine (config\<lparr>access_pattern := CacheLocal\<rparr>) = Inr f"
    and "\<forall>w \<in> set (work_items config). coprime 67 (work_end w - work_begin w)"
    and "workload_size config \<le> 2 ^ 57"
  shows "run_single_threaded e = run_single_threaded f"
proof -
  have c: "0 < chunk_size config"
    and e: "e = engine_of (config\<lparr>access_pattern := CacheUnfriendly\<rparr>)"
    and f: "f = engine_of (config\<lparr>access_pattern := CacheLocal\<rparr>)"
    using assms(1,2) by (simp_all add: new_engine_Inr)
  have items: "work_items (config\<lparr>access_pattern := p\<rparr>) = work_items config" for p
    by (simp add: work_items_def)
  have "task_checksum e w = task_checksum f w" if w: "w \<in> set (work_items config)" for w
  proof -
    have lt: "work_begin w < work_end w" by (rule work_items_nonempty [OF c w])
    have "work_end w - work_begin w \<le> 2 ^ 57"
      using w assms(4) by (auto simp: work_items_def work_item_at_def)
    then have "mset (visit_order CacheUnfriendly w) = mset [work_begin w..<work_end w]"
      using stride_bijective [of "work_end w - work_begin w" "work_begin w"] assms(3) w lt
      by (simp add: visit_order_def)
    then have "task_checksum e w = xor_differences (sort (map (item_value e) [work_begin w..<work_end w]))
        (\<Sum>i\<leftarrow>[work_begin w..<work_end w]. item_value e i)"
      using lt by (intro task_checksum_order) (simp_all add: e)
    moreover have "task_checksum f w = xor_differences (sort (map (item_value f) [work_begin w..<work_end w]))
        (\<Sum>i\<leftarrow>[work_begin w..<work_end w]. item_value f i)"
      using lt by (intro task_checksum_order) (simp_all add: f visit_order_def)
    moreover have "item_value e = item_value f" by (simp add: fun_eq_iff item_value_def e f engine_of_def)
    ultimately show ?thesis by simp
  qed
  then have same: "map (task_checksum e) (work_items config) = map (task_checksum f) (work_items config)"
    by simp
  have "work_items (engine_config e) = work_items config" "work_items (engine_config f) = work_items config"
    by (simp_all add: e f items)
  moreover have "0 < chunk_size (engine_config e)" "0 < chunk_size (engine_config f)"
    using c by (simp_all add: e f)
  ultimately show ?thesis
    using run_single_threaded_eq [of e] run_single_threaded_eq [of f] by (simp only: Let_def same)
qed

theorem patterns_agree_witness:
  "run_single_threaded (engine_of (small_config CacheUnfriendly)) =
   run_single_threaded (engine_of (small_config CacheLocal))"
proof (rule patterns_agree [of "small_config CacheLocal"])
  show "new_engine (small_config CacheLocal\<lparr>access_pattern := CacheUnfriendly\<rparr>) =
      Inr (engine_of (small_config CacheUnfriendly))"
    "new_engine (small_config CacheLocal\<lparr>access_pattern := CacheLocal\<rparr>) =
      Inr (engine_of (small_config CacheLocal))"
    by (simp_all add: small_config_def new_engine_Inr)
  have "coprime 67 (4 :: nat)" "coprime 67 (2 :: nat)" by (simp_all add: coprime_iff_gcd_eq_1 gcd_non_0_nat)
  then show "\<forall>w \<in> set (work_items (small_config CacheLocal)). coprime 67 (work_end w - work_begin w)"
    by (simp add: work_items_def small_config_def item_count_def work_item_at_def upt_rec)
qed (simp add: small_config_def)

text \<open>
  When the length of an item is 67, the cache-unfriendly pattern reads nothing but its first element, 67
  times, and the checksum of the item is 67 times that value: the rest of the chunk is not processed.
\<close>

theorem stride_degenerates:
  assumes "access_pattern (engine_config e) = CacheUnfriendly" and "work_end w = work_begin w + 67"
  shows "set (visit_order CacheUnfriendly w) = {work_begin w} \<and>
    task_checksum e w = 67 * item_value e (work_begin w)"
proof -
  have idx: "stride_index b 67 k = b" if "k < 67" for b k
  proof -
    have "k * 67 < 2 ^ 64" using that by simp
    then have "unat (of_nat (k * 67) :: u64) = k * 67"
      by (simp only: unsigned_of_nat) (simp add: take_bit_nat_eq_self)
    then show ?thesis by (simp only: stride_index_def stride_def) simp
  qed
  have order: "visit_order CacheUnfriendly w = replicate 67 (work_begin w)"
  proof (rule nth_equalityI)
    fix k assume "k < length (visit_order CacheUnfriendly w)"
    then have "k < 67" using assms(2) by (simp add: visit_order_def)
    then show "visit_order CacheUnfriendly w ! k = replicate 67 (work_begin w) ! k"
      using assms(2) idx by (simp add: visit_order_def)
  qed (use assms(2) in \<open>simp add: visit_order_def\<close>)
  have flat: "xor_differences (replicate n v) s = s" for n v s
  proof (induction n)
    case (Suc n)
    then show ?case by (cases n) simp_all
  qed simp
  have "sort (replicate n (v :: u64)) = replicate n v" for n v
    by (simp add: sorted_replicate sorted_sort_id)
  then show ?thesis
    using task_checksum_visit [of w e] assms order flat
    by (simp add: Let_def map_replicate sum_list_replicate)
qed

definition stride_config :: benchmark_config where
  "stride_config = \<lparr>worker_count = 1, workload_size = 67, chunk_size = 67, queue_capacity = 1,
     access_pattern = CacheUnfriendly, queue_batch_size = 1\<rparr>"

theorem stride_degenerates_witness:
  "build_work_items (engine_of stride_config) = Some [work_item_at 67 67 0] \<and>
   task_checksum (engine_of stride_config) (work_item_at 67 67 0) = 67 * data_word 0"
proof -
  have "build_work_items (engine_of stride_config) = Some [work_item_at 67 67 0]"
    using build_work_items_eq [of "engine_of stride_config"]
    by (simp add: stride_config_def work_items_def item_count_def)
  moreover have "item_value (engine_of stride_config) 0 = data_word 0"
    by (simp add: item_value_def engine_of_def stride_config_def)
  ultimately show ?thesis
    using stride_degenerates [of "engine_of stride_config" "work_item_at 67 67 0"]
    by (simp add: work_item_at_def stride_config_def)
qed

section \<open>The worker pool\<close>

lemma returned_finished:
  assumes "new_engine config = Inr e" and "pool_reach e s" and "pool_producer s = Returned"
  shows "\<forall>w \<in> set (pool_workers s). worker_phase w = Finished" and "pool_queue s = []"
proof -
  have t: "thread_inv e s" using pool_reach_threads [OF assms(2)] assms(1) by (auto simp: new_engine_Inr)
  show finished: "\<forall>w \<in> set (pool_workers s). worker_phase w = Finished"
    using t assms(3) by (simp add: thread_inv_def)
  show "pool_queue s = []"
  proof (rule ccontr)
    assume "pool_queue s \<noteq> []"
    then obtain w where "w \<in> set (pool_workers s)" "awake w" using t by (auto simp: thread_inv_def)
    then show False using finished by (simp add: awake_def)
  qed
qed

lemma returned_agrees:
  assumes "new_engine config = Inr e" and "pool_reach e s" and "pool_producer s = Returned"
  shows "\<exists>m n. run_single_threaded e = Some (pool_checksum s, m, n) \<and>
    tasks_completed (aggregate_metrics s) = tasks_completed m \<and>
    simulated_allocations (aggregate_metrics s) = simulated_allocations m \<and>
    pending s = []"
proof -
  have wf: "0 < chunk_size config" and e: "engine_config e = config"
    using assms(1) by (auto simp: new_engine_Inr)
  have inv: "pool_inv e (work_items config) s" using pool_reach_inv [OF assms(2)] wf e by simp
  note finished = returned_finished [OF assms]
  have none: "pending s = []"
    using finished assms(3) by (simp add: pending_def unqueued_def)
  have "(\<Sum>w\<leftarrow>pool_workers s. unmerged f w) = 0" for f
    using finished(1) by (simp add: unmerged_def sum_list_0 cong: map_cong)
  then have "counted f s = f (aggregate_metrics s)" for f by (simp add: counted_def)
  then show ?thesis
    using inv none run_single_threaded_eq [of e] wf e by (simp add: pool_inv_def Let_def)
qed

text \<open>
  Whatever the interleaving, the lock contention, the clock and the spurious wake-ups, a
  multithreaded run that has returned passes on the checksum, the number of completed tasks and the
  number of allocations of the single-threaded run, and has left no task behind.
\<close>

theorem multithreaded_agrees:
  assumes "new_engine config = Inr e" and "pool_reach e s" and "pool_producer s = Returned"
  shows "\<exists>m n. run_single_threaded e = Some (pool_checksum s, m, n) \<and>
    tasks_completed (aggregate_metrics s) = tasks_completed m \<and>
    simulated_allocations (aggregate_metrics s) = simulated_allocations m \<and>
    pending s = []"
  by (rule returned_agrees [OF assms])

theorem multithreaded_agrees_witness:
  "\<exists>s m n. pool_reach (engine_of (small_config CacheLocal)) s \<and> pool_producer s = Returned \<and>
     run_single_threaded (engine_of (small_config CacheLocal)) = Some (pool_checksum s, m, n)"
  using small_returns [of CacheLocal] multithreaded_agrees [OF small_engine [of CacheLocal]] by blast

text \<open>
  C23. The pool never deadlocks when the queue has room for at least one task: in every reachable
  state whose producer has not returned, some thread can take a step without a spurious wake-up.
\<close>

theorem pool_never_stuck:
  assumes "new_engine config = Inr e" and "0 < queue_capacity config"
    and "pool_reach e s" and "pool_producer s \<noteq> Returned"
  shows "\<exists>t. pool_step e False s t"
proof -
  have "thread_inv e s" using pool_reach_threads [OF assms(3)] assms(1) by (auto simp: new_engine_Inr)
  then show ?thesis using pool_progress assms by (auto simp: new_engine_Inr)
qed

theorem pool_never_stuck_witness:
  "\<exists>t. pool_step (engine_of (small_config CacheLocal)) False
     (initial_pool (engine_of (small_config CacheLocal)) (work_items (small_config CacheLocal))) t"
proof (rule pool_never_stuck [OF small_engine])
  show "pool_reach (engine_of (small_config CacheLocal))
      (initial_pool (engine_of (small_config CacheLocal)) (work_items (small_config CacheLocal)))"
    by (rule initial_reach, subst build_work_items_eq) (simp_all add: small_config_def)
qed (simp_all add: small_config_def initial_pool_def)

text \<open>
  C24. Without spurious wake-ups a multithreaded run takes at most seven steps per work item, three
  per worker and three more, whatever the interleaving.
\<close>

theorem pool_terminates:
  assumes "new_engine config = Inr e" and "build_work_items e = Some items"
    and "(pool_step e False ^^ k) (initial_pool e items) s"
  shows "k \<le> 7 * length items + 3 * worker_count config + 3"
proof -
  have e: "engine_config e = config" "0 < queue_batch_size config"
    using assms(1) by (auto simp: new_engine_Inr)
  have "pool_work (initial_pool e items) = 7 * length items + 3 * worker_count config + 3"
    using e by (simp add: pool_work_def initial_pool_def new_worker_def sum_list_replicate)
  then show ?thesis using pool_step_bound [OF _ assms(3)] e by simp
qed

theorem pool_terminates_witness:
  "(\<exists>s. (pool_step (engine_of (small_config CacheLocal)) False ^^ 1)
      (initial_pool (engine_of (small_config CacheLocal)) (work_items (small_config CacheLocal))) s) \<and>
   1 \<le> 7 * length (work_items (small_config CacheLocal)) + 3 * worker_count (small_config CacheLocal) + 3"
proof -
  let ?e = "engine_of (small_config CacheLocal)" and ?items = "work_items (small_config CacheLocal)"
  have b: "build_work_items ?e = Some ?items"
    using build_work_items_eq [of ?e] by (simp add: small_config_def)
  have "\<exists>s. pool_step ?e False (initial_pool ?e ?items) s"
    by (rule pool_progress [OF initial_threads]) (simp_all add: small_config_def initial_pool_def)
  then obtain s where "pool_step ?e False (initial_pool ?e ?items) s" ..
  then have "(pool_step ?e False ^^ 1) (initial_pool ?e ?items) s" by (simp only: relpowp_1)
  then show ?thesis using pool_terminates [OF small_engine b] by blast
qed

text \<open>
  C25. The constructor accepts a queue capacity of zero when the worker count, the chunk size and the batch size are
  positive. A multithreaded run of such an engine never returns when the workload is not empty: in every state that
  it reaches, spurious wake-ups included, the producer has not got to push its first task. On an empty workload the run
  does return: until then one of its threads can move, and C24 bounds the number of moves.
\<close>

theorem no_capacity_hangs:
  assumes "queue_capacity config = 0"
    and "0 < worker_count config" and "0 < chunk_size config" and "0 < queue_batch_size config"
  shows "\<exists>e. new_engine config = Inr e \<and>
    (0 < workload_size config \<longrightarrow> (\<forall>s. pool_reach e s \<longrightarrow>
       pool_producer s \<noteq> Returned \<and> pool_queue s = [] \<and> unqueued (pool_producer s) = work_items config)) \<and>
    (workload_size config = 0 \<longrightarrow> (\<forall>s. pool_reach e s \<and> pool_producer s \<noteq> Returned \<longrightarrow> (\<exists>t. pool_step e False s t)))"
proof -
  let ?e = "engine_of config"
  have items: "work_items config = [] \<longleftrightarrow> workload_size config = 0"
    using item_count_less [OF assms(3), of 0 "workload_size config"] by (auto simp: work_items_def)
  have run: "(pool_step ?e True)\<^sup>*\<^sup>* (initial_pool ?e (work_items config)) s" if "pool_reach ?e s" for s
    using that build_work_items_eq [of ?e] assms(3) by (auto simp: pool_reach_def)
  have "pool_producer s \<noteq> Returned \<and> pool_queue s = [] \<and> unqueued (pool_producer s) = work_items config"
    if "0 < workload_size config" "pool_reach ?e s" for s
    using no_capacity_reach [OF run [OF that(2)]] assms(1) that(1) items by (auto simp: unqueued_def)
  moreover have "\<exists>t. pool_step ?e False s t"
    if "workload_size config = 0" "pool_reach ?e s" "pool_producer s \<noteq> Returned" for s
  proof -
    have "\<forall>xs. pool_producer s \<noteq> Blocked xs" using nothing_to_push [of ?e True s] run [OF that(2)] items that(1) by auto
    then show ?thesis using pool_progress [OF pool_reach_threads [OF that(2)]] assms(2) that(3) by simp
  qed
  moreover have "new_engine config = Inr ?e" using assms(2-4) by (simp add: new_engine_Inr)
  ultimately show ?thesis by (intro exI [of _ ?e]) simp
qed

definition closed_config :: benchmark_config where
  "closed_config = small_config CacheLocal\<lparr>queue_capacity := 0\<rparr>"

theorem no_capacity_hangs_witness:
  "\<exists>s t. pool_reach (engine_of closed_config) s \<and> pool_step (engine_of closed_config) False s t \<and>
     pool_producer t \<noteq> Returned \<and> unqueued (pool_producer t) = work_items closed_config"
proof -
  have n: "new_engine closed_config = Inr (engine_of closed_config)"
    by (simp add: new_engine_Inr small_config_def closed_config_def)
  let ?s = "initial_pool (engine_of closed_config) (work_items closed_config)"
  have s: "pool_reach (engine_of closed_config) ?s"
    by (rule initial_reach, subst build_work_items_eq) (simp_all add: closed_config_def small_config_def)
  have "0 < length (pool_workers ?s)" "worker_phase (pool_workers ?s ! 0) = Locking"
    by (simp_all add: initial_pool_def closed_config_def small_config_def new_worker_def)
  then obtain t where t: "pool_step (engine_of closed_config) False ?s t"
    using worker_can_step [of 0 ?s "engine_of closed_config" False] by auto
  have "queue_capacity closed_config = 0" "0 < worker_count closed_config" "0 < chunk_size closed_config"
    "0 < queue_batch_size closed_config" "0 < workload_size closed_config"
    by (simp_all add: closed_config_def small_config_def)
  from no_capacity_hangs [OF this(1-4)] this(5) n pool_reach_step [OF s t] s t show ?thesis by auto
qed

end
