(* ===== verification/Cpp_Double.thy ===== *)
theory Cpp_Double
  imports Complex_Main Cpp_Prelude
begin

text \<open>
  \<open>double\<close>: IEEE 754 binary64 in round-to-nearest-even. A finite double is the rational it denotes,
  and an operation rounds the exact rational result (\<open>round_double\<close>): the exponent is chosen so that
  the significand has 53 bits, but never below that of the subnormals, and the scaled value is rounded
  to an integer, ties to even; from $2^{1024}$ on the result is an infinity. The sign of a zero is not
  kept. It could only be seen by dividing by a negative zero; every divisor in the program is a
  constant, a converted integer or tested against zero, or a bandwidth of the configuration.
\<close>

section \<open>Powers of two and the binary exponent\<close>

fun bit_length :: "nat \<Rightarrow> nat" where
  "bit_length n = (if n = 0 then 0 else Suc (bit_length (n div 2)))"

declare bit_length.simps [simp del]

lemma bit_length_0 [simp]: "bit_length 0 = 0"
  by (simp add: bit_length.simps)

lemma bit_length_bounds: "n < 2 ^ bit_length n \<and> (0 < n \<longrightarrow> 2 ^ bit_length n \<le> 2 * n)"
proof (induction n rule: bit_length.induct)
  case (1 n)
  show ?case
  proof (cases "n = 0")
    case False
    then have IH: "n div 2 < 2 ^ bit_length (n div 2)"
      "0 < n div 2 \<longrightarrow> 2 ^ bit_length (n div 2) \<le> 2 * (n div 2)" using 1 by blast+
    show ?thesis
    proof (cases "n div 2 = 0")
      case True
      then have "n = 1" using False by linarith
      then show ?thesis by (simp add: bit_length.simps)
    next
      case nz: False
      have "n < 2 * 2 ^ bit_length (n div 2)" using IH(1) by linarith
      moreover have "2 * 2 ^ bit_length (n div 2) \<le> 2 * n" using IH(2) nz by linarith
      ultimately show ?thesis using False by (subst (1 2) bit_length.simps) simp
    qed
  qed simp
qed

text \<open>The exponent of the leading bit of a positive rational.\<close>

definition binexp :: "rat \<Rightarrow> int" where
  "binexp r =
     (let (p, q) = quotient_of r;
          e = int (bit_length (nat p)) - int (bit_length (nat q))
      in if 2 powi e \<le> r then e else e - 1)"

lemma powi_pos [simp]: "0 < (2 :: rat) powi e"
  by (simp add: power_int_def)

lemma powi_nonzero [simp]: "(2 :: rat) powi e \<noteq> 0"
  using powi_pos [of e] by linarith

lemma powi_mono: "e \<le> f \<Longrightarrow> (2 :: rat) powi e \<le> 2 powi f"
  by (rule power_int_increasing) simp_all

lemma powi_strict: "e < f \<Longrightarrow> (2 :: rat) powi e < 2 powi f"
  by (rule power_int_strict_increasing) simp_all

lemma powi_less_iff [simp]: "(2 :: rat) powi e < 2 powi f \<longleftrightarrow> e < f"
  using powi_strict powi_mono by (metis linorder_not_less)

lemma powi_le_iff [simp]: "(2 :: rat) powi e \<le> 2 powi f \<longleftrightarrow> e \<le> f"
  using powi_less_iff by (metis linorder_not_less)

lemma powi_add: "(2 :: rat) powi (e + f) = 2 powi e * 2 powi f"
  by (simp add: power_int_add)

lemma powi_diff: "(2 :: rat) powi (e - f) = 2 powi e / 2 powi f"
  by (simp add: power_int_diff)

lemma powi_nat: "(2 :: rat) powi (int n) = 2 ^ n"
  by simp

lemma powi_int: "0 \<le> e \<Longrightarrow> (2 :: rat) powi e = of_int (2 ^ nat e)"
  by (simp add: power_int_def)

lemma binexp_bounds:
  assumes "0 < r"
  shows "2 powi binexp r \<le> r \<and> r < 2 powi (binexp r + 1)"
proof -
  obtain p q where pq: "quotient_of r = (p, q)" by (cases "quotient_of r")
  then have r: "r = of_int p / of_int q" and q: "0 < q"
    using quotient_of_div quotient_of_denom_pos by blast+
  then have p: "0 < p" using assms by (simp add: zero_less_divide_iff)
  define P Q where "P = nat p" and "Q = nat q"
  have PQ: "of_int p = (of_nat P :: rat)" "of_int q = (of_nat Q :: rat)" "0 < P" "0 < Q"
    using p q by (simp_all add: P_def Q_def)
  let ?a = "bit_length P" and ?b = "bit_length Q"
  define e where "e = int ?a - int ?b"
  have E: "(2 :: rat) powi e = 2 ^ ?a / 2 ^ ?b" unfolding e_def powi_diff by simp
  have "P < 2 ^ ?a" "2 ^ ?b \<le> 2 * Q" "2 ^ ?a \<le> 2 * P" "Q < 2 ^ ?b"
    using bit_length_bounds PQ(3,4) by blast+
  then have "of_nat P < (of_nat (2 ^ ?a) :: rat)" "(of_nat (2 ^ ?b) :: rat) \<le> of_nat (2 * Q)"
    "(of_nat (2 ^ ?a) :: rat) \<le> of_nat (2 * P)" "of_nat Q < (of_nat (2 ^ ?b) :: rat)"
    by (simp_all only: of_nat_less_iff of_nat_le_iff)
  then have "of_int p < (2 :: rat) ^ ?a" "(2 :: rat) ^ ?b \<le> 2 * of_int q"
    "(2 :: rat) ^ ?a \<le> 2 * of_int p" "of_int q < (2 :: rat) ^ ?b"
    by (simp_all add: PQ)
  note b = this
  have up: "r < 2 * 2 powi e"
  proof -
    have "of_int p * 2 ^ ?b < (2 :: rat) ^ ?a * 2 ^ ?b" using b(1) by simp
    also have "\<dots> \<le> 2 ^ ?a * (2 * of_int q)" using b(2) by simp
    finally show ?thesis using q unfolding r E by (simp add: field_simps)
  qed
  have down: "2 powi e < 2 * r"
  proof -
    have "(2 :: rat) ^ ?a * of_int q \<le> 2 * of_int p * of_int q" using b(3) q by simp
    also have "\<dots> < 2 * of_int p * 2 ^ ?b" using b(4) p by simp
    finally show ?thesis using q unfolding r E by (simp add: field_simps)
  qed
  have d: "binexp r = (if 2 powi e \<le> r then e else e - 1)"
    by (simp add: binexp_def pq e_def P_def Q_def)
  have s: "(2 :: rat) powi (e + 1) = 2 * 2 powi e" "(2 :: rat) powi (e - 1) = 2 powi e / 2"
    by (simp_all add: powi_add powi_diff)
  show ?thesis using up down by (simp add: d s)
qed

lemma binexp_unique:
  assumes "2 powi k \<le> r" and "r < 2 powi (k + 1)"
  shows "binexp r = k"
proof -
  have "0 < r" using assms(1) powi_pos [of k] by linarith
  then have "2 powi binexp r \<le> r" "r < 2 powi (binexp r + 1)" using binexp_bounds by blast+
  then have "(2 :: rat) powi binexp r < 2 powi (k + 1)" "(2 :: rat) powi k < 2 powi (binexp r + 1)"
    using assms by linarith+
  then show ?thesis by simp
qed

lemma binexp_mono: "0 < r \<Longrightarrow> r \<le> s \<Longrightarrow> binexp r \<le> binexp s"
proof -
  assume "0 < r" "r \<le> s"
  then have "2 powi binexp r \<le> r" "s < 2 powi (binexp s + 1)" using binexp_bounds by simp_all
  then have "(2 :: rat) powi binexp r < 2 powi (binexp s + 1)" using \<open>r \<le> s\<close> by linarith
  then show "binexp r \<le> binexp s" by simp
qed

lemma binexp_ge: "2 powi k \<le> r \<Longrightarrow> k \<le> binexp r"
proof -
  assume k: "2 powi k \<le> r"
  then have "0 < r" using powi_pos [of k] by linarith
  then have "2 powi k < (2 :: rat) powi (binexp r + 1)" using binexp_bounds k by (meson le_less_trans)
  then have "k < binexp r + 1" by (simp only: powi_less_iff)
  then show ?thesis by simp
qed

section \<open>Rounding to an integer, ties to even\<close>

definition round_even :: "rat \<Rightarrow> int" where
  "round_even q =
     (let f = \<lfloor>q\<rfloor>; d = q - of_int f
      in if d < 1 / 2 then f else if 1 / 2 < d then f + 1 else if even f then f else f + 1)"

lemma round_even_int [simp]: "round_even (of_int n) = n"
  by (simp add: round_even_def)

lemma round_even_near: "\<bar>of_int (round_even q) - q\<bar> \<le> 1 / 2"
proof -
  define f where "f = \<lfloor>q\<rfloor>"
  have "of_int f \<le> q" "q < of_int f + 1" unfolding f_def by linarith+
  then show ?thesis unfolding round_even_def Let_def f_def [symmetric] by (simp add: abs_if)
qed

lemma round_even_mono:
  assumes "p \<le> q"
  shows "round_even p \<le> round_even q"
proof (cases "\<lfloor>p\<rfloor> = \<lfloor>q\<rfloor>")
  case True
  then show ?thesis using assms by (auto simp: round_even_def Let_def)
next
  case False
  then have "\<lfloor>p\<rfloor> + 1 \<le> \<lfloor>q\<rfloor>" using floor_mono [OF assms] by linarith
  moreover have "round_even p \<le> \<lfloor>p\<rfloor> + 1" "\<lfloor>q\<rfloor> \<le> round_even q"
    by (simp_all add: round_even_def Let_def)
  ultimately show ?thesis by linarith
qed

lemma round_even_le: "q \<le> of_int n \<Longrightarrow> round_even q \<le> n"
  using round_even_mono [of q "of_int n"] by simp

lemma round_even_ge: "of_int n \<le> q \<Longrightarrow> n \<le> round_even q"
  using round_even_mono [of "of_int n" q] by simp

section \<open>Rounding to a double\<close>

definition unit_exp :: "rat \<Rightarrow> int" where
  "unit_exp r = max (binexp r - 52) (- 1074)"

definition round_mag :: "rat \<Rightarrow> rat" where
  "round_mag r = (let e = unit_exp r in of_int (round_even (r / 2 powi e)) * 2 powi e)"

definition round_val :: "rat \<Rightarrow> rat" where
  "round_val r = (if r = 0 then 0 else if r < 0 then - round_mag (- r) else round_mag r)"

datatype double = Fin rat | Infty bool | NaN

text \<open>\<open>Infty True\<close> is the negative infinity.\<close>

definition round_double :: "rat \<Rightarrow> double" where
  "round_double r =
     (let v = round_val r in if 2 ^ 1024 \<le> \<bar>v\<bar> then Infty (r < 0) else Fin v)"

lemma scaled_bounds:
  assumes "0 < r"
  shows "r / 2 powi unit_exp r < 2 ^ 53"
    and "- 1074 < unit_exp r \<Longrightarrow> 2 ^ 52 \<le> r / 2 powi unit_exp r"
proof -
  let ?k = "binexp r"
  have b: "2 powi ?k \<le> r" "r < 2 powi (?k + 1)" using binexp_bounds [OF assms] by blast+
  have "?k + 1 \<le> unit_exp r + 53" by (simp add: unit_exp_def)
  then have "r < 2 powi (unit_exp r + 53)" using b(2) powi_mono by (meson less_le_trans)
  also have "\<dots> = 2 powi unit_exp r * 2 ^ 53" by (simp add: powi_add)
  finally show "r / 2 powi unit_exp r < 2 ^ 53" by (simp add: divide_less_eq mult.commute)
  assume "- 1074 < unit_exp r"
  then have "?k = unit_exp r + 52" by (auto simp: unit_exp_def max_def split: if_splits)
  then have "2 powi unit_exp r * 2 ^ 52 \<le> r" using b(1) by (simp add: powi_add)
  then show "2 ^ 52 \<le> r / 2 powi unit_exp r" by (simp add: le_divide_eq mult.commute)
qed

lemma unit_exp_mono: "0 < r \<Longrightarrow> r \<le> s \<Longrightarrow> unit_exp r \<le> unit_exp s"
  using binexp_mono [of r s] by (simp add: unit_exp_def)

lemma round_mag_nonneg: "0 < r \<Longrightarrow> 0 \<le> round_mag r"
proof -
  assume "0 < r"
  then have "of_int 0 \<le> r / 2 powi unit_exp r" by simp
  then have "0 \<le> round_even (r / 2 powi unit_exp r)" by (rule round_even_ge)
  then show ?thesis by (simp add: round_mag_def Let_def less_imp_le)
qed

lemma round_mag_mono:
  assumes "0 < r" and "r \<le> s"
  shows "round_mag r \<le> round_mag s"
proof -
  let ?e = "unit_exp r" and ?f = "unit_exp s"
  consider "?e = ?f" | "?e < ?f" using unit_exp_mono [OF assms] by linarith
  then show ?thesis
  proof cases
    case 1
    have "r / 2 powi ?e \<le> s / 2 powi ?e" using assms by (simp add: divide_right_mono)
    then have "round_even (r / 2 powi ?e) \<le> round_even (s / 2 powi ?e)" by (rule round_even_mono)
    then show ?thesis using 1 by (simp add: round_mag_def Let_def)
  next
    case 2
    have s: "0 < s" using assms by linarith
    have "r / 2 powi ?e \<le> of_int (2 ^ 53)" using scaled_bounds(1) [OF assms(1)] by simp
    then have "round_even (r / 2 powi ?e) \<le> 2 ^ 53" by (rule round_even_le)
    then have "of_int (round_even (r / 2 powi ?e)) \<le> (of_int (2 ^ 53) :: rat)"
      by (simp only: of_int_le_iff)
    then have "round_mag r \<le> of_int (2 ^ 53) * 2 powi ?e"
      unfolding round_mag_def Let_def by (rule mult_right_mono) (simp add: less_imp_le)
    also have "\<dots> = 2 powi (?e + 53)" by (simp add: powi_add)
    also have "\<dots> \<le> 2 powi (?f + 52)" using 2 by simp
    also have "\<dots> = of_int (2 ^ 52) * 2 powi ?f" by (simp add: powi_add)
    also have "\<dots> \<le> round_mag s"
    proof -
      have "- 1074 < ?f" using 2 by (auto simp: unit_exp_def)
      then have "of_int (2 ^ 52) \<le> s / 2 powi ?f" using scaled_bounds(2) [OF s] by simp
      then have "2 ^ 52 \<le> round_even (s / 2 powi ?f)" by (rule round_even_ge)
      then have "(of_int (2 ^ 52) :: rat) \<le> of_int (round_even (s / 2 powi ?f))"
        by (simp only: of_int_le_iff)
      then show ?thesis unfolding round_mag_def Let_def
        by (rule mult_right_mono) (simp add: less_imp_le)
    qed
    finally show ?thesis .
  qed
qed

lemma round_val_0 [simp]: "round_val 0 = 0"
  by (simp add: round_val_def)

lemma round_val_minus [simp]: "round_val (- r) = - round_val r"
  by (simp add: round_val_def)

lemma round_val_nonneg: "0 \<le> r \<Longrightarrow> 0 \<le> round_val r"
  using round_mag_nonneg [of r] by (simp add: round_val_def)

lemma round_val_mono:
  assumes "r \<le> s"
  shows "round_val r \<le> round_val s"
proof (cases "0 < r")
  case True
  then show ?thesis using round_mag_mono [OF True assms] assms by (simp add: round_val_def)
next
  case nr: False
  show ?thesis
  proof (cases "0 \<le> s")
    case True
    have "round_val r \<le> 0" using round_val_nonneg [of "- r"] nr by simp
    then show ?thesis using round_val_nonneg [OF True] by linarith
  next
    case False
    then have "round_mag (- s) \<le> round_mag (- r)" using assms by (intro round_mag_mono) simp_all
    then show ?thesis using False assms by (simp add: round_val_def)
  qed
qed

section \<open>Which values are exact\<close>

lemma round_mag_exact:
  assumes r: "r = of_int m * 2 powi e" and m: "0 < m" "m \<le> 2 ^ 53" and e: "- 1074 \<le> e"
  shows "round_mag r = r"
proof -
  have pos: "0 < r" using r m(1) by simp
  have "\<exists>n. r / 2 powi unit_exp r = of_int n"
  proof (cases "unit_exp r \<le> e")
    case True
    have "r / 2 powi unit_exp r = of_int m * 2 powi (e - unit_exp r)" by (simp add: r powi_diff)
    also have "\<dots> = of_int (m * 2 ^ nat (e - unit_exp r))"
      using powi_int [of "e - unit_exp r"] True by simp
    finally show ?thesis by blast
  next
    case False
    then have u: "unit_exp r = binexp r - 52" using e by (auto simp: unit_exp_def)
    have "r \<le> of_int (2 ^ 53) * 2 powi e"
      unfolding r using m(2) by (intro mult_right_mono) (simp_all only: of_int_le_iff, simp add: less_imp_le)
    also have "\<dots> = 2 powi (e + 53)" by (simp add: powi_add)
    finally have hi: "r \<le> 2 powi (e + 53)" .
    moreover have lo: "2 powi binexp r \<le> r" using binexp_bounds [OF pos] by blast
    ultimately have "(2 :: rat) powi binexp r \<le> 2 powi (e + 53)" by linarith
    then have "binexp r = e + 53" using False u by simp
    then have "r = 2 powi (e + 53)" "unit_exp r = e + 1" using hi lo u by simp_all
    then have "r / 2 powi unit_exp r = 2 powi 52" by (simp add: powi_diff [symmetric])
    then show ?thesis by (intro exI [of _ "2 ^ 52"]) simp
  qed
  then obtain n where n: "r / 2 powi unit_exp r = of_int n" by blast
  then have "r = of_int n * 2 powi unit_exp r" by (simp add: divide_eq_eq)
  then show ?thesis unfolding round_mag_def Let_def n by simp
qed

lemma round_val_exact:
  assumes "\<bar>m\<bar> \<le> 2 ^ 53" and "- 1074 \<le> e"
  shows "round_val (of_int m * 2 powi e) = of_int m * 2 powi e"
proof -
  consider "m = 0" | "0 < m" | "m < 0" by linarith
  then show ?thesis
  proof cases
    case 2
    then have "0 < (of_int m :: rat) * 2 powi e" by simp
    then show ?thesis using round_mag_exact [OF refl 2, of e] assms
      by (simp add: round_val_def not_less less_imp_le)
  next
    case 3
    then have "round_mag (of_int (- m) * 2 powi e) = of_int (- m) * 2 powi e"
      using assms by (intro round_mag_exact [OF refl]) simp_all
    moreover have "(of_int m :: rat) * 2 powi e < 0" using 3 by (simp add: mult_neg_pos)
    ultimately show ?thesis by (simp add: round_val_def)
  qed simp
qed

lemma round_val_int [simp]: "\<bar>m\<bar> \<le> 2 ^ 53 \<Longrightarrow> round_val (of_int m) = of_int m"
  using round_val_exact [of m 0] by simp

lemma round_val_form: "\<exists>m e. round_val r = of_int m * 2 powi e \<and> \<bar>m\<bar> \<le> 2 ^ 53 \<and> - 1074 \<le> e"
proof -
  have mag: "\<exists>m e. round_mag r = of_int m * 2 powi e \<and> \<bar>m\<bar> \<le> 2 ^ 53 \<and> - 1074 \<le> e" if "0 < r" for r
  proof -
    have "of_int 0 \<le> r / 2 powi unit_exp r" "r / 2 powi unit_exp r \<le> of_int (2 ^ 53)"
      using that scaled_bounds(1) [OF that] by simp_all
    then have "0 \<le> round_even (r / 2 powi unit_exp r)" "round_even (r / 2 powi unit_exp r) \<le> 2 ^ 53"
      by (auto intro: round_even_ge round_even_le)
    then show ?thesis
      by (intro exI [of _ "round_even (r / 2 powi unit_exp r)"] exI [of _ "unit_exp r"])
        (simp add: round_mag_def Let_def unit_exp_def)
  qed
  show ?thesis
  proof (cases "r = 0")
    case True
    then show ?thesis by (intro exI [of _ 0]) simp
  next
    case False
    show ?thesis
    proof (cases "0 < r")
      case True
      then show ?thesis using mag by (simp add: round_val_def)
    next
      case neg: False
      then obtain m e where "round_mag (- r) = of_int m * 2 powi e" "\<bar>m\<bar> \<le> 2 ^ 53" "- 1074 \<le> e"
        using mag [of "- r"] False by auto
      then show ?thesis using neg False
        by (intro exI [of _ "- m"] exI [of _ e]) (simp add: round_val_def)
    qed
  qed
qed

lemma round_val_idem [simp]: "round_val (round_val r) = round_val r"
  using round_val_form [of r] round_val_exact by metis

text \<open>Below one, rounding moves a value by at most $2^{-54}$.\<close>

lemma round_val_near_unit:
  assumes "0 \<le> r" and "r \<le> 1"
  shows "\<bar>round_val r - r\<bar> \<le> 1 / 2 ^ 54"
proof -
  consider "r = 0" | "r = 1" | "0 < r" "r < 1" using assms by linarith
  then show ?thesis
  proof cases
    case 2
    have "round_val (of_int 1) = of_int 1" by (rule round_val_int) simp
    then show ?thesis using 2 by simp
  next
    case 3
    have "2 powi binexp r < (2 :: rat) powi 0" using binexp_bounds [OF 3(1)] 3(2) by simp
    then have "binexp r < 0" by (simp only: powi_less_iff)
    then have u: "unit_exp r \<le> - 53" by (simp add: unit_exp_def)
    let ?q = "r / 2 powi unit_exp r"
    have "round_val r - r = (of_int (round_even ?q) - ?q) * 2 powi unit_exp r"
      using 3(1) by (simp add: round_val_def round_mag_def Let_def left_diff_distrib)
    then have "\<bar>round_val r - r\<bar> = \<bar>of_int (round_even ?q) - ?q\<bar> * 2 powi unit_exp r"
      by (simp only: abs_mult abs_of_pos [OF powi_pos])
    also have "\<dots> \<le> 1 / 2 * 2 powi (- 53)"
      by (rule mult_mono [OF round_even_near powi_mono [OF u]]) (simp_all add: less_imp_le)
    also have "\<dots> = 1 / 2 ^ 54" by (simp add: power_int_def power_divide)
    finally show ?thesis .
  qed simp
qed

text \<open>A value is a double when rounding does not change it.\<close>

definition is_double :: "rat \<Rightarrow> bool" where
  "is_double r \<longleftrightarrow> round_val r = r \<and> \<bar>r\<bar> < 2 ^ 1024"

lemma round_double_exact: "is_double r \<Longrightarrow> round_double r = Fin r"
  by (simp add: is_double_def round_double_def)

lemma round_double_Fin_iff: "round_double r = Fin v \<longleftrightarrow> v = round_val r \<and> is_double v"
  by (auto simp: round_double_def is_double_def Let_def)

lemma is_double_int: "\<bar>m\<bar> \<le> 2 ^ 53 \<Longrightarrow> is_double (of_int m)"
proof -
  assume m: "\<bar>m\<bar> \<le> 2 ^ 53"
  then have "\<bar>m\<bar> < 2 ^ 1024" by simp
  then have "\<bar>of_int m\<bar> < (of_int (2 ^ 1024) :: rat)" by (simp only: of_int_abs [symmetric] of_int_less_iff)
  then show ?thesis using m by (simp add: is_double_def)
qed

lemma is_double_nat: "n \<le> 2 ^ 53 \<Longrightarrow> is_double (of_nat n)"
  using is_double_int [of "int n"] by simp

lemma is_double_0 [simp]: "is_double 0"
  by (simp add: is_double_def)

lemma is_double_minus [simp]: "is_double (- r) \<longleftrightarrow> is_double r"
  by (simp add: is_double_def)

lemma is_double_between: "is_double s \<Longrightarrow> 0 \<le> r \<Longrightarrow> r \<le> s \<Longrightarrow> is_double (round_val r)"
  using round_val_mono [of r s] round_val_nonneg [of r] by (simp add: is_double_def)

lemma round_val_abs: "\<bar>round_val r\<bar> = round_val \<bar>r\<bar>"
  using round_val_nonneg [of r] round_val_nonneg [of "- r"] by (cases "0 \<le> r") (simp_all add: abs_if)

lemma is_double_powi: "- 1074 \<le> e \<Longrightarrow> e < 1024 \<Longrightarrow> is_double (2 powi e)"
proof -
  assume e: "- 1074 \<le> e" "e < 1024"
  have "(2 :: rat) powi 1024 = 2 ^ 1024" by (simp add: power_int_def)
  then have "(2 :: rat) powi e < 2 ^ 1024" using powi_strict [OF e(2)] by (simp only:)
  then show ?thesis using round_val_exact [of 1 e] e(1) by (simp add: is_double_def)
qed

lemma round_between:
  assumes "2 powi a \<le> r" and "r \<le> 2 powi b" and "- 1074 \<le> a" and "b < 1024"
  shows "round_double r = Fin (round_val r)" and "2 powi a \<le> round_val r" and "round_val r \<le> 2 powi b"
proof -
  have "(2 :: rat) powi a \<le> 2 powi b" using assms(1,2) by linarith
  then have "a \<le> b" by (simp only: powi_le_iff)
  then have d: "is_double (2 powi a)" "is_double (2 powi b)" using assms(3,4) by (simp_all add: is_double_powi)
  show "2 powi a \<le> round_val r" "round_val r \<le> 2 powi b"
    using round_val_mono [OF assms(1)] round_val_mono [OF assms(2)] d by (simp_all add: is_double_def)
  have "0 \<le> r" using assms(1) powi_pos [of a] by linarith
  then show "round_double r = Fin (round_val r)"
    using is_double_between [OF d(2) _ assms(2)] by (simp add: round_double_Fin_iff)
qed

lemma round_zero: "round_double 0 = Fin 0"
  by (simp add: round_double_exact)

section \<open>The order of the doubles\<close>

text \<open>
  \<open>NaN\<close> is put above everything, which makes the order linear; the comparisons of C++ are those of
  this order between numbers, and false on \<open>NaN\<close>.
\<close>

fun double_class :: "double \<Rightarrow> nat \<times> rat" where
  "double_class (Infty True) = (0, 0)"
| "double_class (Fin r) = (1, r)"
| "double_class (Infty False) = (2, 0)"
| "double_class NaN = (3, 0)"

lemma double_class_inj: "double_class x = double_class y \<longleftrightarrow> x = y"
  by (cases x rule: double_class.cases; cases y rule: double_class.cases) simp_all

instantiation double :: linorder
begin

definition less_eq_double :: "double \<Rightarrow> double \<Rightarrow> bool" where
  "less_eq_double x y \<longleftrightarrow> fst (double_class x) < fst (double_class y) \<or>
     fst (double_class x) = fst (double_class y) \<and> snd (double_class x) \<le> snd (double_class y)"

definition less_double :: "double \<Rightarrow> double \<Rightarrow> bool" where
  "less_double x y \<longleftrightarrow> fst (double_class x) < fst (double_class y) \<or>
     fst (double_class x) = fst (double_class y) \<and> snd (double_class x) < snd (double_class y)"

instance
proof
  fix x y z :: double
  show "x < y \<longleftrightarrow> x \<le> y \<and> \<not> y \<le> x" by (auto simp: less_double_def less_eq_double_def)
  show "x \<le> x" by (simp add: less_eq_double_def)
  show "x \<le> y \<Longrightarrow> y \<le> z \<Longrightarrow> x \<le> z" by (auto simp: less_eq_double_def)
  show "x \<le> y \<Longrightarrow> y \<le> x \<Longrightarrow> x = y"
    by (auto simp: less_eq_double_def double_class_inj [symmetric] prod_eq_iff)
  show "x \<le> y \<or> y \<le> x" by (auto simp: less_eq_double_def)
qed

end

lemmas double_order_defs = less_double_def less_eq_double_def

lemma double_Fin_order [simp]: "Fin a < Fin b \<longleftrightarrow> a < b" "Fin a \<le> Fin b \<longleftrightarrow> a \<le> b"
  by (simp_all add: double_order_defs)

lemma double_Infty_order [simp]:
  "Fin a < Infty s \<longleftrightarrow> \<not> s" "Fin a \<le> Infty s \<longleftrightarrow> \<not> s"
  "Infty s < Fin a \<longleftrightarrow> s" "Infty s \<le> Fin a \<longleftrightarrow> s"
  "Infty s \<le> Infty t \<longleftrightarrow> (t \<longrightarrow> s)"
  by (cases s; cases t; simp add: double_order_defs)+

lemma double_NaN_top [simp]: "x \<le> NaN"
  by (cases x rule: double_class.cases) (simp_all add: double_order_defs)

lemma double_NaN_le [simp]: "NaN \<le> x \<longleftrightarrow> x = NaN"
  using double_NaN_top [of x] by (metis antisym order_refl)

lemma double_NaN_less [simp]: "\<not> NaN < x"
  using double_NaN_top [of x] by (simp add: not_less)

lemma double_less_NaN [simp]: "x < NaN \<longleftrightarrow> x \<noteq> NaN"
  by (metis double_NaN_top order_less_le)

lemma round_double_mono: "r \<le> s \<Longrightarrow> round_double r \<le> round_double s"
proof -
  assume le: "r \<le> s"
  define B :: rat where "B = 2 ^ 1024"
  have B: "0 < B" by (simp add: B_def)
  have sign: "\<not> q < 0 \<longrightarrow> 0 \<le> round_val q" "q < 0 \<longrightarrow> round_val q \<le> 0" for q
    using round_val_nonneg [of q] round_val_nonneg [of "- q"] by auto
  show ?thesis
    using round_val_mono [OF le] sign [of r] sign [of s] B le
    unfolding round_double_def Let_def B_def [symmetric] by (auto simp: abs_if split: if_splits)
qed

lemma round_double_not_NaN [simp]: "round_double r \<noteq> NaN"
  by (simp add: round_double_def Let_def)

section \<open>Operations\<close>

fun dneg :: "double \<Rightarrow> double" where
  "dneg (Fin r) = Fin (- r)"
| "dneg (Infty s) = Infty (\<not> s)"
| "dneg NaN = NaN"

fun dadd :: "double \<Rightarrow> double \<Rightarrow> double" where
  "dadd (Fin a) (Fin b) = round_double (a + b)"
| "dadd (Fin a) (Infty s) = Infty s"
| "dadd (Infty s) (Fin b) = Infty s"
| "dadd (Infty s) (Infty t) = (if s = t then Infty s else NaN)"
| "dadd _ _ = NaN"

definition dsub :: "double \<Rightarrow> double \<Rightarrow> double" where
  "dsub x y = dadd x (dneg y)"

lemma round_double_minus: "round_double (- r) = dneg (round_double r)"
proof (cases "r = 0")
  case False
  then show ?thesis by (simp add: round_double_def Let_def not_less_iff_gr_or_eq)
qed (simp add: round_double_def)

lemma dsub_swap: "dsub (Fin a) (Fin b) = dneg (dsub (Fin b) (Fin a))"
  using round_double_minus [of "b - a"] by (simp add: dsub_def)

lemma dsub_self: "dsub (Fin a) (Fin a) = Fin 0"
  by (simp add: dsub_def round_double_exact)

text \<open>A difference of doubles is zero only for equal ones: subnormal results keep its sign.\<close>

lemma double_grid:
  assumes "is_double a"
  shows "\<exists>m. a = of_int m * 2 powi (- 1074)"
proof -
  obtain m e where a: "a = of_int m * 2 powi e" "- 1074 \<le> e"
    using assms round_val_form [of a] by (auto simp: is_double_def)
  have "(2 :: rat) powi e = 2 powi (e + 1074) * 2 powi (- 1074)" unfolding powi_add [symmetric] by simp
  also have "\<dots> = of_int (2 ^ nat (e + 1074)) * 2 powi (- 1074)" using a(2) powi_int [of "e + 1074"] by simp
  finally show ?thesis using a(1) by (intro exI [of _ "m * 2 ^ nat (e + 1074)"]) (simp only: of_int_mult mult.assoc)
qed

lemma dsub_sign:
  assumes "is_double a" and "is_double b"
  shows "dsub (Fin a) (Fin b) < Fin 0 \<longleftrightarrow> a < b"
proof (cases "a < b")
  case True
  obtain m where m: "a = of_int m * 2 powi (- 1074)" using double_grid [OF assms(1)] by blast
  obtain n where n: "b = of_int n * 2 powi (- 1074)" using double_grid [OF assms(2)] by blast
  have "m < n" using True unfolding m n by (simp only: mult_less_cancel_right_pos [OF powi_pos] of_int_less_iff)
  then have "of_int (m - n) \<le> (of_int (- 1) :: rat)" by (simp only: of_int_le_iff)
  then have "of_int (m - n) * 2 powi (- 1074) \<le> (of_int (- 1) * 2 powi (- 1074) :: rat)"
    by (rule mult_right_mono) (simp add: less_imp_le)
  moreover have "a + - b = of_int (m - n) * 2 powi (- 1074)" unfolding m n by (simp add: left_diff_distrib)
  ultimately have le: "a + - b \<le> of_int (- 1) * 2 powi (- 1074)" by (simp only:)
  have "round_val (of_int (- 1) * 2 powi (- 1074)) = of_int (- 1) * 2 powi (- 1074)" by (rule round_val_exact) simp_all
  then have "round_val (a + - b) \<le> of_int (- 1) * 2 powi (- 1074)" using round_val_mono [OF le] by (simp only:)
  moreover have "of_int (- 1) * 2 powi (- 1074) < (0 :: rat)" using powi_pos [of "- 1074"] by simp
  ultimately have "round_val (a + - b) < 0" by (rule le_less_trans)
  then show ?thesis using True by (simp add: dsub_def round_double_def Let_def)
next
  case False
  then have "0 \<le> a + - b" by simp
  then have "round_double 0 \<le> round_double (a + - b)" by (rule round_double_mono)
  then show ?thesis using False by (simp add: dsub_def round_zero not_less)
qed

fun dmul :: "double \<Rightarrow> double \<Rightarrow> double" where
  "dmul (Fin a) (Fin b) = round_double (a * b)"
| "dmul (Fin a) (Infty s) = (if a = 0 then NaN else Infty ((a < 0) \<noteq> s))"
| "dmul (Infty s) (Fin b) = (if b = 0 then NaN else Infty (s \<noteq> (b < 0)))"
| "dmul (Infty s) (Infty t) = Infty (s \<noteq> t)"
| "dmul _ _ = NaN"

fun ddiv :: "double \<Rightarrow> double \<Rightarrow> double" where
  "ddiv (Fin a) (Fin b) =
     (if b = 0 then (if a = 0 then NaN else Infty (a < 0)) else round_double (a / b))"
| "ddiv (Fin a) (Infty s) = Fin 0"
| "ddiv (Infty s) (Fin b) = Infty (s \<noteq> (b < 0))"
| "ddiv (Infty s) (Infty t) = NaN"
| "ddiv _ _ = NaN"

text \<open>The comparisons \<open><\<close>, \<open><=\<close> and \<open>==\<close>, \<open>std::max\<close> and \<open>std::clamp\<close>.\<close>

definition dlt :: "double \<Rightarrow> double \<Rightarrow> bool" where
  "dlt x y \<longleftrightarrow> x \<noteq> NaN \<and> y \<noteq> NaN \<and> x < y"

definition dle :: "double \<Rightarrow> double \<Rightarrow> bool" where
  "dle x y \<longleftrightarrow> x \<noteq> NaN \<and> y \<noteq> NaN \<and> x \<le> y"

definition deq :: "double \<Rightarrow> double \<Rightarrow> bool" where
  "deq x y \<longleftrightarrow> x \<noteq> NaN \<and> x = y"

definition dmax :: "double \<Rightarrow> double \<Rightarrow> double" where
  "dmax a b = (if dlt a b then b else a)"

definition dclamp :: "double \<Rightarrow> double \<Rightarrow> double \<Rightarrow> double" where
  "dclamp v lo hi = (if dlt v lo then lo else if dlt hi v then hi else v)"

text \<open>\<open>static_cast<double>\<close> of an unsigned integer.\<close>

definition of_size :: "nat \<Rightarrow> double" where
  "of_size n = round_double (of_nat n)"

text \<open>
  \<open>static_cast<std::size_t>\<close> of \<open>std::floor\<close> and \<open>std::ceil\<close>. The conversion is undefined in C++
  for negative values, infinities and \<open>NaN\<close>; here it gives 0.
\<close>

definition size_floor :: "double \<Rightarrow> nat" where
  "size_floor x = (case x of Fin r \<Rightarrow> nat \<lfloor>r\<rfloor> | _ \<Rightarrow> 0)"

definition size_ceil :: "double \<Rightarrow> nat" where
  "size_ceil x = (case x of Fin r \<Rightarrow> nat \<lceil>r\<rceil> | _ \<Rightarrow> 0)"

section \<open>Square root\<close>

fun isqrt :: "nat \<Rightarrow> nat" where
  "isqrt n = (if n = 0 then 0 else
     (let m = 2 * isqrt (n div 4) in if (m + 1) * (m + 1) \<le> n then m + 1 else m))"

declare isqrt.simps [simp del]

lemma isqrt_bounds: "isqrt n * isqrt n \<le> n \<and> n < (isqrt n + 1) * (isqrt n + 1)"
proof (induction n rule: isqrt.induct)
  case (1 n)
  show ?case
  proof (cases "n = 0")
    case True
    then show ?thesis by (simp add: isqrt.simps)
  next
    case False
    define k where "k = isqrt (n div 4)"
    have k: "k * k \<le> n div 4" "n div 4 < (k + 1) * (k + 1)" using 1 False unfolding k_def by blast+
    have lo: "4 * (k * k) \<le> n" using k(1) by linarith
    have hi: "n < 4 * ((k + 1) * (k + 1))" using k(2) by linarith
    have "isqrt n = (if (2 * k + 1) * (2 * k + 1) \<le> n then 2 * k + 1 else 2 * k)"
      using False by (subst isqrt.simps) (simp add: Let_def k_def)
    then show ?thesis using lo hi by (auto simp: algebra_simps)
  qed
qed

text \<open>
  The root of \<open>r\<close> scaled to a 64-bit integer, a half added when it is not exact: this lies on the
  same side of every double, and of every midpoint between two, as the root does (\<open>sqrt_val_side\<close>).
\<close>

definition sqrt_val :: "rat \<Rightarrow> rat" where
  "sqrt_val r =
     (if r = 0 then 0 else
       (let t = 64 - binexp r div 2;
            x = r * 4 powi t;
            n = isqrt (nat \<lfloor>x\<rfloor>)
        in (of_nat n + (if of_nat (n * n) = x then 0 else 1 / 2)) / 2 powi t))"

fun dsqrt :: "double \<Rightarrow> double" where
  "dsqrt (Fin r) = (if r < 0 then NaN else round_double (sqrt_val r))"
| "dsqrt (Infty s) = (if s then NaN else Infty False)"
| "dsqrt NaN = NaN"

lemma sqrt_val_nonneg: "0 \<le> sqrt_val r"
  by (simp add: sqrt_val_def Let_def)

lemma sqrt_val_near:
  assumes "0 < r"
  shows "\<exists>n t. 2 ^ 63 \<le> n \<and> of_nat n / 2 powi t \<le> sqrt_val r \<and> sqrt_val r < (of_nat n + 1) / 2 powi t \<and>
    (of_nat n / 2 powi t) ^ 2 \<le> r \<and> r < ((of_nat n + 1) / 2 powi t) ^ 2 \<and>
    (sqrt_val r = of_nat n / 2 powi t \<longleftrightarrow> r = (of_nat n / 2 powi t) ^ 2)"
proof -
  define t where "t = 64 - binexp r div 2"
  define x where "x = r * 4 powi t"
  define n where "n = isqrt (nat \<lfloor>x\<rfloor>)"
  have x0: "0 < x" using assms by (simp add: x_def power_int_def)
  have fl: "of_nat (nat \<lfloor>x\<rfloor>) \<le> x" "x < of_nat (nat \<lfloor>x\<rfloor>) + 1" using x0 by (simp_all add: of_nat_nat floor_less_iff) linarith
  have four: "(4 :: rat) powi t = (2 powi t) ^ 2"
  proof -
    have "(4 :: rat) powi t = (2 * 2) powi t" by simp
    also have "\<dots> = (2 powi t) ^ 2" by (simp only: power_int_mult_distrib power2_eq_square)
    finally show ?thesis .
  qed
  have lo: "of_nat (n * n) \<le> x"
    using isqrt_bounds [of "nat \<lfloor>x\<rfloor>"] fl(1) unfolding n_def
    by (meson of_nat_mono order_trans)
  have hi: "x < of_nat ((n + 1) * (n + 1))"
  proof -
    have "nat \<lfloor>x\<rfloor> + 1 \<le> (n + 1) * (n + 1)" using isqrt_bounds [of "nat \<lfloor>x\<rfloor>"] unfolding n_def by simp
    then have "of_nat (nat \<lfloor>x\<rfloor>) + 1 \<le> (of_nat ((n + 1) * (n + 1)) :: rat)"
      by (metis of_nat_1 of_nat_add of_nat_mono)
    then show ?thesis using fl(2) by linarith
  qed
  have "2 powi 126 \<le> x"
  proof -
    have "2 powi binexp r \<le> r" using binexp_bounds [OF assms] by blast
    moreover have "(4 :: rat) powi t = 2 powi (2 * t)" unfolding four power2_eq_square
      by (simp add: powi_add [symmetric])
    ultimately have "2 powi binexp r * 2 powi (2 * t) \<le> x" unfolding x_def by simp
    then have "2 powi (binexp r + 2 * t) \<le> x" by (simp only: powi_add)
    moreover have "126 \<le> binexp r + 2 * t" unfolding t_def by (simp add: div_mult_mod_eq)
    ultimately show ?thesis using powi_mono by (meson order_trans)
  qed
  then have "(of_nat (2 ^ 63 * 2 ^ 63) :: rat) < of_nat ((n + 1) * (n + 1))" using hi by simp
  then have sq: "(2 :: nat) ^ 63 * 2 ^ 63 < (n + 1) * (n + 1)" by (simp only: of_nat_less_iff)
  have big: "2 ^ 63 \<le> n"
  proof (rule ccontr)
    assume "\<not> 2 ^ 63 \<le> n"
    then have le: "n + 1 \<le> 2 ^ 63" by linarith
    show False using mult_le_mono [OF le le] sq by linarith
  qed
  have v: "sqrt_val r = (of_nat n + (if of_nat (n * n) = x then 0 else 1 / 2)) / 2 powi t"
    using assms unfolding sqrt_val_def Let_def n_def x_def t_def by simp
  have r: "r = x / (2 powi t) ^ 2" unfolding x_def four by simp
  have e: "of_nat (n * n) = x \<longleftrightarrow> r = (of_nat n / 2 powi t) ^ 2"
    unfolding r by (auto simp: power_divide power2_eq_square)
  have "(of_nat n / 2 powi t) ^ 2 \<le> r" unfolding r power_divide
    by (rule divide_right_mono) (use lo in \<open>simp_all add: power2_eq_square\<close>)
  moreover have "r < ((of_nat n + 1) / 2 powi t) ^ 2" unfolding r power_divide
    by (rule divide_strict_right_mono) (use hi in \<open>simp_all add: power2_eq_square algebra_simps\<close>)
  moreover have "of_nat n / 2 powi t \<le> sqrt_val r" "sqrt_val r < (of_nat n + 1) / 2 powi t"
    unfolding v by (rule divide_right_mono, simp, simp add: less_imp_le)
      (rule divide_strict_right_mono, simp, rule powi_pos)
  moreover have "sqrt_val r = of_nat n / 2 powi t \<longleftrightarrow> r = (of_nat n / 2 powi t) ^ 2"
    unfolding v e [symmetric] divide_cancel_right using powi_nonzero [of t] by simp
  ultimately show ?thesis using big by blast
qed

text \<open>
  The multiples of half a unit in the last place, which are the doubles and the midpoints around the root, compare with
  \<open>sqrt_val r\<close> as they compare with the root: so \<open>dsqrt\<close> rounds the root itself, correctly and ties included.
\<close>

lemma sqrt_val_side:
  assumes "0 < r" and g: "g = of_int k * 2 powi (unit_exp (sqrt_val r) - 1)" and "0 \<le> k"
  shows "g \<le> sqrt_val r \<longleftrightarrow> g\<^sup>2 \<le> r" and "g = sqrt_val r \<longleftrightarrow> g\<^sup>2 = r"
proof -
  obtain n t where n: "2 ^ 63 \<le> n" and v: "of_nat n / 2 powi t \<le> sqrt_val r" "sqrt_val r < (of_nat n + 1) / 2 powi t"
    and q: "(of_nat n / 2 powi t) ^ 2 \<le> r" "r < ((of_nat n + 1) / 2 powi t) ^ 2"
    and e: "sqrt_val r = of_nat n / 2 powi t \<longleftrightarrow> r = (of_nat n / 2 powi t) ^ 2"
    using sqrt_val_near [OF assms(1)] by blast
  have "(of_nat (2 ^ 63) :: rat) \<le> of_nat n" using n by (simp only: of_nat_le_iff)
  then have "(2 :: rat) powi 63 \<le> of_nat n" by (simp add: power_int_def)
  then have "2 powi 63 / 2 powi t \<le> of_nat n / (2 :: rat) powi t" by (rule divide_right_mono) (simp add: less_imp_le)
  then have "2 powi (63 - t) \<le> sqrt_val r" using v(1) by (simp only: powi_diff)
  then have "63 - t \<le> binexp (sqrt_val r)" by (rule binexp_ge)
  then have "0 \<le> unit_exp (sqrt_val r) - 1 + t" by (simp add: unit_exp_def)
  from powi_int [OF this] obtain c where c: "(2 :: rat) powi (unit_exp (sqrt_val r) - 1 + t) = of_int c"
    and c0: "0 \<le> c" by simp
  define K where "K = k * c"
  have "2 powi (unit_exp (sqrt_val r) - 1) = of_int c / (2 :: rat) powi t"
    using c unfolding powi_add [of _ t] by (simp add: eq_divide_eq)
  then have gK: "g = of_int K / 2 powi t" by (simp add: g K_def)
  have g0: "0 \<le> g" using assms(3) unfolding g by (simp add: less_imp_le)
  have h0: "0 \<le> of_nat n / (2 :: rat) powi t" "0 \<le> (of_nat n + 1) / (2 :: rat) powi t" by (simp_all add: less_imp_le)
  consider (below) "K < int n" | (at) "K = int n" | (above) "int n + 1 \<le> K" by linarith
  then have "(g \<le> sqrt_val r \<longleftrightarrow> g\<^sup>2 \<le> r) \<and> (g = sqrt_val r \<longleftrightarrow> g\<^sup>2 = r)"
  proof cases
    case below
    then have "of_int K < (of_int (int n) :: rat)" by (simp only: of_int_less_iff)
    then have lt: "g < of_nat n / 2 powi t" unfolding gK by (simp add: divide_strict_right_mono)
    then have "g\<^sup>2 < (of_nat n / 2 powi t)\<^sup>2" using g0 by (intro power_strict_mono) simp_all
    then show ?thesis using lt v(1) q(1) by auto
  next
    case at
    then have "g = of_nat n / 2 powi t" unfolding gK by simp
    then show ?thesis using v(1) q(1) e by auto
  next
    case above
    then have "(of_int (int n + 1) :: rat) \<le> of_int K" by (simp only: of_int_le_iff)
    then have le: "(of_nat n + 1) / 2 powi t \<le> g" unfolding gK by (simp add: divide_right_mono less_imp_le)
    then have "((of_nat n + 1) / 2 powi t)\<^sup>2 \<le> g\<^sup>2" using h0(2) by (intro power_mono)
    then show ?thesis using le v(2) q(2) by auto
  qed
  then show "g \<le> sqrt_val r \<longleftrightarrow> g\<^sup>2 \<le> r" "g = sqrt_val r \<longleftrightarrow> g\<^sup>2 = r" by blast+
qed

text \<open>Quotients of counters below $2^{53}$.\<close>

lemma of_size_exact: "n \<le> 2 ^ 53 \<Longrightarrow> of_size n = Fin (of_nat n)"
  by (simp add: of_size_def round_double_exact is_double_nat)

lemma is_double_2_64: "is_double (2 ^ 64)"
proof -
  have e: "(of_int 1 :: rat) * 2 powi 64 = 2 ^ 64" by (simp add: power_int_def)
  have "round_val (of_int 1 * 2 powi 64) = (of_int 1 * 2 powi 64 :: rat)" by (rule round_val_exact) simp_all
  then show ?thesis unfolding e by (simp add: is_double_def)
qed

lemma of_size_u64:
  assumes "n < 2 ^ 64"
  obtains v where "of_size n = Fin v" 
    and "0 \<le> v" and "v \<le> 2 ^ 64" and "v = 0 \<longleftrightarrow> n = 0" and "n = 0 \<or> 1 \<le> v"
proof -
  have "(of_nat n :: rat) < of_nat (2 ^ 64)" using assms by (simp only: of_nat_less_iff)
  then have le: "(of_nat n :: rat) \<le> 2 ^ 64" by simp
  have one: "1 \<le> round_val (of_nat n)" if "n \<noteq> 0"
    using round_val_mono [of 1 "of_nat n"] is_double_nat [of 1] that by (simp add: is_double_def)
  show thesis
  proof (rule that)
    show "n = 0 \<or> 1 \<le> round_val (of_nat n :: rat)" using one by blast
    show "of_size n = Fin (round_val (of_nat n))"
      using is_double_between [OF is_double_2_64 _ le] by (simp add: of_size_def round_double_Fin_iff)
    show "round_val (of_nat n) \<le> (2 :: rat) ^ 64"
      using round_val_mono [OF le] is_double_2_64 by (simp add: is_double_def)
    show "0 \<le> round_val (of_nat n :: rat)" by (rule round_val_nonneg) simp
    show "round_val (of_nat n :: rat) = 0 \<longleftrightarrow> n = 0"
    proof (cases "n = 0")
      case True
      then show ?thesis using is_double_0 by (simp add: is_double_def)
    next
      case False
      then show ?thesis using one [OF False] by linarith
    qed
  qed
qed

text \<open>A quotient of two 64-bit counters is finite.\<close>

lemma counters_finite:
  "(b :: u64) \<noteq> 0 \<Longrightarrow> \<exists>r. ddiv (of_size (unat (a :: u64))) (of_size (unat b)) = Fin r \<and> is_double r"
proof -
  assume b: "b \<noteq> 0"
  have lt: "unat w < 2 ^ 64" for w :: u64 using unsigned_less [of w] by simp
  obtain x where x: "of_size (unat a) = Fin x" "0 \<le> x" "x \<le> 2 ^ 64" by (rule of_size_u64 [OF lt])
  obtain y where "of_size (unat b) = Fin y" "unat b = 0 \<or> 1 \<le> y" by (rule of_size_u64 [OF lt])
  then have y: "of_size (unat b) = Fin y" "1 \<le> y" using b by (simp_all add: unat_eq_0)
  have "x / y \<le> x" using x(2) y(2) mult_left_mono [of 1 y x] by (simp add: divide_le_eq)
  then have le: "x / y \<le> 2 ^ 64" using x(3) by linarith
  have "is_double (round_val (x / y))" by (rule is_double_between [OF is_double_2_64 _ le]) (use x y in simp)
  then show ?thesis using x(1) y by (simp add: round_double_Fin_iff)
qed

lemma ddiv_exact:
  assumes "m \<le> 2 ^ 53" and "n \<le> 2 ^ 53" and "0 < n"
  shows "ddiv (of_size m) (of_size n) = round_double (of_nat m / of_nat n)"
  using assms by (simp add: of_size_exact)

lemma ddiv_unit:
  assumes "m \<le> n" and "n \<le> 2 ^ 53" and "0 < n"
  shows "dle (Fin 0) (ddiv (of_size m) (of_size n)) \<and> dle (ddiv (of_size m) (of_size n)) (Fin 1)"
proof -
  let ?q = "of_nat m / of_nat n :: rat"
  have "0 \<le> ?q" "?q \<le> 1" using assms(1,3) by simp_all
  then have "round_double 0 \<le> round_double ?q" "round_double ?q \<le> round_double 1"
    by (simp_all add: round_double_mono)
  moreover have "round_double 0 = Fin 0" "round_double 1 = Fin 1"
    using round_double_exact [OF is_double_0] round_double_exact [OF is_double_nat [of 1]] by simp_all
  moreover have "ddiv (of_size m) (of_size n) = round_double ?q"
    using assms by (intro ddiv_exact) simp_all
  ultimately show ?thesis by (auto simp: dle_def)
qed

end
