(* ===== verification/Double_Text.thy ===== *)
theory Double_Text
  imports Cpp_Double Cpp_String
begin

text \<open>
  Doubles as text: \<open>std::fixed << std::setprecision(p)\<close> and the default format of an output
  stream (both print the exact value, correctly rounded), and \<open>std::stod\<close>, that is \<open>strtod\<close> in the C
  locale: decimal and hexadecimal numbers, infinities and \<open>NaN\<close>, converted exactly and rounded once.
  As in the GNU library an overflow, and an inexact result below the normal range, is an
  \<open>out_of_range\<close>. The sign of a \<open>NaN\<close> is not kept.
\<close>

section \<open>Printing\<close>

fun digits_fixed :: "nat \<Rightarrow> nat \<Rightarrow> string" where
  "digits_fixed 0 n = []"
| "digits_fixed (Suc p) n = digits_fixed p (n div 10) @ [digit_char (n mod 10)]"

definition point_digits :: "nat \<Rightarrow> nat \<Rightarrow> string" where
  "point_digits prec n = (if prec = 0 then [] else CHR ''.'' # digits_fixed prec n)"

definition format_fixed :: "nat \<Rightarrow> double \<Rightarrow> string" where
  "format_fixed prec x =
     (case x of
        Fin r \<Rightarrow>
          (let n = nat (round_even (\<bar>r\<bar> * 10 ^ prec))
           in (if r < 0 then ''-'' else []) @ dec_string (n div 10 ^ prec) @ point_digits prec n)
      | Infty s \<Rightarrow> if s then ''-inf'' else ''inf''
      | NaN \<Rightarrow> ''nan'')"

text \<open>The default format is \<open>%g\<close> with six significant digits.\<close>

definition decimal_exp :: "rat \<Rightarrow> int" where
  "decimal_exp r =
     (if 1 \<le> r then int (length (dec_string (nat \<lfloor>r\<rfloor>))) - 1
      else - int (length (dec_string (nat (\<lceil>1 / r\<rceil> - 1)))))"

definition strip_zeros :: "string \<Rightarrow> string" where
  "strip_zeros s =
     (let t = rev (dropWhile (\<lambda>c. c = CHR ''0'') (rev s))
      in if CHR ''.'' \<notin> set s then s else if last t = CHR ''.'' then butlast t else t)"

definition format_general :: "double \<Rightarrow> string" where
  "format_general x =
     (case x of
        Fin r \<Rightarrow>
          (if r = 0 then ''0'' else
            (let e0 = decimal_exp \<bar>r\<bar>;
                 m0 = round_even (\<bar>r\<bar> / 10 powi (e0 - 5));
                 (m, e) = (if m0 = 1000000 then (100000, e0 + 1) else (m0, e0));
                 sign = (if r < 0 then ''-'' else []);
                 digits = dec_string (nat m)
             in sign @
                (if - 4 \<le> e \<and> e < 6 then strip_zeros (format_fixed (nat (5 - e)) (Fin (of_int m * 10 powi (e - 5))))
                 else strip_zeros (hd digits # CHR ''.'' # tl digits) @ ''e'' @
                      (if e < 0 then ''-'' else ''+'') @ digits_fixed (max 2 (length (dec_string (nat \<bar>e\<bar>)))) (nat \<bar>e\<bar>))))
      | Infty s \<Rightarrow> if s then ''-inf'' else ''inf''
      | NaN \<Rightarrow> ''nan'')"

section \<open>Parsing\<close>

definition cpp_tolower :: "char \<Rightarrow> char" where
  "cpp_tolower c =
     (let n = (of_char c :: nat) in if 65 \<le> n \<and> n \<le> 90 then char_of (n + 32) else c)"

definition is_xdigit :: "char \<Rightarrow> bool" where
  "is_xdigit c \<longleftrightarrow> is_digit c \<or> (let n = (of_char (cpp_tolower c) :: nat) in 97 \<le> n \<and> n \<le> 102)"

definition xdigit_val :: "char \<Rightarrow> nat" where
  "xdigit_val c = (if is_digit c then digit_val c else of_char (cpp_tolower c) - 87)"

definition xdigits_val :: "string \<Rightarrow> nat" where
  "xdigits_val ds = foldl (\<lambda>v c. 16 * v + xdigit_val c) 0 ds"

text \<open>An optional exponent after the character \<open>e\<close>: it counts only if it has a digit.\<close>

definition exponent_part :: "char \<Rightarrow> string \<Rightarrow> int" where
  "exponent_part e s =
     (case s of
        [] \<Rightarrow> 0
      | c # t \<Rightarrow>
          (let neg = (t \<noteq> [] \<and> hd t = CHR ''-'');
               u = (if t \<noteq> [] \<and> (hd t = CHR ''-'' \<or> hd t = CHR ''+'') then tl t else t);
               v = int (digits_val (takeWhile is_digit u))
           in if cpp_tolower c = e then (if neg then - v else v) else 0))"

text \<open>The digits before and after the point, and what follows.\<close>

definition split_point :: "(char \<Rightarrow> bool) \<Rightarrow> string \<Rightarrow> string \<times> string \<times> string" where
  "split_point is_dig s =
     (let ip = takeWhile is_dig s; rest = dropWhile is_dig s
      in if rest \<noteq> [] \<and> hd rest = CHR ''.''
         then (ip, takeWhile is_dig (tl rest), dropWhile is_dig (tl rest)) else (ip, [], rest))"

definition finish_stod :: "bool \<Rightarrow> rat \<Rightarrow> double result" where
  "finish_stod neg r =
     (case round_double r of
        Fin v \<Rightarrow> if v \<noteq> r \<and> v < 2 powi (- 1022) then Inl (Out_of_range ''stod'')
                 else Inr (Fin (if neg then - v else v))
      | _ \<Rightarrow> Inl (Out_of_range ''stod''))"

definition stod :: "string \<Rightarrow> double result" where
  "stod s =
     (let s1 = dropWhile cpp_isspace s;
          neg = (s1 \<noteq> [] \<and> hd s1 = CHR ''-'');
          s2 = (if s1 \<noteq> [] \<and> (hd s1 = CHR ''-'' \<or> hd s1 = CHR ''+'') then tl s1 else s1);
          lower = map cpp_tolower s2
      in if take 3 lower = ''inf'' then Inr (Infty neg)
         else if take 3 lower = ''nan'' then Inr NaN
         else
           (let (xi, xf, xrest) = split_point is_xdigit (drop 2 s2);
                (di, df, drest) = split_point is_digit s2
            in if take 2 lower = ''0x'' \<and> xi @ xf \<noteq> []
               then finish_stod neg (of_nat (xdigits_val (xi @ xf)) *
                      2 powi (exponent_part CHR ''p'' xrest - 4 * int (length xf)))
               else if di @ df = [] then Inl (Invalid_argument ''stod'')
               else finish_stod neg (of_nat (digits_val (di @ df)) *
                      10 powi (exponent_part CHR ''e'' drest - int (length df)))))"

section \<open>Integers are read exactly\<close>

lemma digit_tolower [simp]: "is_digit c \<Longrightarrow> cpp_tolower c = c"
  by (auto simp: is_digit_def cpp_tolower_def Let_def)

lemma digit_ne_alpha: "is_digit c \<Longrightarrow> c \<noteq> CHR ''i'' \<and> c \<noteq> CHR ''n'' \<and> c \<noteq> CHR ''x'' \<and> c \<noteq> CHR ''.''"
  by (auto simp: is_digit_def Let_def)

lemma split_point_digits:
  "\<forall>c \<in> set ds. is_digit c \<Longrightarrow> split_point is_digit ds = (ds, [], [])"
  by (simp add: split_point_def takeWhile_all dropWhile_eq_Nil_conv [THEN iffD2] Let_def)

lemma stod_dec_string:
  assumes "n \<le> 2 ^ 53"
  shows "stod (dec_string n) = Inr (Fin (of_nat n))"
proof -
  obtain c ds where s: "dec_string n = c # ds" by (cases "dec_string n") auto
  have d: "is_digit c" "\<forall>x \<in> set ds. is_digit x" using dec_string_digits [of n] by (simp_all add: s)
  have sp: "dropWhile cpp_isspace (c # ds) = c # ds" using digit_not_space [OF d(1)] by simp
  define t where "t = c # ds"
  have lower: "map cpp_tolower t = t"
    using d by (simp add: map_idI t_def)
  have "\<forall>x \<in> set t. is_digit x" using d by (simp add: t_def)
  then have none: "CHR ''i'' \<notin> set t" "CHR ''n'' \<notin> set t" "CHR ''x'' \<notin> set t" using digit_ne_alpha by blast+
  have alpha: "take 3 t \<noteq> ''inf''" "take 3 t \<noteq> ''nan''" "take 2 t \<noteq> ''0x''"
    using none by (metis in_set_takeD list.set_intros(1), metis in_set_takeD list.set_intros(1),
      metis in_set_takeD list.set_intros(1,2))
  have v: "digits_val (c # ds) = n" using digits_val_dec_string [of n] by (simp add: s)
  have sign: "c \<noteq> CHR ''-''" "c \<noteq> CHR ''+''" using digit_not_sign [OF d(1)] by simp_all
  have sps: "split_point is_digit t = (t, [], [])" using d by (intro split_point_digits) (simp add: t_def)
  have fin: "finish_stod False (of_nat n) = Inr (Fin (of_nat n))"
    using round_double_exact [OF is_double_nat [OF assms]] by (simp add: finish_stod_def)
  obtain xi xf xr where x: "split_point is_xdigit (drop 2 t) = (xi, xf, xr)"
    using prod_cases3 by blast
  show ?thesis
    unfolding s stod_def Let_def sp using sign
    by (simp add: t_def [symmetric] lower alpha x sps v fin exponent_part_def)
      (simp add: t_def v fin)
qed

end
