(* ===== verification/Trajectory_Graph.thy ===== *)
theory Trajectory_Graph
  imports Double_Text Cpp_Map
begin

text \<open>
  The trajectory graph, \<open>trajectory_graph_lite/src/trajectory_graph.cpp\<close> and its header. The
  unordered maps are key-ordered association lists; where the code iterates over \<open>points_\<close>, whose
  order the standard leaves open, the order is an argument (\<open>iteration_of\<close> says which lists it may be).
  \<open>std::acos\<close>, whose last bits the standard leaves open as well, is an argument \<open>acos_fn\<close>. Products
  and sums are not contracted to fused operations.
\<close>

section \<open>Data\<close>

record point =
  point_id :: u64
  point_x :: double
  point_y :: double

record edge =
  edge_from :: u64
  edge_to :: u64
  edge_length :: double

record trajectory_graph =
  tg_points :: "(u64, point) omap"
  tg_adjacency :: "(u64, u64 list) omap"
  tg_edges :: "edge list"

definition empty_graph :: trajectory_graph where
  "empty_graph = \<lparr>tg_points = [], tg_adjacency = [], tg_edges = []\<rparr>"

record graph_summary =
  sum_nodes :: nat
  sum_edges :: nat
  sum_components :: nat
  sum_segments :: nat
  sum_total_distance :: double
  sum_average_distance :: double
  sum_turns :: nat

section \<open>Geometry\<close>

definition k_pi :: double where
  "k_pi = round_double (314159265358979323846 / 10 ^ 20)"

definition distance_between :: "point \<Rightarrow> point \<Rightarrow> double" where
  "distance_between a b =
     (let dx = dsub (point_x b) (point_x a);
          dy = dsub (point_y b) (point_y a)
      in dsqrt (dadd (dmul dx dx) (dmul dy dy)))"

definition turn_angle_degrees :: "(double \<Rightarrow> double) \<Rightarrow> point \<Rightarrow> point \<Rightarrow> point \<Rightarrow> double" where
  "turn_angle_degrees acos_fn a b c =
     (let v1x = dsub (point_x b) (point_x a);
          v1y = dsub (point_y b) (point_y a);
          v2x = dsub (point_x c) (point_x b);
          v2y = dsub (point_y c) (point_y b);
          mag1 = dsqrt (dadd (dmul v1x v1x) (dmul v1y v1y));
          mag2 = dsqrt (dadd (dmul v2x v2x) (dmul v2y v2y))
      in if deq mag1 (Fin 0) \<or> deq mag2 (Fin 0) then Fin 0
         else
           (let cosine = ddiv (dadd (dmul v1x v2x) (dmul v1y v2y)) (dmul mag1 mag2);
                cosine = dclamp cosine (Fin (- 1)) (Fin 1)
            in ddiv (dmul (acos_fn cosine) (Fin 180)) k_pi))"

section \<open>Building the graph\<close>

definition has_point :: "trajectory_graph \<Rightarrow> u64 \<Rightarrow> bool" where
  "has_point g i \<longleftrightarrow> omap_get (tg_points g) i \<noteq> None"

definition try_emplace :: "u64 \<Rightarrow> (u64, u64 list) omap \<Rightarrow> (u64, u64 list) omap" where
  "try_emplace i m = (if omap_get m i = None then omap_put i [] m else m)"

definition add_point :: "point \<Rightarrow> trajectory_graph \<Rightarrow> trajectory_graph" where
  "add_point p g =
     g\<lparr>tg_points := omap_put (point_id p) p (tg_points g),
       tg_adjacency := try_emplace (point_id p) (tg_adjacency g)\<rparr>"

definition neighbors :: "(u64, u64 list) omap \<Rightarrow> u64 \<Rightarrow> u64 list" where
  "neighbors m i = (case omap_get m i of None \<Rightarrow> [] | Some ns \<Rightarrow> ns)"

definition push_neighbor :: "u64 \<Rightarrow> u64 \<Rightarrow> (u64, u64 list) omap \<Rightarrow> (u64, u64 list) omap" where
  "push_neighbor i j m = omap_put i (neighbors m i @ [j]) m"

definition point_at :: "trajectory_graph \<Rightarrow> u64 \<Rightarrow> point result" where
  "point_at g i =
     (case omap_get (tg_points g) i of
        None \<Rightarrow> Inl (Out_of_range ''unordered_map::at'') | Some p \<Rightarrow> Inr p)"

definition edge_distance :: "trajectory_graph \<Rightarrow> u64 \<Rightarrow> u64 \<Rightarrow> double result" where
  "edge_distance g i j =
     bind_result (point_at g i) (\<lambda>a. bind_result (point_at g j) (\<lambda>b. Inr (distance_between a b)))"

definition add_edge :: "u64 \<Rightarrow> u64 \<Rightarrow> trajectory_graph \<Rightarrow> trajectory_graph result" where
  "add_edge i j g =
     (if \<not> has_point g i \<or> \<not> has_point g j
      then Inl (Invalid_argument ''edge references unknown point'')
      else bind_result (edge_distance g i j) (\<lambda>d.
        Inr (g\<lparr>tg_edges := tg_edges g @ [\<lparr>edge_from = i, edge_to = j, edge_length = d\<rparr>],
               tg_adjacency := push_neighbor j i (push_neighbor i j (tg_adjacency g))\<rparr>)))"

section \<open>Queries\<close>

definition node_count :: "trajectory_graph \<Rightarrow> nat" where
  "node_count g = length (tg_points g)"

definition edge_count :: "trajectory_graph \<Rightarrow> nat" where
  "edge_count g = length (tg_edges g)"

text \<open>The inner loop of the search, over the neighbors of a node.\<close>

fun visit_neighbors :: "u64 list \<Rightarrow> u64 set \<Rightarrow> u64 list \<Rightarrow> u64 set \<times> u64 list" where
  "visit_neighbors [] visited pending = (visited, pending)"
| "visit_neighbors (n # ns) visited pending =
     (if n \<notin> visited then visit_neighbors ns (insert n visited) (pending @ [n])
      else visit_neighbors ns visited pending)"

lemma visit_neighbors_result:
  "visit_neighbors ns visited pending = (visited', pending') \<Longrightarrow>
     visited' = visited \<union> set ns \<and> set pending' = set pending \<union> (set ns - visited) \<and>
     length pending' = length pending + card (set ns - visited)"
proof (induction ns visited pending rule: visit_neighbors.induct)
  case (2 n ns visited pending)
  show ?case
  proof (cases "n \<in> visited")
    case True
    then have "set (n # ns) - visited = set ns - visited" by auto
    then show ?thesis using 2 True by auto
  next
    case False
    then have "set (n # ns) - visited = insert n (set ns - insert n visited)" by auto
    then have "card (set (n # ns) - visited) = Suc (card (set ns - insert n visited))" by simp
    then show ?thesis using 2 False by auto
  qed
qed simp

definition targets :: "(u64, u64 list) omap \<Rightarrow> u64 set" where
  "targets adj = set (concat (map snd adj))"

lemma neighbors_targets: "omap_get adj i = Some ns \<Longrightarrow> set ns \<subseteq> targets adj"
  by (force simp: targets_def omap_get_def dest: map_of_SomeD)

text \<open>The search itself: \<open>bfs adj pending visited\<close> is what is visited when the queue is empty.\<close>

function bfs :: "(u64, u64 list) omap \<Rightarrow> u64 list \<Rightarrow> u64 set \<Rightarrow> u64 set" where
  "bfs adj [] visited = visited"
| "bfs adj (current # pending) visited =
     (case omap_get adj current of
        None \<Rightarrow> bfs adj pending visited
      | Some ns \<Rightarrow> (let (visited', pending') = visit_neighbors ns visited pending in bfs adj pending' visited'))"
  by pat_completeness auto
termination
proof (relation "measure (\<lambda>(adj, pending, visited). 2 * card (targets adj - visited) + length pending)", goal_cases)
  case (3 adj current pending visited ns r visited' pending')
  then have v: "visited' = visited \<union> set ns" "length pending' = length pending + card (set ns - visited)"
    using visit_neighbors_result by (metis, metis)
  have "finite (targets adj)" by (simp add: targets_def)
  moreover have "targets adj - visited = (targets adj - visited') \<union> (set ns - visited)"
    using neighbors_targets [OF 3(1)] v(1) by auto
  ultimately have "card (targets adj - visited) = card (targets adj - visited') + card (set ns - visited)"
    using v(1) by (metis (no_types, lifting) Diff_disjoint Diff_Un List.finite_set Un_Diff card_Un_disjoint
        finite_Diff inf.commute inf_assoc Diff_Int_distrib inf_sup_absorb sup_commute)
  then show ?case using v(2) by simp
qed simp_all

fun count_components :: "(u64, u64 list) omap \<Rightarrow> u64 list \<Rightarrow> u64 set \<Rightarrow> nat \<Rightarrow> nat" where
  "count_components adj [] visited components = components"
| "count_components adj (i # ids) visited components =
     (if i \<in> visited then count_components adj ids visited components
      else count_components adj ids (bfs adj [i] (insert i visited)) (components + 1))"

definition connected_components :: "u64 list \<Rightarrow> trajectory_graph \<Rightarrow> nat" where
  "connected_components order g = count_components (tg_adjacency g) order {} 0"

definition disconnected_nodes :: "u64 list \<Rightarrow> trajectory_graph \<Rightarrow> u64 list" where
  "disconnected_nodes order g =
     sort (filter (\<lambda>i. case omap_get (tg_adjacency g) i of None \<Rightarrow> True | Some ns \<Rightarrow> ns = []) order)"

definition total_edge_distance :: "trajectory_graph \<Rightarrow> double" where
  "total_edge_distance g = foldl (\<lambda>total e. dadd total (edge_length e)) (Fin 0) (tg_edges g)"

definition average_edge_distance :: "trajectory_graph \<Rightarrow> double" where
  "average_edge_distance g =
     (if tg_edges g = [] then Fin 0 else ddiv (total_edge_distance g) (of_size (length (tg_edges g))))"

fun turn_scan :: "(double \<Rightarrow> double) \<Rightarrow> trajectory_graph \<Rightarrow> double \<Rightarrow> u64 list \<Rightarrow> nat \<Rightarrow> nat result" where
  "turn_scan acos_fn g minimum (i # j # k # route) n =
     (case (omap_get (tg_points g) i, omap_get (tg_points g) j, omap_get (tg_points g) k) of
        (Some a, Some b, Some c) \<Rightarrow>
          turn_scan acos_fn g minimum (j # k # route)
            (if dle minimum (turn_angle_degrees acos_fn a b c) then n + 1 else n)
      | _ \<Rightarrow> Inl (Invalid_argument ''route references unknown point''))"
| "turn_scan acos_fn g minimum _ n = Inr n"

definition turn_transitions ::
  "(double \<Rightarrow> double) \<Rightarrow> trajectory_graph \<Rightarrow> u64 list \<Rightarrow> double \<Rightarrow> nat result" where
  "turn_transitions acos_fn g route minimum =
     (if length route < 3 then Inr 0 else turn_scan acos_fn g minimum route 0)"

definition summarize_graph ::
  "(double \<Rightarrow> double) \<Rightarrow> u64 list \<Rightarrow> trajectory_graph \<Rightarrow> u64 list \<Rightarrow> graph_summary result" where
  "summarize_graph acos_fn order g route =
     (let components = connected_components order g
      in bind_result (turn_transitions acos_fn g route (Fin 20)) (\<lambda>turns.
        Inr \<lparr>sum_nodes = node_count g, sum_edges = edge_count g, sum_components = components,
             sum_segments = (if 0 < components then components - 1 else 0),
             sum_total_distance = total_edge_distance g,
             sum_average_distance = average_edge_distance g, sum_turns = turns\<rparr>))"

section \<open>The trajectory file\<close>

record parsed_trajectory =
  parsed_graph :: trajectory_graph
  parsed_route :: "u64 list"

definition read_point ::
  "string \<Rightarrow> parsed_trajectory \<Rightarrow> (u64 \<times> u64) list \<Rightarrow> (parsed_trajectory \<times> (u64 \<times> u64) list) result" where
  "read_point line parsed pending_edges =
     (let next_text = csv_field line 3
      in bind_result (stoull (csv_field line 0)) (\<lambda>i.
         bind_result (stod (csv_field line 1)) (\<lambda>x.
         bind_result (stod (csv_field line 2)) (\<lambda>y.
         let parsed = parsed\<lparr>parsed_graph :=
               add_point \<lparr>point_id = i, point_x = x, point_y = y\<rparr> (parsed_graph parsed),
               parsed_route := parsed_route parsed @ [i]\<rparr>
         in if next_text \<noteq> [] \<and> next_text \<noteq> ''-1''
            then bind_result (stoull next_text) (\<lambda>j. Inr (parsed, pending_edges @ [(i, j)]))
            else Inr (parsed, pending_edges)))))"

fun read_points ::
  "bool \<Rightarrow> string list \<Rightarrow> parsed_trajectory \<Rightarrow> (u64 \<times> u64) list \<Rightarrow>
     (parsed_trajectory \<times> (u64 \<times> u64) list) result" where
  "read_points first_line [] parsed pending_edges = Inr (parsed, pending_edges)"
| "read_points first_line (line # rest) parsed pending_edges =
     (if line = [] then read_points first_line rest parsed pending_edges
      else if first_line \<and> take 3 line = ''id,'' then read_points False rest parsed pending_edges
      else bind_result (read_point line parsed pending_edges) (\<lambda>(parsed, pending_edges).
             read_points False rest parsed pending_edges))"

fun add_edges :: "(u64 \<times> u64) list \<Rightarrow> trajectory_graph \<Rightarrow> trajectory_graph result" where
  "add_edges [] g = Inr g"
| "add_edges ((i, j) # rest) g = bind_result (add_edge i j g) (add_edges rest)"

definition parse_trajectory_csv :: "string \<Rightarrow> string option \<Rightarrow> parsed_trajectory result" where
  "parse_trajectory_csv path contents =
     (case contents of
        None \<Rightarrow> Inl (Runtime_error (''unable to open trajectory file: '' @ path))
      | Some s \<Rightarrow>
          bind_result (read_points True (getline_all (CHR 0x0A) s)
                         \<lparr>parsed_graph = empty_graph, parsed_route = []\<rparr> []) (\<lambda>(parsed, pending_edges).
          bind_result (add_edges pending_edges (parsed_graph parsed)) (\<lambda>g.
          Inr (parsed\<lparr>parsed_graph := g\<rparr>))))"

end
