(* ===== verification/Trajectory_Invariants.thy ===== *)
theory Trajectory_Invariants
  imports Trajectory_Graph
begin

text \<open>
  What every graph built by \<open>add_point\<close> and \<open>add_edge\<close> satisfies, and what the search computes
  on such a graph.
\<close>

section \<open>Well-formed graphs\<close>

definition nodes :: "trajectory_graph \<Rightarrow> u64 set" where
  "nodes g = set (map fst (tg_points g))"

definition edge_rel :: "trajectory_graph \<Rightarrow> (u64 \<times> u64) set" where
  "edge_rel g = (\<lambda>e. (edge_from e, edge_to e)) ` set (tg_edges g)"

definition neighbor_rel :: "(u64, u64 list) omap \<Rightarrow> (u64 \<times> u64) set" where
  "neighbor_rel adj = {(i, j). j \<in> set (neighbors adj i)}"

definition graph_wf :: "trajectory_graph \<Rightarrow> bool" where
  "graph_wf g \<longleftrightarrow>
     omap_wf (tg_points g) \<and> omap_wf (tg_adjacency g) \<and>
     dom (omap_get (tg_adjacency g)) = nodes g \<and>
     (\<forall>i p. omap_get (tg_points g) i = Some p \<longrightarrow> point_id p = i) \<and>
     edge_rel g \<subseteq> nodes g \<times> nodes g \<and>
     neighbor_rel (tg_adjacency g) = edge_rel g \<union> (edge_rel g)\<inverse>"

lemma has_point_iff: "has_point g i \<longleftrightarrow> i \<in> nodes g"
  by (simp add: has_point_def nodes_def omap_get_def map_of_eq_None_iff)

lemma omap_get_map_of: "omap_get m = map_of m"
  by (rule ext) (simp add: omap_get_def)

lemma nodes_dom: "nodes g = dom (omap_get (tg_points g))"
  by (simp add: nodes_def omap_get_map_of dom_map_of_conv_image_fst)

lemma empty_graph_wf: "graph_wf empty_graph"
  by (simp add: graph_wf_def empty_graph_def nodes_def edge_rel_def neighbor_rel_def neighbors_def omap_get_map_of)

lemma neighbors_put:
  "omap_wf m \<Longrightarrow> neighbors (omap_put i ns m) j = (if j = i then ns else neighbors m j)"
  by (simp add: neighbors_def)

lemma try_emplace_get:
  "omap_wf m \<Longrightarrow> omap_get (try_emplace i m) j =
     (if j = i \<and> omap_get m i = None then Some [] else omap_get m j)"
  by (simp add: try_emplace_def)

lemma try_emplace_wf [simp]: "omap_wf m \<Longrightarrow> omap_wf (try_emplace i m)"
  by (simp add: try_emplace_def)

lemma nodes_add_point: "nodes (add_point p g) = insert (point_id p) (nodes g)"
  by (simp add: nodes_def add_point_def set_fst_omap_put [simplified])

lemma add_point_wf:
  assumes "graph_wf g"
  shows "graph_wf (add_point p g)"
proof -
  have wf: "omap_wf (tg_points g)" "omap_wf (tg_adjacency g)" using assms by (simp_all add: graph_wf_def)
  have "neighbors (tg_adjacency (add_point p g)) = neighbors (tg_adjacency g)"
    by (auto simp: fun_eq_iff neighbors_def add_point_def try_emplace_get [OF wf(2)])
  then have "neighbor_rel (tg_adjacency (add_point p g)) = neighbor_rel (tg_adjacency g)"
    by (simp add: neighbor_rel_def)
  moreover have "dom (omap_get (tg_adjacency (add_point p g))) = insert (point_id p) (nodes g)"
  proof -
    have "dom (omap_get (try_emplace i (tg_adjacency g))) = insert i (dom (omap_get (tg_adjacency g)))" for i
      by (auto simp: try_emplace_get [OF wf(2)] split: if_splits)
    then show ?thesis using assms by (simp add: add_point_def graph_wf_def)
  qed
  moreover have "edge_rel (add_point p g) = edge_rel g" by (simp add: edge_rel_def add_point_def)
  ultimately show ?thesis
    using assms unfolding graph_wf_def nodes_add_point
    by (auto simp: add_point_def om.keep_get split: if_splits)
qed

lemma add_edge_cases:
  assumes "graph_wf g"
  shows "add_edge i j g =
    (if i \<in> nodes g \<and> j \<in> nodes g then
       Inr (g\<lparr>tg_edges := tg_edges g @ [\<lparr>edge_from = i, edge_to = j, edge_length =
                distance_between (the (omap_get (tg_points g) i)) (the (omap_get (tg_points g) j))\<rparr>],
              tg_adjacency := push_neighbor j i (push_neighbor i j (tg_adjacency g))\<rparr>)
     else Inl (Invalid_argument ''edge references unknown point''))"
  by (auto simp: add_edge_def has_point_iff edge_distance_def point_at_def nodes_dom)

lemma add_edge_wf:
  assumes "graph_wf g" and "add_edge i j g = Inr h"
  shows "graph_wf h" and "nodes h = nodes g" and "tg_points h = tg_points g"
    and "\<exists>d. tg_edges h = tg_edges g @ [\<lparr>edge_from = i, edge_to = j, edge_length = d\<rparr>] \<and>
      d = distance_between (the (omap_get (tg_points g) i)) (the (omap_get (tg_points g) j))"
proof -
  have ij: "i \<in> nodes g" "j \<in> nodes g" and h: "h = g\<lparr>tg_edges := tg_edges g @
      [\<lparr>edge_from = i, edge_to = j, edge_length =
          distance_between (the (omap_get (tg_points g) i)) (the (omap_get (tg_points g) j))\<rparr>],
      tg_adjacency := push_neighbor j i (push_neighbor i j (tg_adjacency g))\<rparr>"
    using assms(2) by (auto simp: add_edge_cases [OF assms(1)] split: if_splits)
  show n: "nodes h = nodes g" and "tg_points h = tg_points g" by (simp_all add: h nodes_def)
  show "\<exists>d. tg_edges h = tg_edges g @ [\<lparr>edge_from = i, edge_to = j, edge_length = d\<rparr>] \<and>
      d = distance_between (the (omap_get (tg_points g) i)) (the (omap_get (tg_points g) j))"
    by (simp add: h)
  have wf: "omap_wf (tg_adjacency g)" "omap_wf (push_neighbor i j (tg_adjacency g))"
    using assms(1) by (simp_all add: graph_wf_def push_neighbor_def)
  have e: "edge_rel h = insert (i, j) (edge_rel g)" by (auto simp: h edge_rel_def)
  have "neighbors (tg_adjacency h) k = neighbors (tg_adjacency g) k @
      (if k = i then [j] else []) @ (if k = j then [i] else [])" for k
    using wf by (simp add: h push_neighbor_def neighbors_put)
  then have "neighbor_rel (tg_adjacency h) = neighbor_rel (tg_adjacency g) \<union> {(i, j), (j, i)}"
    by (auto simp: neighbor_rel_def split: if_splits)
  moreover have "dom (omap_get (tg_adjacency h)) = dom (omap_get (tg_adjacency g)) \<union> {i, j}"
    using wf by (auto simp: h push_neighbor_def split: if_splits)
  ultimately show "graph_wf h"
    using assms(1) ij wf(2) unfolding graph_wf_def n e
    by (auto simp: h push_neighbor_def)
qed

lemma add_edges_wf:
  "add_edges es g = Inr h \<Longrightarrow> graph_wf g \<Longrightarrow>
     graph_wf h \<and> tg_points h = tg_points g \<and> length (tg_edges h) = length (tg_edges g) + length es"
proof (induction es g rule: add_edges.induct)
  case (2 i j rest g)
  then obtain g' where g': "add_edge i j g = Inr g'" "add_edges rest g' = Inr h"
    by (auto simp: bind_result_Inr_iff)
  then show ?case using "2.IH" add_edge_wf [OF "2.prems"(2) g'(1)] by auto
qed simp

lemma add_edges_error:
  "graph_wf g \<Longrightarrow> (\<exists>e. add_edges es g = Inl e) \<longleftrightarrow> \<not> set es \<subseteq> nodes g \<times> nodes g"
proof (induction es g rule: add_edges.induct)
  case (2 i j rest g)
  show ?case
  proof (cases "add_edge i j g")
    case (Inl e)
    then show ?thesis using add_edge_cases [OF "2.prems", of i j] by (auto split: if_splits)
  next
    case (Inr h)
    then have "i \<in> nodes g \<and> j \<in> nodes g" using add_edge_cases [OF "2.prems", of i j] by (auto split: if_splits)
    then show ?thesis using 2 Inr add_edge_wf [OF "2.prems" Inr] by simp
  qed
qed simp

section \<open>The search\<close>

text \<open>
  What \<open>bfs\<close> returns contains what was visited, is closed under neighbors, and has nothing that is
  not reachable from the queue.
\<close>

lemma bfs_result:
  assumes "set pending \<subseteq> visited"
    and "\<forall>i \<in> visited - set pending. set (neighbors adj i) \<subseteq> visited"
  shows "visited \<subseteq> bfs adj pending visited \<and>
    (\<forall>i \<in> bfs adj pending visited. set (neighbors adj i) \<subseteq> bfs adj pending visited) \<and>
    bfs adj pending visited \<subseteq> visited \<union> (neighbor_rel adj)\<^sup>* `` set pending"
  using assms
proof (induction adj pending visited rule: bfs.induct)
  case (1 adj visited)
  then show ?case by auto
next
  case (2 adj current pending visited)
  let ?R = "neighbor_rel adj"
  show ?case
  proof (cases "omap_get adj current")
    case None
    then have "neighbors adj current = []" by (simp add: neighbors_def)
    then have "\<forall>i \<in> visited - set pending. set (neighbors adj i) \<subseteq> visited" using "2.prems"(2) by fastforce
    moreover have "set pending \<subseteq> visited" using "2.prems"(1) by simp
    ultimately show ?thesis using "2.IH"(1) [OF None] None by auto
  next
    case (Some ns)
    obtain V P where vp: "visit_neighbors ns visited pending = (V, P)" by fastforce
    note r = visit_neighbors_result [OF vp]
    have ns: "set (neighbors adj current) = set ns" by (simp add: neighbors_def Some)
    have "set P \<subseteq> V" using r "2.prems"(1) by auto
    moreover have "\<forall>i \<in> V - set P. set (neighbors adj i) \<subseteq> V"
    proof
      fix i assume i: "i \<in> V - set P"
      then have "i \<in> visited" using r by auto
      show "set (neighbors adj i) \<subseteq> V"
      proof (cases "i = current")
        case True
        then show ?thesis using ns r by simp
      next
        case False
        then have "i \<in> visited - set (current # pending)" using i r \<open>i \<in> visited\<close> by simp
        then show ?thesis using "2.prems"(2) r by blast
      qed
    qed
    ultimately have IH: "V \<subseteq> bfs adj P V \<and>
        (\<forall>i \<in> bfs adj P V. set (neighbors adj i) \<subseteq> bfs adj P V) \<and> bfs adj P V \<subseteq> V \<union> ?R\<^sup>* `` set P"
      using "2.IH"(2) [OF Some vp [symmetric] refl] by blast
    have step: "set ns \<subseteq> ?R `` {current}" using ns by (auto simp: neighbor_rel_def)
    then have "set ns \<subseteq> ?R\<^sup>* `` set (current # pending)" by (auto intro: r_into_rtrancl)
    moreover have "?R\<^sup>* `` set P \<subseteq> ?R\<^sup>* `` set (current # pending)"
    proof
      fix x assume "x \<in> ?R\<^sup>* `` set P"
      then obtain p where p: "p \<in> set pending \<or> p \<in> set ns" "(p, x) \<in> ?R\<^sup>*" using r by auto
      have "(current, x) \<in> ?R\<^sup>*" if "p \<in> set ns"
        using that step p(2) by (intro converse_rtrancl_into_rtrancl [of current p]) auto
      then show "x \<in> ?R\<^sup>* `` set (current # pending)" using p by auto
    qed
    ultimately have up: "V \<union> ?R\<^sup>* `` set P \<subseteq> visited \<union> ?R\<^sup>* `` set (current # pending)" using r by blast
    have eq: "bfs adj (current # pending) visited = bfs adj P V" using Some vp by simp
    have "visited \<subseteq> V" using r by blast
    then show ?thesis unfolding eq using IH up by blast
  qed
qed

lemma closed_rtrancl:
  assumes "\<forall>i \<in> V. set (neighbors adj i) \<subseteq> V" and "i \<in> V" and "(i, j) \<in> (neighbor_rel adj)\<^sup>*"
  shows "j \<in> V"
  using assms(3,2,1) by (induction rule: rtrancl_induct) (auto simp: neighbor_rel_def)

lemma bfs_component:
  assumes "\<forall>i \<in> visited. set (neighbors adj i) \<subseteq> visited"
  shows "bfs adj [i] (insert i visited) = visited \<union> (neighbor_rel adj)\<^sup>* `` {i}"
proof -
  have r: "insert i visited \<subseteq> bfs adj [i] (insert i visited) \<and>
      (\<forall>j \<in> bfs adj [i] (insert i visited). set (neighbors adj j) \<subseteq> bfs adj [i] (insert i visited)) \<and>
      bfs adj [i] (insert i visited) \<subseteq> insert i visited \<union> (neighbor_rel adj)\<^sup>* `` set [i]"
    by (rule bfs_result) (use assms in auto)
  then have "(neighbor_rel adj)\<^sup>* `` {i} \<subseteq> bfs adj [i] (insert i visited)"
    using closed_rtrancl by blast
  then show ?thesis using r by auto
qed

lemma closed_reached:
  "\<forall>i \<in> (neighbor_rel adj)\<^sup>* `` V. set (neighbors adj i) \<subseteq> (neighbor_rel adj)\<^sup>* `` V"
  by (auto simp: neighbor_rel_def intro: rtrancl_into_rtrancl)

text \<open>The loop over the nodes counts the classes of the ones it has passed.\<close>

lemma count_components_classes:
  assumes "sym (neighbor_rel adj)" and "finite V"
  shows "count_components adj ids ((neighbor_rel adj)\<^sup>* `` V) (card ((\<lambda>i. (neighbor_rel adj)\<^sup>* `` {i}) ` V)) =
    card ((\<lambda>i. (neighbor_rel adj)\<^sup>* `` {i}) ` (V \<union> set ids))"
  using assms(2)
proof (induction ids arbitrary: V)
  case (Cons i ids)
  let ?R = "(neighbor_rel adj)\<^sup>*" and ?cls = "\<lambda>i. (neighbor_rel adj)\<^sup>* `` {i}"
  have eqv: "?cls i = ?cls j \<longleftrightarrow> (j, i) \<in> ?R" for i j
  proof -
    have "sym ?R" by (rule sym_rtrancl [OF assms(1)])
    then show ?thesis by (auto dest: symD intro: rtrancl_trans)
  qed
  have visited: "i \<in> ?R `` V \<longleftrightarrow> ?cls i \<in> ?cls ` V" by (auto simp: eqv)
  have union: "?R `` insert i V = ?R `` V \<union> ?cls i" by auto
  show ?case
  proof (cases "i \<in> ?R `` V")
    case True
    have "?R `` insert i V = ?R `` V"
      using True union by (auto intro: rtrancl_trans)
    moreover have "?cls ` insert i V = ?cls ` V" using True visited by auto
    ultimately show ?thesis using True Cons.IH [of "insert i V"] Cons.prems by (simp add: insert_commute)
  next
    case False
    then have "card (?cls ` insert i V) = card (?cls ` V) + 1"
      using visited Cons.prems by simp
    moreover have "bfs adj [i] (insert i (?R `` V)) = ?R `` insert i V"
      unfolding union by (rule bfs_component [OF closed_reached])
    ultimately show ?thesis using False Cons.IH [of "insert i V"] Cons.prems by simp
  qed
qed simp

definition iteration_of :: "u64 list \<Rightarrow> trajectory_graph \<Rightarrow> bool" where
  "iteration_of order g \<longleftrightarrow> distinct order \<and> set order = nodes g"

lemma connected_components_eq:
  assumes "graph_wf g" and "iteration_of order g"
  shows "connected_components order g = card (nodes g // (edge_rel g \<union> (edge_rel g)\<inverse>)\<^sup>*)"
proof -
  let ?R = "neighbor_rel (tg_adjacency g)"
  have R: "?R = edge_rel g \<union> (edge_rel g)\<inverse>" using assms(1) by (simp add: graph_wf_def)
  have "sym ?R" unfolding R by (simp add: sym_Un_converse)
  from count_components_classes [OF this, of "{}" order]
  have "connected_components order g = card ((\<lambda>i. ?R\<^sup>* `` {i}) ` nodes g)"
    using assms(2) by (simp add: connected_components_def iteration_of_def)
  also have "(\<lambda>i. ?R\<^sup>* `` {i}) ` nodes g = nodes g // ?R\<^sup>*" by (auto simp: quotient_def)
  finally show ?thesis by (simp add: R)
qed

lemma finite_nodes [simp]: "finite (nodes g)"
  by (simp add: nodes_def)

lemma node_count_card: "graph_wf g \<Longrightarrow> node_count g = card (nodes g)"
  using omap_wf_distinct [of "tg_points g"]
  using distinct_card [of "map fst (tg_points g)"]
  by (simp add: node_count_def nodes_def graph_wf_def)

lemma component_bounds:
  "card (nodes g // r) \<le> card (nodes g)" and "nodes g \<noteq> {} \<Longrightarrow> 0 < card (nodes g // r)"
proof -
  have q: "nodes g // r = (\<lambda>i. r `` {i}) ` nodes g" by (auto simp: quotient_def)
  show "card (nodes g // r) \<le> card (nodes g)" unfolding q by (rule card_image_le) simp
  show "nodes g \<noteq> {} \<Longrightarrow> 0 < card (nodes g // r)" unfolding q by (simp add: card_gt_0_iff)
qed

section \<open>The file\<close>

definition parsed_ok :: "parsed_trajectory \<Rightarrow> (u64 \<times> u64) list \<Rightarrow> bool" where
  "parsed_ok p es \<longleftrightarrow> graph_wf (parsed_graph p) \<and> tg_edges (parsed_graph p) = [] \<and>
     nodes (parsed_graph p) = set (parsed_route p) \<and> set (map fst es) \<subseteq> nodes (parsed_graph p) \<and>
     length es \<le> length (parsed_route p)"

lemma read_point_cases:
  assumes "read_point line p es = Inr (q, fs)"
  obtains i x y where "q = p\<lparr>parsed_graph := add_point \<lparr>point_id = i, point_x = x, point_y = y\<rparr> (parsed_graph p),
      parsed_route := parsed_route p @ [i]\<rparr>"
    and "fs = es \<or> (\<exists>j. fs = es @ [(i, j)])"
  using assms by (auto simp: read_point_def bind_result_Inr_iff Let_def split: if_splits)

lemma add_point_edges [simp]: "tg_edges (add_point p g) = tg_edges g"
  by (simp add: add_point_def)

lemma read_point_ok:
  assumes "read_point line p es = Inr (q, fs)" and "parsed_ok p es"
  shows "parsed_ok q fs"
proof -
  obtain i x y where q: "q = p\<lparr>parsed_graph := add_point \<lparr>point_id = i, point_x = x, point_y = y\<rparr> (parsed_graph p),
      parsed_route := parsed_route p @ [i]\<rparr>" and fs: "fs = es \<or> (\<exists>j. fs = es @ [(i, j)])"
    using read_point_cases [OF assms(1)] .
  show ?thesis
    using assms(2) fs add_point_wf [of "parsed_graph p"] unfolding q parsed_ok_def
    by (fastforce simp: nodes_add_point)
qed

lemma read_points_ok:
  "read_points first lines p es = Inr (q, fs) \<Longrightarrow> parsed_ok p es \<Longrightarrow> parsed_ok q fs"
proof (induction first lines p es rule: read_points.induct)
  case (2 first line rest p es)
  consider "line = []" | "line \<noteq> []" "first \<and> take 3 line = ''id,''"
    | "line \<noteq> []" "\<not> (first \<and> take 3 line = ''id,'')" by blast
  then show ?case
  proof cases
    case 3
    then obtain p' es' where r: "read_point line p es = Inr (p', es')"
      "read_points False rest p' es' = Inr (q, fs)"
      using "2.prems"(1) by (auto simp: bind_result_Inr_iff)
    show ?thesis
      by (rule "2.IH"(3) [OF 3 r(1) refl r(2) read_point_ok [OF r(1) "2.prems"(2)]])
  qed (use 2 in auto)
qed simp

lemma turn_scan_total:
  "set route \<subseteq> nodes g \<Longrightarrow> \<exists>m. turn_scan f g d route n = Inr m \<and> n \<le> m \<and> m \<le> n + (length route - 2)"
proof (induction f g d route n rule: turn_scan.induct)
  case (1 f g d i j k route n)
  then obtain a b c where "omap_get (tg_points g) i = Some a" "omap_get (tg_points g) j = Some b"
    "omap_get (tg_points g) k = Some c" by (auto simp: nodes_dom)
  then show ?case using "1.IH" "1.prems" by (fastforce split: if_splits)
qed simp_all

end
