(* ===== verification/Trajectory_Files.thy ===== *)
theory Trajectory_Files
  imports Trajectory_Invariants Csv_Rows
begin

text \<open>
  Trajectory files in the format of \<open>trajectory_graph_lite/data/\<close>, with whole-numbered coordinates: the printer, the
  loader's loop as a \<open>csv_printed\<close>, and the graph that it builds.
\<close>

section \<open>Printed trajectories\<close>

record track_point =
  track_id :: u64
  track_x :: nat
  track_y :: nat
  track_next :: "u64 option"

definition track_ok :: "track_point \<Rightarrow> bool" where
  "track_ok t \<longleftrightarrow> track_x t \<le> 2 ^ 53 \<and> track_y t \<le> 2 ^ 53"

definition track_header :: string where
  "track_header = ''id,x,y,next_id''"

definition next_field :: "u64 option \<Rightarrow> string" where
  "next_field n = (case n of None \<Rightarrow> ''-1'' | Some j \<Rightarrow> to_string_u64 j)"

definition track_fields :: "track_point \<Rightarrow> string list" where
  "track_fields t =
     [to_string_u64 (track_id t), dec_string (track_x t), dec_string (track_y t), next_field (track_next t)]"

definition track_row :: "track_point \<Rightarrow> string" where
  "track_row t = join (CHR '','') (track_fields t)"

definition track_file :: "track_point list \<Rightarrow> string" where
  "track_file ts = csv_file (track_header # map track_row ts)"

text \<open>What a row stands for.\<close>

definition point_of :: "track_point \<Rightarrow> point" where
  "point_of t = \<lparr>point_id = track_id t, point_x = Fin (of_nat (track_x t)), point_y = Fin (of_nat (track_y t))\<rparr>"

definition link_of :: "track_point \<Rightarrow> (u64 \<times> u64) list" where
  "link_of t = (case track_next t of None \<Rightarrow> [] | Some j \<Rightarrow> [(track_id t, j)])"

definition add_track ::
  "track_point \<Rightarrow> parsed_trajectory \<times> (u64 \<times> u64) list \<Rightarrow> parsed_trajectory \<times> (u64 \<times> u64) list" where
  "add_track t = (\<lambda>(p, es).
     (p\<lparr>parsed_graph := add_point (point_of t) (parsed_graph p), parsed_route := parsed_route p @ [track_id t]\<rparr>,
      es @ link_of t))"

lemma dec_string_number [simp]: "number_chars (dec_string n)"
  using dec_string_digits by (simp add: number_chars_def)

lemma next_field_simps [simp]:
  "next_field n \<noteq> []" "CHR '','' \<notin> set (next_field n)" "CHR 0x0A \<notin> set (next_field n)"
  "next_field n = ''-1'' \<longleftrightarrow> n = None"
proof -
  have d: "to_string_u64 j \<noteq> ''-1''" for j
    using number_no_comma [OF number_to_string, of "CHR ''-''" j] by (auto simp: is_digit_def)
  show "next_field n \<noteq> []" "CHR '','' \<notin> set (next_field n)" "CHR 0x0A \<notin> set (next_field n)"
    "next_field n = ''-1'' \<longleftrightarrow> n = None"
    using number_to_string number_no_comma [OF number_to_string] d
    by (auto simp: next_field_def number_chars_def split: option.splits)
qed

lemma track_row_fields: "csv_field (track_row t) n = (if n < 4 then track_fields t ! n else [])"
  unfolding track_row_def
  by (subst csv_field_join)
    (use number_no_comma [OF _ not_digits(1)] in \<open>simp_all add: track_fields_def\<close>)

lemma track_row_line: "track_row t \<noteq> [] \<and> CHR 0x0A \<notin> set (track_row t)"
  unfolding track_row_def
  by (rule csv_line_join) (use number_no_comma [OF _ not_digits(4)] in \<open>simp_all add: track_fields_def\<close>)

lemma read_track_row:
  assumes "track_ok t"
  shows "read_point (track_row t) p es = Inr (add_track t (p, es))"
proof -
  have "stod (dec_string (track_x t)) = Inr (Fin (of_nat (track_x t)))"
    "stod (dec_string (track_y t)) = Inr (Fin (of_nat (track_y t)))"
    using assms by (simp_all add: track_ok_def stod_dec_string)
  then show ?thesis
    by (cases "track_next t")
      (simp_all add: read_point_def track_row_fields track_fields_def stoull_def add_track_def point_of_def link_of_def
        Let_def, simp add: next_field_def)
qed

interpretation tracks_csv: csv_printed "\<lambda>b ls (p, es). read_points b ls p es" "\<lambda>l (p, es). read_point l p es"
  track_row add_track track_ok
proof (unfold_locales, goal_cases)
  case (2 b l ls s)
  obtain p es where s: "s = (p, es)" by (cases s)
  show ?case by (cases "read_point l p es") (auto simp: s)
qed (auto simp: read_track_row track_row_line)

section \<open>The graph of a file\<close>

lemma fold_add_track:
  "fold add_track ts (p, es) =
     (p\<lparr>parsed_graph := fold (\<lambda>t. add_point (point_of t)) ts (parsed_graph p),
        parsed_route := parsed_route p @ map track_id ts\<rparr>, es @ concat (map link_of ts))"
  by (induction ts arbitrary: p es) (simp_all add: add_track_def)

lemma point_id_of [simp]: "point_id (point_of t) = track_id t"
  by (simp add: point_of_def)

lemma get_add_point:
  "graph_wf g \<Longrightarrow> omap_get (tg_points (add_point p g)) i = (if i = point_id p then Some p else omap_get (tg_points g) i)"
  by (simp add: graph_wf_def add_point_def)

lemma fold_add_points:
  assumes "graph_wf g"
  shows "graph_wf (fold (\<lambda>t. add_point (point_of t)) ts g)"
    and "nodes (fold (\<lambda>t. add_point (point_of t)) ts g) = nodes g \<union> track_id ` set ts"
    and "tg_edges (fold (\<lambda>t. add_point (point_of t)) ts g) = tg_edges g"
    and "i \<notin> track_id ` set ts \<Longrightarrow>
      omap_get (tg_points (fold (\<lambda>t. add_point (point_of t)) ts g)) i = omap_get (tg_points g) i"
  using assms
proof (induction ts arbitrary: g)
  case (Cons t ts)
  { case 1 then show ?case using Cons.IH(1) add_point_wf by simp }
  { case 2 then show ?case using Cons.IH(2) add_point_wf by (simp add: nodes_add_point) }
  { case 3 then show ?case using Cons.IH(3) add_point_wf by simp }
  { case 4 then show ?case using Cons.IH(4) add_point_wf get_add_point by simp }
qed simp_all

lemma fold_add_points_get:
  assumes "graph_wf g" and "distinct (map track_id ts)" and "t \<in> set ts"
  shows "omap_get (tg_points (fold (\<lambda>t. add_point (point_of t)) ts g)) (track_id t) = Some (point_of t)"
  using assms
proof (induction ts arbitrary: g)
  case (Cons u ts)
  have wf: "graph_wf (add_point (point_of u) g)" by (rule add_point_wf [OF Cons.prems(1)])
  show ?case
  proof (cases "t \<in> set ts")
    case True
    then show ?thesis using Cons.IH [OF wf] Cons.prems(2) by simp
  next
    case False
    then have t: "t = u" "track_id u \<notin> track_id ` set ts" using Cons.prems(2,3) by auto
    show ?thesis using fold_add_points(4) [OF wf t(2)] get_add_point [OF Cons.prems(1)] by (simp add: t(1))
  qed
qed simp

lemma add_edges_links:
  "graph_wf g \<Longrightarrow>
     (if set es \<subseteq> nodes g \<times> nodes g
      then \<exists>h. add_edges es g = Inr h \<and> tg_points h = tg_points g \<and>
        map (\<lambda>e. (edge_from e, edge_to e)) (tg_edges h) = map (\<lambda>e. (edge_from e, edge_to e)) (tg_edges g) @ es
      else add_edges es g = Inl (Invalid_argument ''edge references unknown point''))"
proof (induction es g rule: add_edges.induct)
  case (2 i j rest g)
  show ?case
  proof (cases "i \<in> nodes g \<and> j \<in> nodes g")
    case True
    then obtain h where h: "add_edge i j g = Inr h" using add_edge_cases [OF "2.prems", of i j] by simp
    note w = add_edge_wf [OF "2.prems" h]
    show ?thesis using "2.IH" [OF h w(1)] w(2-4) True h by (auto split: if_splits)
  next
    case False
    then show ?thesis using add_edge_cases [OF "2.prems", of i j] by auto
  qed
qed simp

text \<open>The loader on a printed file.\<close>

lemma parse_track_file:
  assumes "\<forall>t \<in> set ts. track_ok t" and "distinct (map track_id ts)"
  shows "if \<forall>t \<in> set ts. \<forall>j. track_next t = Some j \<longrightarrow> j \<in> track_id ` set ts
    then \<exists>g. parse_trajectory_csv path (Some (track_file ts)) = Inr \<lparr>parsed_graph = g, parsed_route = map track_id ts\<rparr> \<and>
      graph_wf g \<and> nodes g = track_id ` set ts \<and> (\<forall>t \<in> set ts. omap_get (tg_points g) (track_id t) = Some (point_of t)) \<and>
      map (\<lambda>e. (edge_from e, edge_to e)) (tg_edges g) = concat (map link_of ts)
    else parse_trajectory_csv path (Some (track_file ts)) = Inl (Invalid_argument ''edge references unknown point'')"
proof -
  let ?g = "fold (\<lambda>t. add_point (point_of t)) ts empty_graph" and ?es = "concat (map link_of ts)"
  note f = fold_add_points [OF empty_graph_wf]
  have get: "\<forall>t \<in> set ts. omap_get (tg_points ?g) (track_id t) = Some (point_of t)"
    using fold_add_points_get [OF empty_graph_wf assms(2)] by blast
  have read: "read_points True (getline_all (CHR 0x0A) (track_file ts))
      \<lparr>parsed_graph = empty_graph, parsed_route = []\<rparr> [] = Inr (\<lparr>parsed_graph = ?g, parsed_route = map track_id ts\<rparr>, ?es)"
    using tracks_csv.read_printed [OF assms(1), of track_header "(\<lparr>parsed_graph = empty_graph, parsed_route = []\<rparr>, [])"]
    by (simp add: track_file_def track_header_def fold_add_track)
  have n: "nodes ?g = track_id ` set ts" using f(2) by (simp add: empty_graph_def nodes_def)
  have links: "set ?es \<subseteq> nodes ?g \<times> nodes ?g \<longleftrightarrow>
      (\<forall>t \<in> set ts. \<forall>j. track_next t = Some j \<longrightarrow> j \<in> track_id ` set ts)"
  proof -
    have es: "set ?es = {(track_id t, j) | t j. t \<in> set ts \<and> track_next t = Some j}"
      by (auto simp: link_of_def split: option.splits)
    show ?thesis unfolding n es by auto
  qed
  have p: "parse_trajectory_csv path (Some (track_file ts)) =
      bind_result (add_edges ?es ?g) (\<lambda>g. Inr \<lparr>parsed_graph = g, parsed_route = map track_id ts\<rparr>)"
    by (simp add: parse_trajectory_csv_def read)
  have e: "tg_edges ?g = []" using f(3) by (simp add: empty_graph_def)
  note result = add_edges_links [OF f(1) [of ts], of ?es, unfolded links e]
  show ?thesis
  proof (cases "\<forall>t \<in> set ts. \<forall>j. track_next t = Some j \<longrightarrow> j \<in> track_id ` set ts")
    case True
    then obtain h where h: "add_edges ?es ?g = Inr h" "tg_points h = tg_points ?g"
      "map (\<lambda>e. (edge_from e, edge_to e)) (tg_edges h) = ?es" using result by auto
    have "nodes h = track_id ` set ts" using n h(2) by (simp add: nodes_def)
    moreover have "graph_wf h" using add_edges_wf [OF h(1) f(1)] by simp
    ultimately show ?thesis using True h get by (simp add: p)
  next
    case False
    then have "add_edges ?es ?g = Inl (Invalid_argument ''edge references unknown point'')" using result by presburger
    then show ?thesis using False by (simp add: p)
  qed
qed

end
