(* ===== verification/Cpp_Program.thy ===== *)
theory Cpp_Program
  imports Double_Text
begin

text \<open>
  A command-line program: \<open>main\<close> is a function of its arguments after the program name and of the files it may
  read (the contents of a path, \<open>None\<close> when it cannot be opened). It gives the exit status, what it
  wrote to the standard output and to the standard error, and the files it wrote, in order.
  \<open>what\<close> is the message of an exception.
\<close>

record outcome =
  exit_code :: int
  std_out :: string
  std_err :: string
  files_written :: "(string \<times> string) list"

definition exits :: "int \<Rightarrow> string \<Rightarrow> string \<Rightarrow> outcome" where
  "exits c out err = \<lparr>exit_code = c, std_out = out, std_err = err, files_written = []\<rparr>"

fun what :: "cpp_exception \<Rightarrow> string" where
  "what (Runtime_error m) = m"
| "what (Invalid_argument m) = m"
| "what (Out_of_range m) = m"

definition newline :: string where
  "newline = [CHR 0x0A]"

text \<open>One line, and one entry of the JSON object that the small tools print.\<close>

definition text_line :: "string \<Rightarrow> string" where
  "text_line s = s @ newline"

definition quote_mark :: string where
  "quote_mark = [CHR 0x22]"

definition json_entry :: "string \<Rightarrow> string \<Rightarrow> string \<Rightarrow> string" where
  "json_entry key value tail = text_line (''  '' @ quote_mark @ key @ quote_mark @ '': '' @ value @ tail)"

lemma exits_simps [simp]:
  "exit_code (exits c out err) = c" "std_out (exits c out err) = out" "std_err (exits c out err) = err"
  "files_written (exits c out err) = []"
  by (simp_all add: exits_def)

end
