(* ===== verification/Trajectory_Cli.thy ===== *)
theory Trajectory_Cli
  imports Trajectory_Graph Cpp_Program
begin

text \<open>
  The command line of the trajectory graph, \<open>trajectory_graph_lite/src/trajectory_graph_cli.cpp\<close>.
  \<open>order_of\<close> is the order in which a graph's hash map of points is iterated.
\<close>

definition print_graph_summary :: "graph_summary \<Rightarrow> string" where
  "print_graph_summary s =
     text_line ''{'' @
     json_entry ''nodes'' (dec_string (sum_nodes s)) '','' @
     json_entry ''edges'' (dec_string (sum_edges s)) '','' @
     json_entry ''connected_components'' (dec_string (sum_components s)) '','' @
     json_entry ''disconnected_segments'' (dec_string (sum_segments s)) '','' @
     json_entry ''total_edge_distance'' (format_fixed 3 (sum_total_distance s)) '','' @
     json_entry ''average_edge_distance'' (format_fixed 3 (sum_average_distance s)) '','' @
     json_entry ''turn_transitions'' (dec_string (sum_turns s)) [] @
     text_line ''}''"

definition trajectory_main ::
  "(double \<Rightarrow> double) \<Rightarrow> (trajectory_graph \<Rightarrow> u64 list) \<Rightarrow> (string \<Rightarrow> string option) \<Rightarrow> string list \<Rightarrow> outcome" where
  "trajectory_main acos_fn order_of files args =
     (case args of
        [path] \<Rightarrow>
          (case bind_result (parse_trajectory_csv path (files path)) (\<lambda>parsed.
                  summarize_graph acos_fn (order_of (parsed_graph parsed)) (parsed_graph parsed)
                    (parsed_route parsed)) of
             Inl e \<Rightarrow> exits 1 [] (''trajectory analysis failed: '' @ text_line (what e))
           | Inr summary \<Rightarrow> exits 0 (print_graph_summary summary) [])
      | _ \<Rightarrow> exits 2 [] (text_line ''usage: trajectory-graph <trajectory.csv>''))"

end
