(* ===== verification/Trajectory_Properties.thy ===== *)
theory Trajectory_Properties
  imports Trajectory_Files Trajectory_Cli
begin

text \<open>
  The properties of the trajectory graph: its components and isolated nodes, whatever the order in
  which the hash map is iterated, and what a parsed file gives.
\<close>

section \<open>Graphs built by the public operations\<close>

datatype graph_op = Add_point point | Add_edge u64 u64

fun graph_ops :: "graph_op list \<Rightarrow> trajectory_graph \<Rightarrow> trajectory_graph result" where
  "graph_ops [] g = Inr g"
| "graph_ops (Add_point p # rest) g = graph_ops rest (add_point p g)"
| "graph_ops (Add_edge i j # rest) g = bind_result (add_edge i j g) (graph_ops rest)"

lemma graph_ops_wf: "graph_ops ops g = Inr h \<Longrightarrow> graph_wf g \<Longrightarrow> graph_wf h"
proof (induction ops g rule: graph_ops.induct)
  case (3 i j rest g)
  then obtain g' where "add_edge i j g = Inr g'" "graph_ops rest g' = Inr h"
    by (auto simp: bind_result_Inr_iff)
  then show ?case using "3.IH" "3.prems"(2) add_edge_wf(1) by blast
qed (simp_all add: add_point_wf)

text \<open>Two points, joined, and one apart.\<close>

definition corner :: "u64 \<Rightarrow> rat \<Rightarrow> rat \<Rightarrow> point" where
  "corner i x y = \<lparr>point_id = i, point_x = Fin x, point_y = Fin y\<rparr>"

definition corner_ops :: "graph_op list" where
  "corner_ops = [Add_point (corner 1 0 0), Add_point (corner 2 3 4), Add_point (corner 3 5 5), Add_edge 1 2]"

definition corner_graph :: trajectory_graph where
  "corner_graph =
     \<lparr>tg_points = [(1, corner 1 0 0), (2, corner 2 3 4), (3, corner 3 5 5)],
      tg_adjacency = [(1, [2]), (2, [1]), (3, [])],
      tg_edges = [\<lparr>edge_from = 1, edge_to = 2,
                   edge_length = distance_between (corner 1 0 0) (corner 2 3 4)\<rparr>]\<rparr>"

lemma corner_graph: "graph_ops corner_ops empty_graph = Inr corner_graph"
  by (simp add: corner_ops_def corner_graph_def empty_graph_def add_point_def corner_def try_emplace_def
      omap_get_def add_edge_def has_point_def edge_distance_def point_at_def push_neighbor_def neighbors_def)

lemma corner_order: "iteration_of [3, 1, 2] corner_graph"
  by (auto simp: iteration_of_def nodes_def corner_graph_def)

text \<open>
  C34. On a graph built by \<open>add_point\<close> and \<open>add_edge\<close>, in any order in which the hash map is iterated,
  \<open>connected_components\<close> is the number of classes of nodes joined by paths along edges, in either direction.
\<close>

theorem components_are_classes:
  assumes "graph_ops ops empty_graph = Inr g" and "iteration_of order g"
  shows "connected_components order g = card (nodes g // (edge_rel g \<union> (edge_rel g)\<inverse>)\<^sup>*)"
  by (rule connected_components_eq [OF graph_ops_wf [OF assms(1) empty_graph_wf] assms(2)])

theorem components_are_classes_witness:
  "connected_components [3, 1, 2] corner_graph = 2 \<and>
   card (nodes corner_graph // (edge_rel corner_graph \<union> (edge_rel corner_graph)\<inverse>)\<^sup>*) = 2"
proof -
  have "connected_components [3, 1, 2] corner_graph = 2"
    by (simp add: connected_components_def corner_graph_def omap_get_def Let_def)
  then show ?thesis using components_are_classes [OF corner_graph corner_order] by simp
qed

text \<open>
  \<open>disconnected_nodes\<close> lists, sorted and without repetition, the points that no edge touches,
  in whatever order the hash map is iterated.
\<close>

theorem disconnected_nodes_isolated:
  assumes "graph_ops ops empty_graph = Inr g" and "iteration_of order g"
  shows "disconnected_nodes order g =
    sorted_list_of_set {i \<in> nodes g. \<forall>e \<in> set (tg_edges g). edge_from e \<noteq> i \<and> edge_to e \<noteq> i}"
proof -
  have wf: "graph_wf g" by (rule graph_ops_wf [OF assms(1) empty_graph_wf])
  let ?P = "\<lambda>i. case omap_get (tg_adjacency g) i of None \<Rightarrow> True | Some ns \<Rightarrow> ns = []"
  have "?P i \<longleftrightarrow> set (neighbors (tg_adjacency g) i) = {}" for i
    by (simp add: neighbors_def split: option.splits)
  moreover have "set (neighbors (tg_adjacency g) i) = (edge_rel g \<union> (edge_rel g)\<inverse>) `` {i}" for i
    using wf by (auto simp: graph_wf_def neighbor_rel_def set_eq_iff)
  ultimately have "?P i \<longleftrightarrow> (\<forall>e \<in> set (tg_edges g). edge_from e \<noteq> i \<and> edge_to e \<noteq> i)" for i
    by (auto simp: edge_rel_def)
  then have "set (filter ?P order) = {i \<in> nodes g. \<forall>e \<in> set (tg_edges g). edge_from e \<noteq> i \<and> edge_to e \<noteq> i}"
    using assms(2) by (simp add: iteration_of_def)
  moreover have "distinct (filter ?P order)" using assms(2) by (simp add: iteration_of_def)
  moreover have "sorted_list_of_set (set (filter ?P order)) = sort (remdups (filter ?P order))"
    by (rule sorted_list_of_set_sort_remdups)
  ultimately show ?thesis unfolding disconnected_nodes_def by (simp only: distinct_remdups_id)
qed

theorem disconnected_nodes_isolated_witness:
  "disconnected_nodes [3, 1, 2] corner_graph = [3] \<and>
   sorted_list_of_set {i \<in> nodes corner_graph.
     \<forall>e \<in> set (tg_edges corner_graph). edge_from e \<noteq> i \<and> edge_to e \<noteq> i} = [3]"
proof -
  have "disconnected_nodes [3, 1, 2] corner_graph = [3]"
    by (simp add: disconnected_nodes_def corner_graph_def omap_get_def)
  then show ?thesis using disconnected_nodes_isolated [OF corner_graph corner_order] by simp
qed

section \<open>Parsed files\<close>

lemma parse_parts:
  assumes "parse_trajectory_csv path contents = Inr p"
  obtains q es where "parsed_ok q es" and "add_edges es (parsed_graph q) = Inr (parsed_graph p)"
    and "parsed_route p = parsed_route q"
proof -
  obtain s q es where r: "read_points True (getline_all (CHR 0x0A) s)
      \<lparr>parsed_graph = empty_graph, parsed_route = []\<rparr> [] = Inr (q, es)"
    and e: "add_edges es (parsed_graph q) = Inr (parsed_graph p)" "parsed_route p = parsed_route q"
    using assms by (auto simp: parse_trajectory_csv_def bind_result_Inr_iff split: option.splits)
  have "parsed_ok \<lparr>parsed_graph = empty_graph, parsed_route = []\<rparr> []"
    using empty_graph_wf by (simp add: parsed_ok_def empty_graph_def nodes_def)
  then show ?thesis using that read_points_ok [OF r] e by blast
qed

lemma summary_total:
  assumes "graph_wf g" and "set route = nodes g" and "iteration_of order g"
  shows "\<exists>s. summarize_graph acos_fn order g route = Inr s \<and>
    sum_nodes s = card (nodes g) \<and> sum_edges s = edge_count g \<and>
    sum_components s = card (nodes g // (edge_rel g \<union> (edge_rel g)\<inverse>)\<^sup>*) \<and>
    sum_segments s = sum_components s - 1 \<and> sum_turns s \<le> length route - 2"
proof -
  obtain m where m: "turn_transitions acos_fn g route (Fin 20) = Inr m" "m \<le> length route - 2"
    using turn_scan_total [of route g acos_fn "Fin 20" 0] assms(2)
    by (cases "length route < 3") (auto simp: turn_transitions_def)
  then show ?thesis
    using node_count_card [OF assms(1)]
    by (auto simp: summarize_graph_def Let_def connected_components_eq [OF assms(1,3)])
qed

text \<open>
  C35. The summary of a parsed file never throws, whatever the arc cosine: it has as many nodes as the
  file has distinct ids, at most one edge per line, between one component (unless there is no
  point) and as many as nodes, one segment fewer, and at most two fewer turns than lines.
\<close>

theorem parsed_summary:
  assumes "parse_trajectory_csv path contents = Inr p" and "iteration_of order (parsed_graph p)"
  shows "\<exists>s. summarize_graph acos_fn order (parsed_graph p) (parsed_route p) = Inr s \<and>
    sum_nodes s = card (set (parsed_route p)) \<and> sum_edges s \<le> length (parsed_route p) \<and>
    sum_components s \<le> sum_nodes s \<and> (0 < sum_nodes s \<longrightarrow> 0 < sum_components s) \<and>
    sum_segments s = sum_components s - 1 \<and> sum_turns s \<le> length (parsed_route p) - 2"
proof -
  obtain q es where q: "parsed_ok q es" and e: "add_edges es (parsed_graph q) = Inr (parsed_graph p)"
    and r: "parsed_route p = parsed_route q"
    by (rule parse_parts [OF assms(1)])
  let ?g = "parsed_graph p"
  have g: "graph_wf ?g" "nodes ?g = set (parsed_route p)" "edge_count ?g \<le> length (parsed_route p)"
    using add_edges_wf [OF e] q r by (auto simp: parsed_ok_def edge_count_def nodes_def)
  show ?thesis
    using summary_total [OF g(1) g(2) [symmetric] assms(2), of acos_fn] g(2,3)
      component_bounds [of ?g "(edge_rel ?g \<union> (edge_rel ?g)\<inverse>)\<^sup>*"] by (auto simp: card_gt_0_iff)
qed

definition corner_file :: string where
  "corner_file = ''id,x,y,next'' @ [CHR 0x0A] @ ''1,0,0,2'' @ [CHR 0x0A] @ ''2,3,4,-1''"

lemma distance_nonneg: "Fin 0 \<le> distance_between a b"
proof -
  have "Fin 0 \<le> dsqrt x" if "Fin 0 \<le> x" for x
  proof (cases x)
    case (Fin r)
    have "round_double 0 \<le> round_double (sqrt_val r)" by (rule round_double_mono [OF sqrt_val_nonneg])
    then show ?thesis using Fin that round_double_exact [OF is_double_0] by simp
  qed (use that in auto)
  moreover have "Fin 0 \<le> dmul x x" for x
  proof (cases x)
    case (Fin r)
    have "round_double 0 \<le> round_double (r * r)" by (rule round_double_mono) simp
    then show ?thesis using Fin round_double_exact [OF is_double_0] by simp
  qed simp_all
  moreover have "Fin 0 \<le> dadd x y" if "Fin 0 \<le> x" "Fin 0 \<le> y" for x y
  proof (cases "(x, y)" rule: dadd.cases)
    case (1 a b)
    have "round_double 0 \<le> round_double (a + b)" using that 1 by (intro round_double_mono) simp
    then show ?thesis using 1 round_double_exact [OF is_double_0] by simp
  qed (use that in auto)
  ultimately show ?thesis by (simp add: distance_between_def Let_def)
qed

lemma add_edges_distances:
  assumes "add_edges es g = Inr h" and "graph_wf g"
    and "\<forall>e \<in> set (tg_edges g). edge_length e =
      distance_between (the (omap_get (tg_points g) (edge_from e))) (the (omap_get (tg_points g) (edge_to e)))"
  shows "\<forall>e \<in> set (tg_edges h). edge_length e =
    distance_between (the (omap_get (tg_points h) (edge_from e))) (the (omap_get (tg_points h) (edge_to e)))"
  using assms
proof (induction es g rule: add_edges.induct)
  case (2 i j rest g)
  then obtain g' where g': "add_edge i j g = Inr g'" "add_edges rest g' = Inr h"
    by (auto simp: bind_result_Inr_iff)
  note w = add_edge_wf [OF "2.prems"(2) g'(1)]
  show ?case by (rule "2.IH" [OF g'(1) g'(2) w(1)]) (use w(3,4) "2.prems"(3) in auto)
qed simp

text \<open>
  Every edge of a parsed file has the distance between its end points as the file gives them last, which
  is never negative.
\<close>

theorem parsed_distances:
  assumes "parse_trajectory_csv path contents = Inr p" and "e \<in> set (tg_edges (parsed_graph p))"
  shows "edge_length e = distance_between (the (omap_get (tg_points (parsed_graph p)) (edge_from e)))
      (the (omap_get (tg_points (parsed_graph p)) (edge_to e))) \<and> Fin 0 \<le> edge_length e"
proof -
  obtain q es where q: "parsed_ok q es" and e: "add_edges es (parsed_graph q) = Inr (parsed_graph p)"
    by (rule parse_parts [OF assms(1)])
  have "graph_wf (parsed_graph q)" "tg_edges (parsed_graph q) = []" using q by (simp_all add: parsed_ok_def)
  then show ?thesis using add_edges_distances [OF e] assms(2) distance_nonneg by simp
qed

lemma corner_lines:
  "getline_all (CHR 0x0A) corner_file = [''id,x,y,next'', ''1,0,0,2'', ''2,3,4,-1'']"
  by code_simp

lemma corner_fields:
  "getline_all (CHR '','') ''1,0,0,2'' = [''1'', ''0'', ''0'', ''2'']"
  "getline_all (CHR '','') ''2,3,4,-1'' = [''2'', ''3'', ''4'', ''-1'']"
  by code_simp+

lemma dec_digits:
  "dec_string 0 = ''0''" "dec_string 1 = ''1''" "dec_string 2 = ''2''" "dec_string 3 = ''3''" "dec_string 4 = ''4''"
  by code_simp+

lemma corner_numbers:
  "stoull ''1'' = Inr 1" "stoull ''2'' = Inr 2"
  "stod ''0'' = Inr (Fin 0)" "stod ''3'' = Inr (Fin 3)" "stod ''4'' = Inr (Fin 4)"
  using sto_u64_dec_string [of 1 "''stoull''"] sto_u64_dec_string [of 2 "''stoull''"]
    stod_dec_string [of 0] stod_dec_string [of 3] stod_dec_string [of 4]
  by (simp_all add: stoull_def dec_digits del: One_nat_def)

definition corner_parsed :: parsed_trajectory where
  "corner_parsed =
     \<lparr>parsed_graph =
        \<lparr>tg_points = [(1, corner 1 0 0), (2, corner 2 3 4)], tg_adjacency = [(1, [2]), (2, [1])],
         tg_edges = [\<lparr>edge_from = 1, edge_to = 2,
                      edge_length = distance_between (corner 1 0 0) (corner 2 3 4)\<rparr>]\<rparr>,
      parsed_route = [1, 2]\<rparr>"

lemma corner_parse: "parse_trajectory_csv path (Some corner_file) = Inr corner_parsed"
  by (simp add: parse_trajectory_csv_def corner_lines read_point_def csv_field_def corner_fields
      corner_numbers add_point_def empty_graph_def try_emplace_def omap_get_def add_edge_def
      has_point_def edge_distance_def point_at_def push_neighbor_def neighbors_def corner_parsed_def corner_def)

lemma corner_parsed_order: "iteration_of [2, 1] (parsed_graph corner_parsed)"
  by (auto simp: iteration_of_def nodes_def corner_parsed_def)

theorem parsed_summary_witness:
  "\<exists>s. summarize_graph dneg [2, 1] (parsed_graph corner_parsed) (parsed_route corner_parsed) = Inr s \<and>
     sum_nodes s = 2 \<and> sum_turns s = 0"
  using parsed_summary [OF corner_parse corner_parsed_order, of dneg] by (auto simp: corner_parsed_def)

theorem parsed_distances_witness:
  "edge_length (hd (tg_edges (parsed_graph corner_parsed))) =
     distance_between (corner 1 0 0) (corner 2 3 4) \<and>
   Fin 0 \<le> distance_between (corner 1 0 0) (corner 2 3 4)"
  using parsed_distances [OF corner_parse, of "hd (tg_edges (parsed_graph corner_parsed))"]
  by (simp add: corner_parsed_def omap_get_def)

section \<open>The program on a printed file\<close>




end
