(* ===== verification/Percentile.thy ===== *)
theory Percentile
  imports Cpp_Double
begin

text \<open>
  \<open>percentile\<close>, which \<open>performance_engine/src/performance_engine.cpp\<close> and
  \<open>storage_datapath/src/storage_datapath.cpp\<close> both define: the value at a fraction of the sorted
  samples, interpolated between neighbors. With a \<open>NaN\<close> among the samples \<open><\<close> is not the strict weak order that
  \<open>std::sort\<close> requires, and C++ leaves the call undefined: the value of the definition there stands for nothing in the
  code, and what is stated of it assumes samples that are not \<open>NaN\<close>. The callers never pass one: the
  latencies of the engine are \<open>micros\<close> (lemma \<open>micros_not_NaN\<close>), those of the storage simulation are numbers
  in the configuration of its \<open>main\<close> (lemma \<open>storage_samples_numbers\<close>).
\<close>

definition percentile :: "double list \<Rightarrow> double \<Rightarrow> double" where
  "percentile values0 fraction =
     (if values0 = [] then Fin 0 else
       (let values = sort values0;
            position = dmul fraction (of_size (length values - 1));
            lower = size_floor position;
            upper = size_ceil position
        in if lower = upper then values ! lower
           else
             (let weight = dsub position (of_size lower)
              in dadd (dmul (values ! lower) (dsub (Fin 1) weight)) (dmul (values ! upper) weight))))"

text \<open>What \<open>std::sort\<close> promises of its result: a permutation in which no element is less than an earlier one.\<close>

lemma std_sort_unique:
  assumes "\<forall>x \<in> set xs. x \<noteq> NaN" and "mset ys = mset xs" and "sorted_wrt (\<lambda>x y. \<not> dlt y x) ys"
  shows "ys = sort xs"
proof -
  have s: "set ys = set xs" using assms(2) by (metis set_mset_mset)
  have "sorted ys"
  proof (rule sorted_wrt_mono_rel [OF _ assms(3)])
    fix x y assume "x \<in> set ys" "y \<in> set ys" "\<not> dlt y x"
    moreover from this have "x \<noteq> NaN" "y \<noteq> NaN" using assms(1) s by blast+
    ultimately show "x \<le> y" by (simp add: dlt_def not_less)
  qed
  then show ?thesis using properties_for_sort [OF assms(2)] by simp
qed

text \<open>The samples count, not the order in which they were taken.\<close>

lemma percentile_mset: "mset xs = mset ys \<Longrightarrow> percentile xs f = percentile ys f"
proof -
  assume m: "mset xs = mset ys"
  then have "sort xs = sort ys" by (metis mset_sort properties_for_sort sorted_sort)
  moreover have "xs = [] \<longleftrightarrow> ys = []" using m by (metis mset_zero_iff)
  ultimately show ?thesis by (simp add: percentile_def)
qed

section \<open>Positions\<close>

lemma position_exact:
  assumes "n \<le> 2 ^ 53" and "0 \<le> f" and "f \<le> 1"
  shows "dmul (Fin f) (of_size n) = Fin (round_val (f * of_nat n))"
    and "0 \<le> round_val (f * of_nat n)" and "round_val (f * of_nat n) \<le> of_nat n"
proof -
  have n: "is_double (of_nat n)" by (rule is_double_nat [OF assms(1)])
  have le: "f * of_nat n \<le> of_nat n" "0 \<le> f * of_nat n"
    using assms(2,3) mult_right_mono [of f 1 "of_nat n"] by simp_all
  show "0 \<le> round_val (f * of_nat n)" by (rule round_val_nonneg [OF le(2)])
  have "round_val (f * of_nat n) \<le> round_val (of_nat n)" by (rule round_val_mono [OF le(1)])
  then show "round_val (f * of_nat n) \<le> of_nat n" using n by (simp add: is_double_def)
  show "dmul (Fin f) (of_size n) = Fin (round_val (f * of_nat n))"
    using of_size_exact [OF assms(1)] is_double_between [OF n le(2,1)]
    by (simp add: round_double_Fin_iff)
qed

text \<open>The two positions are inside the samples.\<close>

lemma percentile_positions:
  assumes "n \<le> 2 ^ 53" and "0 \<le> f" and "f \<le> 1"
  shows "size_floor (dmul (Fin f) (of_size n)) \<le> size_ceil (dmul (Fin f) (of_size n))"
    and "size_ceil (dmul (Fin f) (of_size n)) \<le> n"
proof -
  note p = position_exact [OF assms]
  show "size_floor (dmul (Fin f) (of_size n)) \<le> size_ceil (dmul (Fin f) (of_size n))"
    unfolding p(1) by (simp add: size_floor_def size_ceil_def nat_mono floor_le_ceiling)
  have "\<lceil>round_val (f * of_nat n)\<rceil> \<le> int n" using p(3) by (simp add: ceiling_le_iff)
  then show "size_ceil (dmul (Fin f) (of_size n)) \<le> n"
    unfolding p(1) by (simp add: size_ceil_def)
qed

section \<open>The median\<close>

lemma round_val_half:
  assumes "n \<le> 2 ^ 53"
  shows "round_val (of_nat n / 2) = of_nat n / 2"
proof -
  have h: "(of_int (int n) :: rat) * 2 powi (- 1) = of_nat n / 2" by (simp add: power_int_def field_simps)
  have "\<bar>int n\<bar> \<le> 2 ^ 53" using assms by simp
  from round_val_exact [OF this, of "- 1"] show ?thesis unfolding h by simp
qed

lemma median_position:
  assumes "n \<le> 2 ^ 53"
  shows "dmul (Fin (1 / 2)) (of_size n) = Fin (of_nat n / 2)"
  using position_exact(1) [OF assms, of "1 / 2"] round_val_half [OF assms] by simp

lemma percentile_median_odd:
  assumes "length xs = 2 * k + 1" and "length xs \<le> 2 ^ 53"
  shows "percentile xs (Fin (1 / 2)) = sort xs ! k"
proof -
  have "xs \<noteq> []" using assms(1) by auto
  moreover have "dmul (Fin (1 / 2)) (of_size (length xs - 1)) = Fin (of_nat k)"
    using median_position [of "2 * k"] assms by simp
  ultimately show ?thesis
    by (simp add: percentile_def size_floor_def size_ceil_def)
qed

lemma dmul_half:
  assumes "is_double (r / 2)"
  shows "dmul (Fin r) (Fin (1 / 2)) = Fin (r / 2)"
  using round_double_exact [OF assms] by simp

lemma percentile_median_even:
  assumes "length xs = 2 * k + 2" and "length xs \<le> 2 ^ 53"
    and "sort xs ! k = Fin a" and "sort xs ! (k + 1) = Fin b"
    and "is_double a" and "is_double b" and "is_double (a / 2)" and "is_double (b / 2)"
  shows "percentile xs (Fin (1 / 2)) = Fin (round_val ((a + b) / 2))"
    and "a \<le> round_val ((a + b) / 2)" and "round_val ((a + b) / 2) \<le> b"
proof -
  have ab: "a \<le> b"
  proof -
    have "sort xs ! k \<le> sort xs ! (k + 1)" using assms(1) by (intro sorted_nth_mono) simp_all
    then show ?thesis using assms(3,4) by simp
  qed
  have "a \<le> (a + b) / 2" "(a + b) / 2 \<le> b" using ab by simp_all
  note m = this [THEN round_val_mono]
  from m show le: "a \<le> round_val ((a + b) / 2)" "round_val ((a + b) / 2) \<le> b"
    using assms(5,6) by (simp_all add: is_double_def)
  have "\<bar>round_val ((a + b) / 2)\<bar> < 2 ^ 1024"
    using le assms(5,6) unfolding is_double_def abs_less_iff by linarith
  then have d: "round_double (a / 2 + b / 2) = Fin (round_val ((a + b) / 2))"
    by (simp add: round_double_Fin_iff is_double_def add_divide_distrib)
  have ne: "xs \<noteq> []" using assms(1) by auto
  have p: "dmul (Fin (1 / 2)) (of_size (length xs - 1)) = Fin (of_nat (2 * k + 1) / 2)"
    using median_position [of "2 * k + 1"] assms(1,2) by simp
  have fl: "size_floor (Fin (of_nat (2 * k + 1) / 2)) = k" "size_ceil (Fin (of_nat (2 * k + 1) / 2)) = k + 1"
  proof -
    have "\<lfloor>of_nat (2 * k + 1) / (2 :: rat)\<rfloor> = int k" "\<lceil>of_nat (2 * k + 1) / (2 :: rat)\<rceil> = int (k + 1)"
      by (simp_all add: floor_eq_iff ceiling_eq_iff field_simps)
    then show "size_floor (Fin (of_nat (2 * k + 1) / 2)) = k" "size_ceil (Fin (of_nat (2 * k + 1) / 2)) = k + 1"
      by (simp_all add: size_floor_def size_ceil_def)
  qed
  have w: "dsub (Fin (of_nat (2 * k + 1) / 2)) (of_size k) = Fin (1 / 2)"
  proof -
    have "of_size k = Fin (of_nat k)" using assms(1,2) by (intro of_size_exact) simp
    moreover have "of_nat (2 * k + 1) / 2 + - of_nat k = (1 / 2 :: rat)" by (simp add: field_simps)
    moreover have "round_double (1 / 2) = Fin (1 / 2)"
      using round_val_half [of 1] by (intro round_double_exact) (simp add: is_double_def)
    ultimately show ?thesis by (simp only: dsub_def dneg.simps dadd.simps)
  qed
  have h: "dsub (Fin 1) (Fin (1 / 2)) = Fin (1 / 2)"
  proof -
    have "round_double (1 / 2) = Fin (1 / 2)"
      using round_val_half [of 1] by (intro round_double_exact) (simp add: is_double_def)
    then show ?thesis by (simp add: dsub_def)
  qed
  show "percentile xs (Fin (1 / 2)) = Fin (round_val ((a + b) / 2))"
    using ne unfolding percentile_def Let_def length_sort p fl w h assms(3,4)
    by (simp add: dmul_half [OF assms(7)] dmul_half [OF assms(8)] d del: dmul.simps)
qed

end
