(* ===== verification/Storage_Datapath.thy ===== *)
theory Storage_Datapath
  imports Percentile Cpp_Program Csv_Rows
begin

text \<open>
  The storage datapath, \<open>storage_datapath/src/storage_datapath.cpp\<close> with its header, and its command line,
  \<open>storage_datapath_cli.cpp\<close>. The queue depths are 64-bit words, so that \<open>queue_depth - 1\<close> wraps as
  the code's does; the counters are bounded by the length of the workload.
\<close>

section \<open>Data\<close>

datatype operation = Read | Write

record request =
  rq_id :: u64
  rq_operation :: operation
  rq_block :: u64
  rq_size_bytes :: u64
  rq_cache_hit :: bool

record storage_config =
  max_queue_depth :: u64
  memory_bandwidth_bytes_per_us :: double
  cache_hit_latency_us :: double
  cache_miss_latency_us :: double
  write_base_latency_us :: double
  queue_penalty_us :: double

definition default_storage :: storage_config where
  "default_storage =
     \<lparr>max_queue_depth = 8, memory_bandwidth_bytes_per_us = Fin 4096, cache_hit_latency_us = Fin 2,
      cache_miss_latency_us = Fin 18, write_base_latency_us = Fin 12, queue_penalty_us = Fin (3 / 2)\<rparr>"

record request_result =
  res_id :: u64
  queue_delay_us :: double
  service_latency_us :: double
  total_latency_us :: double
  queue_depth :: u64
  res_cache_hit :: bool

record storage_summary =
  total_requests :: nat
  read_requests :: nat
  write_requests :: nat
  cache_hits :: nat
  cache_misses :: nat
  max_observed_queue_depth :: u64
  throughput_requests_per_sec :: double
  p50_latency_us :: double
  p95_latency_us :: double
  p99_latency_us :: double
  bottleneck :: string

definition storage_percentile :: "double list \<Rightarrow> double \<Rightarrow> double" where
  "storage_percentile values p = percentile values p"

section \<open>The simulation\<close>

definition service_latency :: "storage_config \<Rightarrow> request \<Rightarrow> double" where
  "service_latency config request =
     (let bandwidth_latency = ddiv (of_size (unat (rq_size_bytes request))) (memory_bandwidth_bytes_per_us config)
      in if rq_operation request = Read then
           (let base = (if rq_cache_hit request then cache_hit_latency_us config else cache_miss_latency_us config)
            in dadd base bandwidth_latency)
         else dadd (write_base_latency_us config) bandwidth_latency)"

fun run_requests ::
  "storage_config \<Rightarrow> nat \<Rightarrow> request list \<Rightarrow> double \<Rightarrow> double \<Rightarrow> request_result list \<Rightarrow> request_result list" where
  "run_requests config i [] virtual_time_us completion_time_us results = results"
| "run_requests config i (request # rest) virtual_time_us completion_time_us results =
     (let depth = min (of_nat (i + 1)) (max_queue_depth config);
          delay = dmul (of_size (unat (depth - 1))) (queue_penalty_us config);
          service = service_latency config request;
          total = dadd delay service;
          virtual_time_us = dadd virtual_time_us (Fin 1);
          completion_time_us = dadd (dmax completion_time_us virtual_time_us) total
      in run_requests config (i + 1) rest virtual_time_us completion_time_us
           (results @ [\<lparr>res_id = rq_id request, queue_delay_us = delay, service_latency_us = service,
                        total_latency_us = total, queue_depth = depth,
                        res_cache_hit = rq_cache_hit request\<rparr>]))"

definition run_storage :: "storage_config \<Rightarrow> request list \<Rightarrow> request_result list" where
  "run_storage config requests = run_requests config 0 requests (Fin 0) (Fin 0) []"

section \<open>The summary\<close>

fun count_requests :: "request list \<Rightarrow> nat \<times> nat \<times> nat \<times> nat \<Rightarrow> nat \<times> nat \<times> nat \<times> nat" where
  "count_requests [] counts = counts"
| "count_requests (request # rest) (reads, writes, hits, misses) =
     (let (reads, writes) = (if rq_operation request = Read then (reads + 1, writes) else (reads, writes + 1));
          (hits, misses) = (if rq_cache_hit request then (hits + 1, misses) else (hits, misses + 1))
      in count_requests rest (reads, writes, hits, misses))"

fun collect_results ::
  "request_result list \<Rightarrow> double list \<Rightarrow> double \<Rightarrow> u64 \<Rightarrow> double list \<times> double \<times> u64" where
  "collect_results [] latencies total_runtime_us max_depth = (latencies, total_runtime_us, max_depth)"
| "collect_results (result # rest) latencies total_runtime_us max_depth =
     collect_results rest (latencies @ [total_latency_us result])
       (dadd total_runtime_us (total_latency_us result)) (max max_depth (queue_depth result))"

fun count_pressure :: "request list \<Rightarrow> nat \<Rightarrow> nat \<Rightarrow> nat \<times> nat" where
  "count_pressure [] misses large_requests = (misses, large_requests)"
| "count_pressure (request # rest) misses large_requests =
     count_pressure rest (if \<not> rq_cache_hit request then misses + 1 else misses)
       (if 16384 \<le> rq_size_bytes request then large_requests + 1 else large_requests)"

fun count_queued :: "storage_config \<Rightarrow> request_result list \<Rightarrow> nat \<Rightarrow> nat" where
  "count_queued config [] queue_pressure = queue_pressure"
| "count_queued config (result # rest) queue_pressure =
     count_queued config rest
       (if max_queue_depth config \<le> queue_depth result then queue_pressure + 1 else queue_pressure)"

definition classify_storage :: "storage_config \<Rightarrow> request list \<Rightarrow> request_result list \<Rightarrow> string" where
  "classify_storage config requests results =
     (if requests = [] then ''none'' else
       (let (misses, large_requests) = count_pressure requests 0 0;
            queue_pressure = count_queued config results 0;
            miss_rate = ddiv (of_size misses) (of_size (length requests));
            queue_rate = ddiv (of_size queue_pressure) (of_size (length results));
            large_request_rate = ddiv (of_size large_requests) (of_size (length requests))
        in if dle (round_double (40 / 100)) queue_rate then ''queue_depth_pressure''
           else if dle (round_double (50 / 100)) miss_rate then ''cache_miss_pressure''
           else if dle (round_double (40 / 100)) large_request_rate then ''memory_bandwidth_pressure''
           else ''balanced''))"

definition summarize_storage :: "storage_config \<Rightarrow> request list \<Rightarrow> request_result list \<Rightarrow> storage_summary" where
  "summarize_storage config requests results =
     (let (reads, writes, hits, misses) = count_requests requests (0, 0, 0, 0);
          (latencies, total_runtime_us, max_depth) = collect_results results [] (Fin 0) 0;
          throughput = (if deq total_runtime_us (Fin 0) then Fin 0
            else ddiv (of_size (length results)) (ddiv total_runtime_us (Fin 1000000)))
      in \<lparr>total_requests = length requests, read_requests = reads, write_requests = writes,
          cache_hits = hits, cache_misses = misses, max_observed_queue_depth = max_depth,
          throughput_requests_per_sec = throughput,
          p50_latency_us = storage_percentile latencies (round_double (50 / 100)),
          p95_latency_us = storage_percentile latencies (round_double (95 / 100)),
          p99_latency_us = storage_percentile latencies (round_double (99 / 100)),
          bottleneck = classify_storage config requests results\<rparr>)"

section \<open>The workload file\<close>

definition parse_request :: "string \<Rightarrow> request result" where
  "parse_request line =
     bind_result (stoull (csv_field line 0)) (\<lambda>i.
     bind_result (stoull (csv_field line 2)) (\<lambda>block.
     bind_result (stoull (csv_field line 3)) (\<lambda>size_bytes.
     Inr \<lparr>rq_id = i, rq_operation = (if csv_field line 1 = ''read'' then Read else Write),
          rq_block = block, rq_size_bytes = size_bytes,
          rq_cache_hit = (csv_field line 4 = ''true'')\<rparr>)))"

fun parse_requests :: "bool \<Rightarrow> string list \<Rightarrow> request list \<Rightarrow> request list result" where
  "parse_requests first_line [] requests = Inr requests"
| "parse_requests first_line (line # rest) requests =
     (if line = [] then parse_requests first_line rest requests
      else if first_line \<and> take 3 line = ''id,'' then parse_requests False rest requests
      else bind_result (parse_request line) (\<lambda>r. parse_requests False rest (requests @ [r])))"

definition parse_storage_csv :: "string \<Rightarrow> string option \<Rightarrow> request list result" where
  "parse_storage_csv path contents =
     (case contents of
        None \<Rightarrow> Inl (Runtime_error (''unable to open workload: '' @ path))
      | Some s \<Rightarrow> parse_requests True (getline_all (CHR 0x0A) s) [])"

section \<open>Printed workloads\<close>

text \<open>The format of the files under \<open>storage_datapath/data/\<close>.\<close>

definition request_header :: string where
  "request_header = ''id,operation,block,size_bytes,cache_hit''"

definition request_fields :: "request \<Rightarrow> string list" where
  "request_fields r =
     [to_string_u64 (rq_id r), if rq_operation r = Read then ''read'' else ''write'', to_string_u64 (rq_block r),
      to_string_u64 (rq_size_bytes r), if rq_cache_hit r then ''true'' else ''false'']"

definition request_row :: "request \<Rightarrow> string" where
  "request_row r = join (CHR '','') (request_fields r)"

lemma request_row_fields:
  "csv_field (request_row r) n = (if n < 5 then request_fields r ! n else [])"
  unfolding request_row_def
  by (subst csv_field_join)
    (use number_no_comma [OF number_to_string not_digits(1)] in \<open>simp_all add: request_fields_def\<close>)

lemma request_row_line: "request_row r \<noteq> [] \<and> CHR 0x0A \<notin> set (request_row r)"
  unfolding request_row_def
  by (rule csv_line_join)
    (use number_no_comma [OF number_to_string not_digits(4)] in \<open>simp_all add: request_fields_def\<close>)

lemma parse_request_row: "parse_request (request_row r) = Inr r"
  by (cases r; cases "rq_operation r") (simp_all add: parse_request_def request_row_fields request_fields_def stoull_def)

interpretation requests_csv: csv_printed parse_requests "\<lambda>l rs. bind_result (parse_request l) (\<lambda>r. Inr (rs @ [r]))"
  request_row "\<lambda>r rs. rs @ [r]" "\<lambda>_. True"
proof (unfold_locales, goal_cases)
  case (2 b l ls s)
  then show ?case by (cases "parse_request l") simp_all
qed (simp_all add: parse_request_row request_row_line)

section \<open>The command line\<close>

definition storage_cli_config :: storage_config where
  "storage_cli_config =
     \<lparr>max_queue_depth = 8, memory_bandwidth_bytes_per_us = Fin 4096, cache_hit_latency_us = Fin 2,
      cache_miss_latency_us = Fin 18, write_base_latency_us = Fin 12, queue_penalty_us = Fin (3 / 2)\<rparr>"

definition print_storage_summary :: "storage_summary \<Rightarrow> string" where
  "print_storage_summary s =
     text_line ''{'' @
     json_entry ''total_requests'' (dec_string (total_requests s)) '','' @
     json_entry ''read_requests'' (dec_string (read_requests s)) '','' @
     json_entry ''write_requests'' (dec_string (write_requests s)) '','' @
     json_entry ''cache_hits'' (dec_string (cache_hits s)) '','' @
     json_entry ''cache_misses'' (dec_string (cache_misses s)) '','' @
     json_entry ''max_queue_depth'' (to_string_u64 (max_observed_queue_depth s)) '','' @
     json_entry ''throughput_requests_per_sec'' (format_fixed 3 (throughput_requests_per_sec s)) '','' @
     json_entry ''p50_latency_us'' (format_fixed 3 (p50_latency_us s)) '','' @
     json_entry ''p95_latency_us'' (format_fixed 3 (p95_latency_us s)) '','' @
     json_entry ''p99_latency_us'' (format_fixed 3 (p99_latency_us s)) '','' @
     json_entry ''bottleneck'' (quote_mark @ bottleneck s @ quote_mark) [] @
     text_line ''}''"

definition storage_main :: "(string \<Rightarrow> string option) \<Rightarrow> string list \<Rightarrow> outcome" where
  "storage_main files args =
     (case args of
        [path] \<Rightarrow>
          (case parse_storage_csv path (files path) of
             Inl e \<Rightarrow> exits 1 [] (''storage datapath simulation failed: '' @ text_line (what e))
           | Inr requests \<Rightarrow>
               (let results = run_storage storage_cli_config requests;
                    summary = summarize_storage storage_cli_config requests results
                in exits 0 (print_storage_summary summary) []))
      | _ \<Rightarrow> exits 2 [] (text_line ''usage: storage-datapath <workload.csv>''))"

end
