(* ===== verification/Storage_Properties.thy ===== *)
theory Storage_Properties
  imports Storage_Datapath
begin

text \<open>
  The properties of the storage datapath: the queue delay of each request, and the classification of
  the bottleneck, whose comparisons of doubles decide as exact fractions would.
\<close>

section \<open>Fractions\<close>

lemma is_double_unit: "0 \<le> r \<Longrightarrow> r \<le> 1 \<Longrightarrow> is_double (round_val r)"
  using is_double_between [of 1 r] is_double_nat [of 1] by simp

lemma rounding_gap:
  "(d :: rat) \<le> a - b \<Longrightarrow> 2 * u < d \<Longrightarrow> a - u \<le> ra \<Longrightarrow> rb \<le> b + u \<Longrightarrow> ra \<le> rb \<Longrightarrow> False"
  by linarith

text \<open>A ratio of counters compared with a fraction with a small denominator.\<close>

lemma ratio_at_least:
  assumes n: "0 < n" "n \<le> 2 ^ 50" and m: "m \<le> n" and q: "0 < q" "q \<le> 5" and p: "p \<le> q"
  shows "dle (round_double (of_nat p / of_nat q)) (ddiv (of_size m) (of_size n)) \<longleftrightarrow> p * n \<le> m * q"
proof -
  let ?a = "of_nat p / of_nat q :: rat" and ?b = "of_nat m / of_nat n :: rat"
  have a: "0 \<le> ?a" "?a \<le> 1" and b: "0 \<le> ?b" "?b \<le> 1" using assms by simp_all
  have s: "of_size m = Fin (of_nat m)" "of_size n = Fin (of_nat n)"
    using n m by (intro of_size_exact, simp)+
  have r: "round_double ?a = Fin (round_val ?a)" "round_double ?b = Fin (round_val ?b)"
    using is_double_unit [OF a] is_double_unit [OF b] by (simp_all add: round_double_Fin_iff)
  have "dle (round_double ?a) (ddiv (of_size m) (of_size n)) \<longleftrightarrow> round_val ?a \<le> round_val ?b"
    using n(1) by (simp add: s r dle_def)
  also have "\<dots> \<longleftrightarrow> ?a \<le> ?b"
  proof
    show "?a \<le> ?b \<Longrightarrow> round_val ?a \<le> round_val ?b" by (rule round_val_mono)
    show "?a \<le> ?b" if le: "round_val ?a \<le> round_val ?b"
    proof (rule ccontr)
      assume "\<not> ?a \<le> ?b"
      then have lt: "m * q < p * n" using n(1) q(1)
        by (simp add: not_le divide_less_eq less_divide_eq mult.commute flip: of_nat_mult)
      then have "m * q + 1 \<le> p * n" by simp
      then have "of_nat m * of_nat q + 1 \<le> (of_nat p * of_nat n :: rat)"
        by (metis of_nat_1 of_nat_add of_nat_mono of_nat_mult)
      then have "1 / (of_nat q * of_nat n) \<le> ?a - ?b"
        using n(1) q(1) by (simp add: field_simps)
      moreover have "1 / 2 ^ 53 < (1 / (of_nat q * of_nat n) :: rat)"
      proof -
        have "q * n \<le> 5 * 2 ^ 50" using q(2) n(2) by (rule mult_le_mono)
        then have "q * n < 2 ^ 53" by simp
        then have "(of_nat (q * n) :: rat) < of_nat (2 ^ 53)" by (simp only: of_nat_less_iff)
        then show ?thesis using n(1) q(1) by (simp add: frac_less2)
      qed
      moreover have "?a - 1 / 2 ^ 54 \<le> round_val ?a" "round_val ?b \<le> ?b + 1 / 2 ^ 54"
        using round_val_near_unit [OF a] round_val_near_unit [OF b] by linarith+
      moreover have "(1 :: rat) / 2 ^ 53 = 2 * (1 / 2 ^ 54)" by simp
      ultimately show False using le rounding_gap by metis
    qed
  qed
  also have "\<dots> \<longleftrightarrow> p * n \<le> m * q"
    using n(1) q(1) by (simp add: divide_le_eq le_divide_eq mult.commute flip: of_nat_mult)
  finally show ?thesis .
qed

section \<open>The results of a run\<close>

definition request_outcome :: "storage_config \<Rightarrow> nat \<Rightarrow> request \<Rightarrow> request_result" where
  "request_outcome config k request =
     (let depth = min (of_nat (k + 1)) (max_queue_depth config);
          delay = dmul (of_size (unat (depth - 1))) (queue_penalty_us config)
      in \<lparr>res_id = rq_id request, queue_delay_us = delay,
          service_latency_us = service_latency config request,
          total_latency_us = dadd delay (service_latency config request), queue_depth = depth,
          res_cache_hit = rq_cache_hit request\<rparr>)"

lemma run_requests_eq:
  "run_requests config i rs vt ct results =
     results @ map (\<lambda>(k, r). request_outcome config k r) (zip [i..<i + length rs] rs)"
proof (induction config i rs vt ct results rule: run_requests.induct)
  case (2 config i r rest vt ct results)
  have "zip [i..<i + length (r # rest)] (r # rest) = (i, r) # zip [Suc i..<Suc i + length rest] rest"
    by (simp add: upt_conv_Cons del: upt_Suc)
  then show ?case using 2 by (simp add: Let_def request_outcome_def)
qed simp

lemma run_storage_eq:
  "run_storage config rs = map (\<lambda>(k, r). request_outcome config k r) (zip [0..<length rs] rs)"
  by (simp add: run_storage_def run_requests_eq)

lemma run_storage_length [simp]: "length (run_storage config rs) = length rs"
  by (simp add: run_storage_eq)

lemma run_storage_nth:
  "k < length rs \<Longrightarrow> run_storage config rs ! k = request_outcome config k (rs ! k)"
  by (simp add: run_storage_eq)

text \<open>
  In the configuration of \<open>main\<close> the latencies are numbers, so that \<open>percentile\<close> sorts samples that \<open><\<close> can compare:
  costs that are not negative add up to a cost that is not negative.
\<close>

definition cost :: "double \<Rightarrow> bool" where
  "cost x \<longleftrightarrow> x \<noteq> NaN \<and> Fin 0 \<le> x"

lemma cost_round: "0 \<le> r \<Longrightarrow> cost (round_double r)"
  using round_double_mono [of 0 r] round_double_exact [OF is_double_0] by (simp add: cost_def)

lemma cost_add: "cost x \<Longrightarrow> cost y \<Longrightarrow> cost (dadd x y)"
  using cost_round by (cases x; cases y) (auto simp: cost_def)

lemma cost_scaled: "cost x \<Longrightarrow> 0 < r \<Longrightarrow> cost (dmul x (Fin r))" "cost x \<Longrightarrow> 0 < r \<Longrightarrow> cost (ddiv x (Fin r))"
  using cost_round by (cases x; auto simp: cost_def)+

lemma cost_of_size: "cost (of_size n)"
  by (simp add: of_size_def cost_round)

lemma storage_samples_numbers:
  "r \<in> set (run_storage storage_cli_config rs) \<Longrightarrow> total_latency_us r \<noteq> NaN"
proof -
  assume "r \<in> set (run_storage storage_cli_config rs)"
  then obtain k q where r: "r = request_outcome storage_cli_config k q" by (auto simp: run_storage_eq)
  have base: "cost (Fin c)" if "0 \<le> c" for c using that by (simp add: cost_def)
  have "cost (service_latency storage_cli_config q)"
    unfolding service_latency_def Let_def
    by (auto simp: storage_cli_config_def intro!: cost_add cost_scaled cost_of_size base)
  then have "cost (total_latency_us r)"
    by (auto simp: r request_outcome_def Let_def storage_cli_config_def intro!: cost_add cost_scaled cost_of_size)
  then show "total_latency_us r \<noteq> NaN" by (simp add: cost_def)
qed

section \<open>Counting\<close>

lemma count_pressure_eq:
  "count_pressure rs m l =
     (m + length (filter (\<lambda>r. \<not> rq_cache_hit r) rs), l + length (filter (\<lambda>r. 16384 \<le> rq_size_bytes r) rs))"
  by (induction rs m l rule: count_pressure.induct) simp_all

lemma count_queued_eq:
  "count_queued config rs n = n + length (filter (\<lambda>r. max_queue_depth config \<le> queue_depth r) rs)"
  by (induction config rs n rule: count_queued.induct) simp_all

lemma length_filter_zip:
  "length ks = length rs \<Longrightarrow> length (filter (\<lambda>(k, r). P k) (zip ks rs)) = length (filter P ks)"
  by (induction ks rs rule: list_induct2) simp_all

lemma queued_in_run:
  assumes "length rs \<le> 2 ^ 50"
  shows "count_queued config (run_storage config rs) 0 = length rs - (unat (max_queue_depth config) - 1)"
proof -
  let ?d = "max_queue_depth config"
  have "max_queue_depth config \<le> queue_depth (request_outcome config k r) \<longleftrightarrow> unat ?d - 1 \<le> k"
    if "k < length rs" for k r
  proof -
    have "k + 1 < 2 ^ 64" using that assms by simp
    then have "unat (of_nat (k + 1) :: u64) = k + 1" by (simp only: unsigned_of_nat) (simp add: take_bit_nat_eq_self)
    then have "?d \<le> of_nat (k + 1) \<longleftrightarrow> unat ?d \<le> k + 1" by (simp only: word_le_nat_alt)
    then show ?thesis by (auto simp: request_outcome_def Let_def min_def)
  qed
  then have "filter (\<lambda>r. ?d \<le> queue_depth r) (run_storage config rs) =
      map (\<lambda>(k, r). request_outcome config k r) (filter (\<lambda>(k, r). unat ?d - 1 \<le> k) (zip [0..<length rs] rs))"
    unfolding run_storage_eq filter_map by (auto intro!: map_cong filter_cong simp: comp_def dest: set_zip_leftD)
  then have "count_queued config (run_storage config rs) 0 =
      length (filter (\<lambda>(k, r). unat ?d - 1 \<le> k) (zip [0..<length rs] rs))"
    by (simp add: count_queued_eq)
  also have "\<dots> = length (filter (\<lambda>k. unat ?d - 1 \<le> k) [0..<length rs])"
    by (rule length_filter_zip) simp
  also have "\<dots> = length rs - (unat ?d - 1)"
  proof -
    have "length (filter (\<lambda>k. c \<le> k) [0..<n]) = n - c" for c n :: nat
      by (induction n) auto
    then show ?thesis by simp
  qed
  finally show ?thesis .
qed

section \<open>Properties\<close>

lemma round_double_max_size: "round_double (of_nat (2 ^ 64 - 1)) = Fin (2 ^ 64)"
proof -
  let ?r = "of_nat (2 ^ 64 - 1) :: rat"
  have "binexp ?r = 63" by (rule binexp_unique) (simp_all add: power_int_def)
  then have u: "unit_exp ?r = 11" by (simp add: unit_exp_def)
  have q: "?r / 2 powi 11 = of_int (2 ^ 53 - 1) + (1 - 1 / 2048)" by (simp add: power_int_def)
  have "\<lfloor>?r / 2 powi 11\<rfloor> = 2 ^ 53 - 1" unfolding q by (simp add: floor_eq_iff)
  then have "round_even (?r / 2 powi 11) = 2 ^ 53" unfolding round_even_def Let_def q by simp
  then have "round_mag ?r = 2 ^ 64" unfolding round_mag_def Let_def u by (simp add: power_int_def)
  then have "round_val ?r = 2 ^ 64" by (simp add: round_val_def)
  then show ?thesis by (simp add: round_double_def Let_def)
qed

definition sample_request :: "u64 \<Rightarrow> request" where
  "sample_request i =
     \<lparr>rq_id = i, rq_operation = Read, rq_block = 0, rq_size_bytes = 512, rq_cache_hit = True\<rparr>"

text \<open>
  C38. A run gives one result per request, in order: the queue depth of the \<open>k\<close>-th is \<open>k + 1\<close>, at most
  the maximum, its delay one penalty per request ahead of it, and the total is the delay and
  the service time. With a maximum of zero the subtraction wraps and every request is delayed by
  \<open>2^64\<close> penalties.
\<close>

theorem storage_results:
  assumes "k < length requests" and "length requests \<le> 2 ^ 53"
  shows "length (run_storage config requests) = length requests \<and>
    (let r = run_storage config requests ! k; depth = unat (max_queue_depth config)
     in res_id r = rq_id (requests ! k) \<and> unat (queue_depth r) = min (k + 1) depth \<and>
        service_latency_us r = service_latency config (requests ! k) \<and>
        total_latency_us r = dadd (queue_delay_us r) (service_latency_us r) \<and>
        queue_delay_us r = dmul (Fin (if depth = 0 then 2 ^ 64 else of_nat (min k (depth - 1))))
          (queue_penalty_us config))"
proof -
  let ?d = "max_queue_depth config"
  have "k + 1 < 2 ^ 64" using assms by simp
  then have k: "unat (of_nat (k + 1) :: u64) = k + 1"
    by (simp only: unsigned_of_nat) (simp add: take_bit_nat_eq_self)
  have m: "unat (min (of_nat (k + 1)) ?d) = min (k + 1) (unat ?d)"
  proof -
    have "of_nat (k + 1) \<le> ?d \<longleftrightarrow> k + 1 \<le> unat ?d" by (simp only: word_le_nat_alt k)
    then show ?thesis using k by (simp only: min_def split: if_split) blast
  qed
  have s: "of_size (unat (min (of_nat (k + 1)) ?d - 1)) =
      Fin (if unat ?d = 0 then 2 ^ 64 else of_nat (min k (unat ?d - 1)))"
  proof (cases "unat ?d = 0")
    case True
    then have "?d = 0" by (simp add: unat_eq_zero)
    then have "unat (min (of_nat (k + 1)) ?d - 1) = 2 ^ 64 - 1" by (simp add: min_def unsigned_minus_1_eq_mask mask_eq_exp_minus_1)
    moreover have "round_double (of_nat (2 ^ 64 - 1)) = Fin (2 ^ 64)"
      by (simp only: round_double_max_size)
    ultimately show ?thesis using True by (simp only: of_size_def) simp
  next
    case False
    then have "unat (min (of_nat (k + 1)) ?d) \<noteq> 0" unfolding m by simp
    then have "min (of_nat (k + 1)) ?d \<noteq> 0" by (metis unsigned_0)
    then have "unat (min (of_nat (k + 1)) ?d - 1) = min (k + 1) (unat ?d) - 1"
      using unat_minus_one m by metis
    then have "unat (min (of_nat (k + 1)) ?d - 1) = min k (unat ?d - 1)" using False by simp
    then show ?thesis using False assms by (simp add: of_size_exact)
  qed
  show ?thesis
    using m s by (simp add: run_storage_nth [OF assms(1)] request_outcome_def Let_def)
qed

theorem storage_results_witness:
  "total_latency_us (run_storage default_storage [sample_request 1, sample_request 2] ! 1) =
   dadd (dmul (Fin 1) (Fin (3 / 2))) (service_latency default_storage (sample_request 2))"
  using storage_results [of 1 "[sample_request 1, sample_request 2]" default_storage]
  by (simp add: Let_def default_storage_def)

text \<open>The classification on exact fractions.\<close>

definition exact_bottleneck :: "nat \<Rightarrow> nat \<Rightarrow> nat \<Rightarrow> nat \<Rightarrow> string" where
  "exact_bottleneck n queued misses large =
     (if n = 0 then ''none''
      else if 2 * n \<le> 5 * queued then ''queue_depth_pressure''
      else if n \<le> 2 * misses then ''cache_miss_pressure''
      else if 2 * n \<le> 5 * large then ''memory_bandwidth_pressure''
      else ''balanced'')"

text \<open>
  C39. On the results of its own run the bottleneck is classified as by exact fractions, without rounding: the queue
  dominates as soon as two fifths of the requests found it full, and with a queue of depth \<open>d\<close> that is the case
  for all requests but the first \<open>d - 1\<close>, whatever they are.
\<close>

theorem storage_bottleneck:
  assumes "length requests \<le> 2 ^ 50"
  shows "bottleneck (summarize_storage config requests (run_storage config requests)) =
    exact_bottleneck (length requests) (length requests - (unat (max_queue_depth config) - 1))
      (length (filter (\<lambda>r. \<not> rq_cache_hit r) requests))
      (length (filter (\<lambda>r. 16384 \<le> rq_size_bytes r) requests))"
proof -
  let ?n = "length requests" and ?q = "length requests - (unat (max_queue_depth config) - 1)"
  let ?m = "length (filter (\<lambda>r. \<not> rq_cache_hit r) requests)"
  let ?l = "length (filter (\<lambda>r. 16384 \<le> rq_size_bytes r) requests)"
  have b: "bottleneck (summarize_storage config requests (run_storage config requests)) =
      classify_storage config requests (run_storage config requests)"
    by (simp add: summarize_storage_def split: prod.split)
  show ?thesis
  proof (cases "requests = []")
    case True
    then show ?thesis unfolding b by (simp add: classify_storage_def exact_bottleneck_def)
  next
    case False
    then have n: "0 < ?n" by simp
    have two_fifths: "dle (round_double (40 / 100)) (ddiv (of_size k) (of_size ?n)) \<longleftrightarrow> 2 * ?n \<le> 5 * k"
      if "k \<le> ?n" for k
      using ratio_at_least [OF n assms that, of 5 2] by (simp add: mult.commute)
    have half: "dle (round_double (50 / 100)) (ddiv (of_size ?m) (of_size ?n)) \<longleftrightarrow> ?n \<le> 2 * ?m"
      using ratio_at_least [OF n assms length_filter_le, of 2 1] by (simp add: mult.commute)
    define q where "q = ?q"
    have "q \<le> ?n" by (simp add: q_def)
    then show ?thesis
      unfolding b classify_storage_def count_pressure_eq queued_in_run [OF assms] Let_def exact_bottleneck_def
        q_def [symmetric]
      using False two_fifths [of q] two_fifths [of ?l] half by (simp add: length_filter_le)
  qed
qed

theorem storage_bottleneck_witness:
  "bottleneck (summarize_storage default_storage (replicate 12 (sample_request 1))
     (run_storage default_storage (replicate 12 (sample_request 1)))) = ''queue_depth_pressure''"
  using storage_bottleneck [of "replicate 12 (sample_request 1)" default_storage]
  by (simp add: default_storage_def exact_bottleneck_def)

section \<open>The program on a printed file\<close>

text \<open>
  C40. Round trip through the program: a list of requests, printed in the format of the file, loads as itself, and the
  program exits with 0 and prints the summary of the run of these requests. A row that does not parse, after any
  number of good ones, makes it exit with 1 and the message of that row, whatever follows.
\<close>

theorem storage_main_printed:
  assumes "\<forall>l \<in> set (bad # rest). CHR 0x0A \<notin> set l" and "bad \<noteq> []" and "parse_request bad = Inl e"
  shows "(files path = Some (csv_file (request_header # map request_row rs)) \<longrightarrow>
      parse_storage_csv path (files path) = Inr rs \<and>
      storage_main files [path] =
        exits 0 (print_storage_summary (summarize_storage storage_cli_config rs (run_storage storage_cli_config rs))) []) \<and>
    (files path = Some (csv_file (request_header # map request_row rs @ bad # rest)) \<longrightarrow>
      storage_main files [path] = exits 1 [] (''storage datapath simulation failed: '' @ text_line (what e)))"
proof -
  have fold: "fold (\<lambda>r rs. rs @ [r]) qs s = s @ qs" for qs s :: "request list"
    by (induction qs arbitrary: s) simp_all
  have header: "take 3 request_header = ''id,''" "CHR 0x0A \<notin> set request_header"
    by (simp_all add: request_header_def)
  have "parse_storage_csv path (files path) = Inr rs"
    if "files path = Some (csv_file (request_header # map request_row rs))"
    using requests_csv.read_printed [OF _ header, of rs "[]"] by (simp add: that parse_storage_csv_def fold)
  moreover have "parse_storage_csv path (files path) = Inl e"
    if "files path = Some (csv_file (request_header # map request_row rs @ bad # rest))"
    using requests_csv.read_error [OF _ header(1) _ assms(2), of rs rest "[]" e] assms(1,3) header(2)
    by (simp add: that parse_storage_csv_def)
  ultimately show ?thesis by (auto simp: storage_main_def Let_def)
qed

theorem storage_main_printed_witness:
  "parse_storage_csv ''w.csv'' (Some (csv_file [request_header, request_row (sample_request 1)])) =
     Inr [sample_request 1] \<and>
   storage_main (\<lambda>_. Some (csv_file [request_header, request_row (sample_request 1), '',read''])) [''w.csv''] =
     exits 1 [] (''storage datapath simulation failed: '' @ text_line ''stoull'')"
proof -
  have bad: "parse_request '',read'' = Inl (Invalid_argument ''stoull'')" by code_simp
  have line: "\<forall>l \<in> set ['',read'']. CHR 0x0A \<notin> set l" "'',read'' \<noteq> []" by simp_all
  show ?thesis
    using storage_main_printed [OF line bad, of "\<lambda>_. Some (csv_file [request_header, request_row (sample_request 1)])"
        "''w.csv''" "[sample_request 1]"]
      storage_main_printed [OF line bad, of "\<lambda>_. Some (csv_file [request_header, request_row (sample_request 1), '',read''])"
        "''w.csv''" "[sample_request 1]"]
    by simp
qed

end
