(* ===== verification/Reports.thy ===== *)
theory Reports
  imports Cycle_Simulator Cpp_Program
begin

text \<open>
  What is reported of a run: the averages of \<open>include/accelsim/model/stats.hpp\<close> and the text of
  \<open>src/simulator.cpp\<close>: \<open>summarize\<close>, \<open>compare_runs\<close> and \<open>write_report\<close>, the latter as the list of
  the files it writes. Directories are assumed to be created and files to open. The last section reads the CSV
  files back.
\<close>

section \<open>Averages\<close>

definition throughput :: "stats \<Rightarrow> double" where
  "throughput st =
     (if total_cycles st = 0 then Fin 0
      else ddiv (of_size (unat (completed_ops st))) (of_size (unat (total_cycles st))))"

definition average_latency :: "stats \<Rightarrow> double" where
  "average_latency st =
     (if completed_ops st = 0 then Fin 0
      else ddiv (of_size (unat (total_latency st))) (of_size (unat (completed_ops st))))"

section \<open>Text\<close>

definition format_double :: "double \<Rightarrow> string" where
  "format_double value = format_fixed 4 value"

definition json_key_value :: "string \<times> u64 \<Rightarrow> string" where
  "json_key_value = (\<lambda>(key, value). quote_mark @ key @ quote_mark @ '':'' @ to_string_u64 value)"

fun json_entries :: "bool \<Rightarrow> (string, u64) omap \<Rightarrow> string" where
  "json_entries first [] = []"
| "json_entries first (entry # rest) =
     (if first then [] else '','') @ json_key_value entry @ json_entries False rest"

definition map_to_json :: "(string, u64) omap \<Rightarrow> string" where
  "map_to_json values = ''{'' @ json_entries True values @ ''}''"

definition map_lines :: "string \<Rightarrow> (string, u64) omap \<Rightarrow> string" where
  "map_lines sep values = concat (map (\<lambda>(key, value). text_line (key @ sep @ to_string_u64 value)) values)"

definition map_csv :: "string \<Rightarrow> string \<Rightarrow> (string, u64) omap \<Rightarrow> string" where
  "map_csv header_a header_b values = text_line (header_a @ '','' @ header_b) @ map_lines '','' values"

definition summarize_run :: "run_result \<Rightarrow> string" where
  "summarize_run r =
     (let st = result_stats r
      in text_line (''workload='' @ workload_name (result_config r)) @
         text_line (''total_cycles='' @ to_string_u64 (total_cycles st)) @
         text_line (''completed_ops='' @ to_string_u64 (completed_ops st)) @
         text_line (''throughput='' @ format_double (throughput st)) @
         text_line (''average_latency='' @ format_double (average_latency st)) @
         text_line (''top_bottleneck='' @ top_bottleneck st) @
         text_line [] @ text_line ''[stage_busy_cycles]'' @ map_lines ''='' (stage_busy_cycles st) @
         text_line [] @ text_line ''[stall_counts]'' @ map_lines ''='' (stall_counts st) @
         text_line [] @ text_line ''[max_queue_occupancy]'' @ map_lines ''='' (max_queue_occupancy st))"

text \<open>The difference of two counters as \<open>long long\<close>; an overflow of the subtraction is not modelled.\<close>

definition delta_i64 :: "u64 \<Rightarrow> u64 \<Rightarrow> int" where
  "delta_i64 a b = sint b - sint a"

definition to_string_int :: "int \<Rightarrow> string" where
  "to_string_int i = (if i < 0 then ''-'' else []) @ dec_string (nat \<bar>i\<bar>)"

definition compare_runs :: "run_result \<Rightarrow> run_result \<Rightarrow> string" where
  "compare_runs left right =
     (let ls = result_stats left; rs = result_stats right
      in text_line (''left='' @ workload_name (result_config left)) @
         text_line (''right='' @ workload_name (result_config right)) @
         text_line (''cycles_delta='' @ to_string_int (delta_i64 (total_cycles ls) (total_cycles rs))) @
         text_line (''throughput_delta='' @ format_double (dsub (throughput rs) (throughput ls))) @
         text_line (''avg_latency_delta='' @ format_double (dsub (average_latency rs) (average_latency ls))) @
         text_line (''left_top_bottleneck='' @ top_bottleneck ls) @
         text_line (''right_top_bottleneck='' @ top_bottleneck rs))"

section \<open>The report\<close>

definition join_path :: "string \<Rightarrow> string \<Rightarrow> string" where
  "join_path dir name = dir @ ''/'' @ name"

definition report_entry :: "string \<Rightarrow> string \<Rightarrow> string \<Rightarrow> string" where
  "report_entry key value tail = text_line (''  '' @ quote_mark @ key @ quote_mark @ '':'' @ value @ tail)"

definition quoted :: "string \<Rightarrow> string" where
  "quoted s = quote_mark @ s @ quote_mark"

definition summary_json :: "run_result \<Rightarrow> string" where
  "summary_json r =
     (let st = result_stats r
      in text_line ''{'' @
         report_entry ''workload'' (quoted (workload_name (result_config r))) '','' @
         report_entry ''total_cycles'' (to_string_u64 (total_cycles st)) '','' @
         report_entry ''completed_ops'' (to_string_u64 (completed_ops st)) '','' @
         report_entry ''throughput'' (format_double (throughput st)) '','' @
         report_entry ''average_latency'' (format_double (average_latency st)) '','' @
         report_entry ''top_bottleneck'' (quoted (top_bottleneck st)) '','' @
         report_entry ''stage_busy_cycles'' (map_to_json (stage_busy_cycles st)) '','' @
         report_entry ''stall_counts'' (map_to_json (stall_counts st)) '','' @
         report_entry ''max_queue_occupancy'' (map_to_json (max_queue_occupancy st)) [] @
         text_line ''}'')"

definition trace_row :: "instruction \<Rightarrow> string" where
  "trace_row i =
     text_line (to_string_u64 (instr_id i) @ '','' @ op_to_string (instr_type i) @ '','' @
       to_string_u64 (enqueue_cycle i) @ '','' @ to_string_u64 (issue_cycle i) @ '','' @
       to_string_u64 (complete_cycle i))"

definition trace_csv :: "instruction list \<Rightarrow> string" where
  "trace_csv instructions =
     text_line ''id,op_type,enqueue_cycle,issue_cycle,complete_cycle'' @ concat (map trace_row instructions)"

definition write_report :: "run_result \<Rightarrow> string \<Rightarrow> (string \<times> string) list" where
  "write_report r out_dir =
     (let st = result_stats r
      in [(join_path out_dir ''summary.txt'', summarize_run r),
          (join_path out_dir ''summary.json'', summary_json r),
          (join_path out_dir ''utilization.csv'', map_csv ''stage'' ''busy_cycles'' (stage_busy_cycles st)),
          (join_path out_dir ''stalls.csv'', map_csv ''stall_reason'' ''count'' (stall_counts st)),
          (join_path out_dir ''queue_occupancy.csv'', map_csv ''queue'' ''max_occupancy'' (max_queue_occupancy st)),
          (join_path out_dir ''completed_trace.csv'', trace_csv (result_instructions r))])"

section \<open>Reading a report back\<close>

text \<open>The rows of a CSV file below its header.\<close>

definition csv_rows :: "string \<Rightarrow> string list list" where
  "csv_rows s = map (getline_all (CHR '','')) (tl (getline_all (CHR 0x0A) s))"

definition plain :: "string \<Rightarrow> bool" where
  "plain s \<longleftrightarrow> CHR '','' \<notin> set s \<and> CHR 0x0A \<notin> set s"

lemma digits_plain [simp]: "plain (dec_string n)"
proof -
  have "c \<noteq> CHR '','' \<and> c \<noteq> CHR 0x0A" if "is_digit c" for c
    using that by (auto simp: is_digit_def Let_def)
  then show ?thesis using dec_string_digits [of n] by (auto simp: plain_def)
qed

lemma to_string_plain [simp]: "plain (to_string_u64 w)" "to_string_u64 w \<noteq> []"
  by (simp_all add: to_string_u64_def)

lemma op_plain [simp]: "plain (op_to_string op)" "op_to_string op \<noteq> []"
  by (cases op; simp add: op_to_string_def plain_def)+

lemma getline_lines:
  "\<forall>l \<in> set ls. CHR 0x0A \<notin> set l \<Longrightarrow> getline_all (CHR 0x0A) (concat (map text_line ls)) = ls"
  by (induction ls) (simp_all add: text_line_def newline_def getline_all_append)

fun join_fields :: "string list \<Rightarrow> string" where
  "join_fields [] = []"
| "join_fields [f] = f"
| "join_fields (f # g # fs) = f @ '','' @ join_fields (g # fs)"

lemma getline_fields:
  "\<forall>f \<in> set fs. plain f \<Longrightarrow> last fs \<noteq> [] \<Longrightarrow> fs \<noteq> [] \<Longrightarrow> getline_all (CHR '','') (join_fields fs) = fs"
  by (induction fs rule: join_fields.induct)
    (simp_all add: plain_def getline_all_single getline_all_append)

lemma join_no_newline: "\<forall>f \<in> set fs. plain f \<Longrightarrow> CHR 0x0A \<notin> set (join_fields fs)"
  by (induction fs rule: join_fields.induct) (auto simp: plain_def)

lemma csv_rows_eq:
  assumes "CHR 0x0A \<notin> set header" and "\<forall>fs \<in> set rows. (\<forall>f \<in> set fs. plain f) \<and> fs \<noteq> [] \<and> last fs \<noteq> []"
  shows "csv_rows (text_line header @ concat (map (\<lambda>fs. text_line (join_fields fs)) rows)) = rows"
proof -
  have "text_line header @ concat (map (\<lambda>fs. text_line (join_fields fs)) rows) =
      concat (map text_line (header # map join_fields rows))" by (simp add: comp_def)
  moreover have "\<forall>l \<in> set (header # map join_fields rows). CHR 0x0A \<notin> set l"
    using assms join_no_newline by auto
  ultimately have "csv_rows (text_line header @ concat (map (\<lambda>fs. text_line (join_fields fs)) rows)) =
      map (getline_all (CHR '','')) (map join_fields rows)"
    unfolding csv_rows_def by (simp only: getline_lines) simp
  also have "\<dots> = rows" using assms(2) getline_fields by (simp add: map_idI)
  finally show ?thesis .
qed

lemma map_csv_rows:
  assumes "plain a" and "plain b" and "\<forall>k \<in> set (map fst m). plain k"
  shows "csv_rows (map_csv a b m) = map (\<lambda>(k, v). [k, to_string_u64 v]) m"
proof -
  have "map_lines '','' m = concat (map (\<lambda>fs. text_line (join_fields fs)) (map (\<lambda>(k, v). [k, to_string_u64 v]) m))"
    by (auto simp: map_lines_def comp_def intro!: arg_cong [where f = concat])
  moreover have "CHR 0x0A \<notin> set (a @ '','' @ b)" using assms(1,2) by (simp add: plain_def)
  moreover have "\<forall>fs \<in> set (map (\<lambda>(k, v). [k, to_string_u64 v]) m). (\<forall>f \<in> set fs. plain f) \<and> fs \<noteq> [] \<and> last fs \<noteq> []"
    using assms(3) by auto
  ultimately show ?thesis
    unfolding map_csv_def using csv_rows_eq [of "a @ '','' @ b" "map (\<lambda>(k, v). [k, to_string_u64 v]) m"] by metis
qed

definition trace_fields :: "instruction \<Rightarrow> string list" where
  "trace_fields i =
     [to_string_u64 (instr_id i), op_to_string (instr_type i), to_string_u64 (enqueue_cycle i),
      to_string_u64 (issue_cycle i), to_string_u64 (complete_cycle i)]"

lemma trace_csv_rows: "csv_rows (trace_csv is) = map trace_fields is"
proof -
  have "trace_csv is = text_line ''id,op_type,enqueue_cycle,issue_cycle,complete_cycle'' @
      concat (map (\<lambda>fs. text_line (join_fields fs)) (map trace_fields is))"
    by (auto simp: trace_csv_def trace_row_def trace_fields_def comp_def intro!: arg_cong [where f = concat])
  then show ?thesis
    using csv_rows_eq [of "''id,op_type,enqueue_cycle,issue_cycle,complete_cycle''" "map trace_fields is"]
    by (simp add: trace_fields_def)
qed

end
