(* ===== verification/Accelsim_Cli.thy ===== *)
theory Accelsim_Cli
  imports Reports Workload_Parser
begin

text \<open>
  The command line of the simulator, \<open>tools/accelsim_cli.cpp\<close>. \<open>accelsim_main\<close> is \<open>None\<close> when a run
  does not return. \<open>files\<close> gives the contents of the files that exist, \<open>stamp\<close> the local time
  as \<open>benchmark_stamp\<close> formats it; an exception reports on the standard error and keeps what was written before it.
\<close>

section \<open>Flags\<close>

definition usage :: string where
  "usage =
     text_line ''usage:'' @
     text_line (''  accelsim-lite run <workload.csv> [--compute-units N] [--memory-ports N] '' @
       ''[--dispatch-queue N] [--ready-queue N]'') @
     text_line (''  accelsim-lite compare <left.csv> <right.csv> [--compute-units N] [--memory-ports N] '' @
       ''[--dispatch-queue N] [--ready-queue N]'') @
     text_line ''  accelsim-lite benchmark all'' @
     text_line ''  accelsim-lite report latest''"

definition apply_flag :: "simulator_config \<Rightarrow> string \<Rightarrow> string \<Rightarrow> simulator_config result" where
  "apply_flag config key value =
     bind_result (stoul value) (\<lambda>v.
       let parsed = (ucast v :: u32) in
       if key = ''--compute-units'' then Inr (config\<lparr>compute_units := parsed\<rparr>)
       else if key = ''--memory-ports'' then Inr (config\<lparr>memory_ports := parsed\<rparr>)
       else if key = ''--dispatch-queue'' then Inr (config\<lparr>dispatch_queue_capacity := parsed\<rparr>)
       else if key = ''--ready-queue'' then Inr (config\<lparr>ready_queue_capacity := parsed\<rparr>)
       else Inl (Runtime_error (''unknown flag: '' @ key)))"

fun parse_optional_flags :: "simulator_config \<Rightarrow> string list \<Rightarrow> simulator_config result" where
  "parse_optional_flags config [] = Inr config"
| "parse_optional_flags config [key] = Inl (Runtime_error (''missing value for flag: '' @ key))"
| "parse_optional_flags config (key # value # rest) =
     bind_result (apply_flag config key value) (\<lambda>config. parse_optional_flags config rest)"

section \<open>Commands\<close>

text \<open>A workload loaded and run: \<open>None\<close> when the run does not return.\<close>

definition load_and_run ::
  "(string \<Rightarrow> string option) \<Rightarrow> simulator_config \<Rightarrow> string \<Rightarrow> run_result result option" where
  "load_and_run files config path =
     (case load_workload_csv path (files path) (Some config) of
        (c, Inl e) \<Rightarrow> Some (Inl e)
      | (None, Inr w) \<Rightarrow> run_workload w config
      | (Some config, Inr w) \<Rightarrow> run_workload w config)"

definition failed :: "string \<Rightarrow> (string \<times> string) list \<Rightarrow> cpp_exception \<Rightarrow> outcome" where
  "failed out written e =
     \<lparr>exit_code = 1, std_out = out, std_err = ''error: '' @ text_line (what e), files_written = written\<rparr>"

definition succeeded :: "string \<Rightarrow> (string \<times> string) list \<Rightarrow> outcome" where
  "succeeded out written = \<lparr>exit_code = 0, std_out = out, std_err = [], files_written = written\<rparr>"

definition main_run :: "(string \<Rightarrow> string option) \<Rightarrow> string list \<Rightarrow> outcome option" where
  "main_run files args =
     (case args of
        [] \<Rightarrow> Some (exits 1 [] usage)
      | workload_path # flags \<Rightarrow>
          (case parse_optional_flags default_config flags of
             Inl e \<Rightarrow> Some (failed [] [] e)
           | Inr config \<Rightarrow>
               (case load_and_run files config workload_path of
                  None \<Rightarrow> None
                | Some (Inl e) \<Rightarrow> Some (failed [] [] e)
                | Some (Inr r) \<Rightarrow> Some (succeeded (summarize_run r) (write_report r ''reports/latest'')))))"

text \<open>Both workloads are loaded before either is run.\<close>

definition main_compare :: "(string \<Rightarrow> string option) \<Rightarrow> string list \<Rightarrow> outcome option" where
  "main_compare files args =
     (case args of
        left_path # right_path # flags \<Rightarrow>
          (case parse_optional_flags default_config flags of
             Inl e \<Rightarrow> Some (failed [] [] e)
           | Inr config \<Rightarrow>
               (case (load_workload_csv left_path (files left_path) (Some config),
                      load_workload_csv right_path (files right_path) (Some config)) of
                  ((_, Inl e), _) \<Rightarrow> Some (failed [] [] e)
                | ((_, Inr _), (_, Inl e)) \<Rightarrow> Some (failed [] [] e)
                | ((left_config, Inr left_workload), (right_config, Inr right_workload)) \<Rightarrow>
                    (case run_workload left_workload (case left_config of Some c \<Rightarrow> c | None \<Rightarrow> config) of
                       None \<Rightarrow> None
                     | Some (Inl e) \<Rightarrow> Some (failed [] [] e)
                     | Some (Inr l) \<Rightarrow>
                         (case run_workload right_workload (case right_config of Some c \<Rightarrow> c | None \<Rightarrow> config) of
                            None \<Rightarrow> None
                          | Some (Inl e) \<Rightarrow> Some (failed [] [] e)
                          | Some (Inr r) \<Rightarrow>
                              Some (succeeded (compare_runs l r)
                                (write_report l ''reports/latest/left'' @ write_report r ''reports/latest/right'' @
                                 [(''reports/latest/compare.txt'', compare_runs l r)]))))))
      | _ \<Rightarrow> Some (exits 1 [] usage))"

definition benchmark_workloads :: "string list" where
  "benchmark_workloads =
     [''workloads/compute_heavy.csv'', ''workloads/memory_heavy.csv'', ''workloads/queue_pressure.csv'',
      ''workloads/mixed.csv'']"

definition benchmark_row :: "run_result \<Rightarrow> string" where
  "benchmark_row r =
     text_line (workload_name (result_config r) @ '' cycles='' @ to_string_u64 (total_cycles (result_stats r)) @
       '' throughput='' @ format_general (throughput (result_stats r)) @
       '' top_bottleneck='' @ top_bottleneck (result_stats r))"

fun benchmark_all ::
  "(string \<Rightarrow> string option) \<Rightarrow> string \<Rightarrow> string list \<Rightarrow> string \<Rightarrow> (string \<times> string) list \<Rightarrow> outcome option" where
  "benchmark_all files out_root [] out written = Some (succeeded out written)"
| "benchmark_all files out_root (path # rest) out written =
     (if files path = None then benchmark_all files out_root rest out written
      else
        (case load_and_run files default_config path of
           None \<Rightarrow> None
         | Some (Inl e) \<Rightarrow> Some (failed out written e)
         | Some (Inr r) \<Rightarrow>
             benchmark_all files out_root rest (out @ benchmark_row r)
               (written @ write_report r (join_path out_root (workload_name (result_config r))))))"

text \<open>
  \<open>benchmark_stamp\<close>, on the broken-down local time: \<open>tm_year\<close> counts from 1900, \<open>tm_mon\<close> from 0. The text has
  fifteen characters for a year of four digits, which fit the buffer.
\<close>

record tm =
  tm_year :: nat
  tm_mon :: nat
  tm_mday :: nat
  tm_hour :: nat
  tm_min :: nat
  tm_sec :: nat

definition two_digits :: "nat \<Rightarrow> string" where
  "two_digits n = (if n < 10 then CHR ''0'' # dec_string n else dec_string n)"

definition benchmark_stamp :: "tm \<Rightarrow> string" where
  "benchmark_stamp t =
     dec_string (tm_year t + 1900) @ two_digits (tm_mon t + 1) @ two_digits (tm_mday t) @ ''_'' @
     two_digits (tm_hour t) @ two_digits (tm_min t) @ two_digits (tm_sec t)"

definition main_report :: "(string \<Rightarrow> string option) \<Rightarrow> outcome" where
  "main_report files =
     (case files ''reports/latest/summary.txt'' of
        None \<Rightarrow> failed [] [] (Runtime_error ''reports/latest/summary.txt not found'')
      | Some s \<Rightarrow> succeeded s [])"

definition accelsim_main :: "string \<Rightarrow> (string \<Rightarrow> string option) \<Rightarrow> string list \<Rightarrow> outcome option" where
  "accelsim_main stamp files args =
     (case args of
        [] \<Rightarrow> Some (exits 1 [] usage)
      | command # rest \<Rightarrow>
          if command = ''run'' then main_run files rest
          else if command = ''compare'' then main_compare files rest
          else if command = ''benchmark'' \<and> rest \<noteq> [] \<and> hd rest = ''all''
          then benchmark_all files (join_path ''reports/benchmarks'' stamp) benchmark_workloads [] []
          else if command = ''report'' \<and> rest \<noteq> [] \<and> hd rest = ''latest'' then Some (main_report files)
          else Some (exits 1 [] usage))"

section \<open>The names of the reports\<close>

lemma two_digits_val: "digits_val (two_digits n) = n"
proof (cases "n < 10")
  case True
  have "digit_val (CHR ''0'') = 0" by (simp add: digit_val_def)
  then show ?thesis using True by (simp add: two_digits_def dec_string.simps digits_val_def)
qed (simp add: two_digits_def)

lemma dec_string_inj: "dec_string m = dec_string n \<Longrightarrow> m = n"
  using digits_val_dec_string by metis

lemma length_two_digits: "n < 100 \<Longrightarrow> length (two_digits n) = 2"
  by (auto simp: two_digits_def dec_string.simps)

lemma two_digits_inj: "two_digits m = two_digits n \<Longrightarrow> m = n"
  using two_digits_val by metis

lemma length_year: "1000 \<le> n \<Longrightarrow> n < 10000 \<Longrightarrow> length (dec_string n) = 4"
proof -
  assume n: "1000 \<le> n" "n < 10000"
  have "\<not> n < 10" "\<not> n div 10 < 10" "\<not> n div 10 div 10 < 10" "n div 10 div 10 div 10 < 10" using n by linarith+
  then show ?thesis by (subst dec_string.simps, subst dec_string.simps, subst dec_string.simps, subst dec_string.simps) simp
qed

text \<open>Two runs of \<open>benchmark all\<close> that start in different seconds do not write to the same directory.\<close>

definition tm_ok :: "tm \<Rightarrow> bool" where
  "tm_ok t \<longleftrightarrow> tm_year t + 1900 < 10000 \<and> tm_mon t < 12 \<and> tm_mday t \<le> 31 \<and> tm_hour t < 24 \<and> tm_min t < 60 \<and>
     tm_sec t \<le> 60"

lemma benchmark_stamp_inj:
  assumes "tm_ok t" and "tm_ok u" and "benchmark_stamp t = benchmark_stamp u"
  shows "t = u"
proof -
  have y: "length (dec_string (tm_year v + 1900)) = 4" if "tm_ok v" for v
    using that by (intro length_year) (simp_all add: tm_ok_def)
  have d: "length (two_digits (tm_mon v + 1)) = 2" "length (two_digits (tm_mday v)) = 2"
    "length (two_digits (tm_hour v)) = 2" "length (two_digits (tm_min v)) = 2" "length (two_digits (tm_sec v)) = 2"
    if "tm_ok v" for v
    using that by (simp_all add: length_two_digits tm_ok_def)
  have "dec_string (tm_year t + 1900) = dec_string (tm_year u + 1900)"
    "two_digits (tm_mon t + 1) = two_digits (tm_mon u + 1)" "two_digits (tm_mday t) = two_digits (tm_mday u)"
    "two_digits (tm_hour t) = two_digits (tm_hour u)" "two_digits (tm_min t) = two_digits (tm_min u)"
    "two_digits (tm_sec t) = two_digits (tm_sec u)"
    using assms(3) y [OF assms(1)] y [OF assms(2)] d [OF assms(1)] d [OF assms(2)]
    by (simp_all add: benchmark_stamp_def)
  then have "tm_year t + 1900 = tm_year u + 1900" "tm_mon t + 1 = tm_mon u + 1" "tm_mday t = tm_mday u"
    "tm_hour t = tm_hour u" "tm_min t = tm_min u" "tm_sec t = tm_sec u"
    using two_digits_inj dec_string_inj by blast+
  then show ?thesis by (cases t; cases u) simp
qed

end
