(* ===== verification/Report_Properties.thy ===== *)
theory Report_Properties
  imports Accelsim_Cli Workload_Properties
begin

text \<open>
  The properties of the reports and of the simulator's command line: the throughput is bounded by
  the issue width, the CSV files of a report read back as the run, and \<open>accelsim-lite run\<close> from the
  arguments and the file to the exit status.
\<close>

section \<open>Averages\<close>

text \<open>
  C16. The throughput that is reported of a returned run is a number between zero and the issue
  width, for workloads of fewer than $2^{53}$ cycles: the rounding of the quotient does not exceed the bound.
\<close>

theorem throughput_bounded:
  assumes "run_workload w config = Some (Inr r)"
    and "(\<Sum>i\<leftarrow>w. 7 + unat (execute_latency i)) \<le> 2 ^ 53"
  shows "dle (Fin 0) (throughput (result_stats r)) \<and>
    dle (throughput (result_stats r)) (of_size (unat (issue_width config)))"
proof -
  let ?st = "result_stats r"
  obtain iw where iw: "unat (issue_width config) = iw" by blast
  have lt: "(\<Sum>i\<leftarrow>w. 7 + unat (execute_latency i)) < 2 ^ 64" using assms(2) by simp
  obtain tc where tc: "unat (total_cycles ?st) = tc" by blast
  have m: "unat (completed_ops ?st) = length w" and c: "tc \<le> 2 ^ 53" and n: "length w \<le> 2 ^ 53"
    using run_counts [OF assms(1) lt] assms(2) by (simp_all add: tc)
  have b: "length w \<le> tc * iw" using run_issue_bound [OF assms(1) lt] by (simp only: iw tc)
  have "unat (issue_width config) < 2 ^ 32" using unsigned_less [of "issue_width config"] by simp
  then have w53: "iw \<le> 2 ^ 53" by (simp add: iw)
  have w: "of_size iw = Fin (of_nat iw)" "round_double (of_nat iw) = Fin (of_nat iw)"
    using w53 by (simp_all add: of_size_def round_double_exact is_double_nat)
  show ?thesis
  proof (cases "total_cycles ?st = 0")
    case True
    then show ?thesis by (simp add: throughput_def dle_def w iw)
  next
    case False
    then have pos: "0 < tc" by (simp add: tc [symmetric] unat_gt_0)
    let ?q = "of_nat (length w) / of_nat tc :: rat"
    have t: "throughput ?st = round_double ?q"
      using False ddiv_exact [OF n c pos] by (simp add: throughput_def m tc)
    have "of_nat (length w) \<le> (of_nat (tc * iw) :: rat)" using b by (rule of_nat_mono)
    then have "?q \<le> of_nat iw" using pos by (simp add: divide_le_eq mult.commute)
    then have hi: "throughput ?st \<le> Fin (of_nat iw)" using round_double_mono [of ?q "of_nat iw"] t w by simp
    have lo: "Fin 0 \<le> throughput ?st"
      using round_double_mono [of 0 ?q] round_double_exact [OF is_double_0] t by simp
    show ?thesis using lo hi t w by (simp add: dle_def iw)
  qed
qed

theorem throughput_bounded_witness:
  "\<exists>r. run_workload chain_workload default_config = Some (Inr r) \<and>
     dle (throughput (result_stats r)) (of_size 2)"
proof -
  obtain r where r: "run_workload chain_workload default_config = Some (Inr r)" by (rule chain_returns)
  have "(\<Sum>i\<leftarrow>chain_workload. 7 + unat (execute_latency i)) \<le> 2 ^ 53"
    using chain_fuel by (simp add: run_fuel_def)
  from throughput_bounded [OF r this] r show ?thesis by (auto simp: default_config_def)
qed

section \<open>The report\<close>

definition plain_stats :: "stats \<Rightarrow> bool" where
  "plain_stats st \<longleftrightarrow> (\<forall>k \<in> set (map fst (stage_busy_cycles st) @ map fst (stall_counts st) @
     map fst (max_queue_occupancy st)). plain k)"

definition read_counters :: "string \<Rightarrow> (string \<times> u64 result) list" where
  "read_counters s = map (\<lambda>row. (row ! 0, stoull (row ! 1))) (csv_rows s)"

definition read_trace ::
  "string \<Rightarrow> (u64 result \<times> op_type result \<times> u64 result \<times> u64 result \<times> u64 result) list" where
  "read_trace s =
     map (\<lambda>row. (stoull (row ! 0), parse_op_type (row ! 1), stoull (row ! 2), stoull (row ! 3), stoull (row ! 4)))
       (csv_rows s)"

lemma read_counters_csv:
  assumes "plain a" and "plain b" and "\<forall>k \<in> set (map fst m). plain k"
  shows "read_counters (map_csv a b m) = map (\<lambda>(k, v). (k, Inr v)) m"
  by (auto simp: read_counters_def map_csv_rows [OF assms] stoull_def)

lemma read_trace_csv:
  "read_trace (trace_csv is) =
     map (\<lambda>i. (Inr (instr_id i), Inr (instr_type i), Inr (enqueue_cycle i), Inr (issue_cycle i),
       Inr (complete_cycle i))) is"
  by (simp add: read_trace_def trace_csv_rows trace_fields_def stoull_def)

lemma plain_headers:
  "plain ''stage''" "plain ''busy_cycles''" "plain ''stall_reason''" "plain ''count''" "plain ''queue''"
  "plain ''max_occupancy''"
  by (simp_all add: plain_def)

text \<open>
  C17. The CSV files of a report, read back below their headers, are the counters of the statistics in
  the order of their keys (when no key has a comma or a line break) and the instructions of the result in
  order, with id, type and the three cycles.
\<close>

theorem report_reads_back:
  assumes "plain_stats (result_stats r)"
  shows "map_option read_counters (map_of (write_report r dir) (join_path dir ''utilization.csv'')) =
      Some (map (\<lambda>(k, v). (k, Inr v)) (stage_busy_cycles (result_stats r))) \<and>
    map_option read_counters (map_of (write_report r dir) (join_path dir ''stalls.csv'')) =
      Some (map (\<lambda>(k, v). (k, Inr v)) (stall_counts (result_stats r))) \<and>
    map_option read_counters (map_of (write_report r dir) (join_path dir ''queue_occupancy.csv'')) =
      Some (map (\<lambda>(k, v). (k, Inr v)) (max_queue_occupancy (result_stats r))) \<and>
    map_option read_trace (map_of (write_report r dir) (join_path dir ''completed_trace.csv'')) =
      Some (map (\<lambda>i. (Inr (instr_id i), Inr (instr_type i), Inr (enqueue_cycle i), Inr (issue_cycle i),
        Inr (complete_cycle i))) (result_instructions r))"
proof -
  have "\<forall>k \<in> set (map fst (stage_busy_cycles (result_stats r))). plain k"
    "\<forall>k \<in> set (map fst (stall_counts (result_stats r))). plain k"
    "\<forall>k \<in> set (map fst (max_queue_occupancy (result_stats r))). plain k"
    using assms by (auto simp: plain_stats_def)
  note csv = read_counters_csv [OF plain_headers(1,2) this(1)] read_counters_csv [OF plain_headers(3,4) this(2)]
    read_counters_csv [OF plain_headers(5,6) this(3)]
  show ?thesis by (simp add: write_report_def Let_def join_path_def csv read_trace_csv)
qed

theorem report_reads_back_witness:
  "plain_stats (result_stats (finish_run default_config (initial_state chain_workload))) \<and>
   map_option read_counters (map_of (write_report (finish_run default_config (initial_state chain_workload)) ''out'')
     (join_path ''out'' ''stalls.csv'')) =
   Some [(''DispatchQueueFull'', Inr 0), (''NoComputeUnit'', Inr 0), (''NoMemoryPort'', Inr 0),
     (''ReadyQueueFull'', Inr 0), (''WaitingDependency'', Inr 0)]"
proof -
  let ?r = "finish_run default_config (initial_state chain_workload)"
  have st: "stall_counts (result_stats ?r) =
      [(''DispatchQueueFull'', 0), (''NoComputeUnit'', 0), (''NoMemoryPort'', 0), (''ReadyQueueFull'', 0),
       (''WaitingDependency'', 0)]"
    by (simp add: finish_run_def initial_state_def initial_stats_def empty_stats_def bump_def Let_def
        omap_at_def omap_get_def)
  have "plain_stats (result_stats ?r)"
    by (simp add: plain_stats_def plain_def finish_run_def initial_state_def initial_stats_def empty_stats_def
        bump_def Let_def omap_at_def omap_get_def)
  with report_reads_back [OF this, of "''out''"] show ?thesis by (simp add: st)
qed

section \<open>The command line\<close>

lemma flags_keep_widths:
  "parse_optional_flags config flags = Inr config' \<Longrightarrow>
     fetch_width config' = fetch_width config \<and> decode_width config' = decode_width config \<and>
     dispatch_width config' = dispatch_width config \<and> issue_width config' = issue_width config"
proof (induction config flags rule: parse_optional_flags.induct)
  case (3 config key v rest)
  then obtain c where c: "apply_flag config key v = Inr c" "parse_optional_flags c rest = Inr config'"
    by (auto simp: bind_result_Inr_iff)
  have "fetch_width c = fetch_width config \<and> decode_width c = decode_width config \<and>
      dispatch_width c = dispatch_width config \<and> issue_width c = issue_width config"
    using c(1) by (auto simp: apply_flag_def bind_result_Inr_iff Let_def split: if_splits)
  then show ?case using "3.IH" [OF c] by simp
qed simp_all

text \<open>
  C11. \<open>accelsim-lite run\<close> on a file that loads, with flags that leave a unit for every operation, room in
  the ready queue and in the dispatch queue for the whole file: it hangs exactly when the dependencies of the file
  have a cycle, and otherwise exits with status 0, prints the summary of the run and writes its report.
\<close>

theorem accelsim_run_outcome:
  assumes "parse_optional_flags default_config flags = Inr config0"
    and "load_workload_csv path (files path) (Some config0) = (Some config, Inr w)"
    and "units_for config w" and "queues_positive config"
    and "length w \<le> unat (dispatch_queue_capacity config)"
  shows "(accelsim_main stamp files (''run'' # path # flags) = None \<longleftrightarrow>
      (\<exists>S. S \<noteq> {} \<and> S \<subseteq> {..<length w} \<and> (\<forall>i \<in> S. \<exists>j \<in> S. instr_id (w ! j) \<in> set (deps (w ! i))))) \<and>
    (accelsim_main stamp files (''run'' # path # flags) \<noteq> None \<longrightarrow>
      (\<exists>r. run_workload w config = Some (Inr r) \<and>
        accelsim_main stamp files (''run'' # path # flags) =
          Some \<lparr>exit_code = 0, std_out = summarize_run r, std_err = [],
                files_written = write_report r ''reports/latest''\<rparr>))"
proof -
  have "widths_positive config"
    using flags_keep_widths [OF assms(1)] load_result(4) [OF assms(2)]
    by (simp add: widths_positive_def default_config_def)
  note cycle = loaded_run_cycle [OF assms(2,3) this assms(4,5)]
  have run: "accelsim_main stamp files (''run'' # path # flags) =
      (case run_workload w config of None \<Rightarrow> None | Some (Inl e) \<Rightarrow> Some (failed [] [] e)
       | Some (Inr r) \<Rightarrow> Some (succeeded (summarize_run r) (write_report r ''reports/latest'')))"
    using assms(1,2) by (simp add: accelsim_main_def main_run_def load_and_run_def)
  have "run_workload w config \<noteq> Some (Inl e)" for e by (auto elim: run_returned)
  then consider "run_workload w config = None" | r where "run_workload w config = Some (Inr r)"
    by (metis not_Some_eq old.sum.exhaust)
  then show ?thesis
  proof cases
    case 1
    then show ?thesis using cycle by (simp add: run)
  next
    case (2 r)
    then have "run_workload w config \<noteq> None" by simp
    then show ?thesis using cycle 2 by (simp add: run succeeded_def)
  qed
qed

theorem accelsim_run_outcome_witness:
  "accelsim_main ''20240101_000000'' (\<lambda>p. Some (workload_csv cyclic_workload)) [''run'', ''cyclic.csv''] = None"
proof -
  let ?c = "default_config\<lparr>workload_name := workload_name_from_path ''cyclic.csv''\<rparr>"
  have "\<forall>i \<in> set cyclic_workload. csv_instruction i" "distinct (map instr_id cyclic_workload)"
    "check_deps cyclic_workload (set (map instr_id cyclic_workload)) = Inr ()"
    by (simp_all add: cyclic_workload_def csv_instruction_def loaded_instruction_def
        new_instruction_def check_deps_iff)
  then have l: "load_workload_csv ''cyclic.csv'' (Some (workload_csv cyclic_workload))
      (Some default_config) = (Some ?c, Inr cyclic_workload)"
    using load_workload_csv_text [of cyclic_workload] by simp
  have conds: "units_for ?c cyclic_workload" "queues_positive ?c"
    "length cyclic_workload \<le> unat (dispatch_queue_capacity ?c)"
    by (auto simp: units_for_def queues_positive_def default_config_def cyclic_workload_def)
  have "\<exists>S. S \<noteq> {} \<and> S \<subseteq> {..<length cyclic_workload} \<and>
      (\<forall>i \<in> S. \<exists>j \<in> S. instr_id (cyclic_workload ! j) \<in> set (deps (cyclic_workload ! i)))"
    by (rule exI [of _ "{0, 1}"]) (auto simp: cyclic_workload_def new_instruction_def)
  then show ?thesis
    using accelsim_run_outcome [where flags = "[]" and files = "\<lambda>p. Some (workload_csv cyclic_workload)"
        and path = "''cyclic.csv''", OF _ l conds] by simp
qed

end
