(* ===== verification/Cli_Properties.thy ===== *)
theory Cli_Properties
  imports Report_Properties
begin

text \<open>
  The properties of the other commands of \<open>accelsim-lite\<close> and of its exit status: the comparison of two
  runs, \<open>compare\<close> and \<open>benchmark all\<close> from the files to what they print and write, and which arguments lead to which exit.
\<close>

section \<open>Comparing two runs\<close>

definition comparison_text ::
  "string \<Rightarrow> string \<Rightarrow> int \<Rightarrow> double \<Rightarrow> double \<Rightarrow> string \<Rightarrow> string \<Rightarrow> string" where
  "comparison_text left right cycles thr avg left_top right_top =
     text_line (''left='' @ left) @ text_line (''right='' @ right) @
     text_line (''cycles_delta='' @ to_string_int cycles) @
     text_line (''throughput_delta='' @ format_double thr) @
     text_line (''avg_latency_delta='' @ format_double avg) @
     text_line (''left_top_bottleneck='' @ left_top) @ text_line (''right_top_bottleneck='' @ right_top)"

lemma compare_runs_text:
  "compare_runs l r =
     comparison_text (workload_name (result_config l)) (workload_name (result_config r))
       (delta_i64 (total_cycles (result_stats l)) (total_cycles (result_stats r)))
       (dsub (throughput (result_stats r)) (throughput (result_stats l)))
       (dsub (average_latency (result_stats r)) (average_latency (result_stats l)))
       (top_bottleneck (result_stats l)) (top_bottleneck (result_stats r))"
  by (simp add: compare_runs_def comparison_text_def Let_def)

lemma averages_finite:
  "\<exists>r. throughput st = Fin r \<and> is_double r" "\<exists>r. average_latency st = Fin r \<and> is_double r"
  using counters_finite by (auto simp: throughput_def average_latency_def)

text \<open>
  C15. Comparing the runs in the other order swaps their names and bottlenecks and negates the three differences. The
  difference of the cycles is exact below $2^{63}$; those of the averages are negative exactly when the average of the right run
  is the smaller one, however close they are; all three are zero for runs of equal statistics.
\<close>

theorem compare_runs_swap:
  "\<exists>c t a. compare_runs l r =
      comparison_text (workload_name (result_config l)) (workload_name (result_config r)) c t a
        (top_bottleneck (result_stats l)) (top_bottleneck (result_stats r)) \<and>
    compare_runs r l =
      comparison_text (workload_name (result_config r)) (workload_name (result_config l)) (- c) (dneg t) (dneg a)
        (top_bottleneck (result_stats r)) (top_bottleneck (result_stats l)) \<and>
    (unat (total_cycles (result_stats l)) < 2 ^ 63 \<and> unat (total_cycles (result_stats r)) < 2 ^ 63 \<longrightarrow>
      c = int (unat (total_cycles (result_stats r))) - int (unat (total_cycles (result_stats l)))) \<and>
    (t < Fin 0 \<longleftrightarrow> throughput (result_stats r) < throughput (result_stats l)) \<and>
    (a < Fin 0 \<longleftrightarrow> average_latency (result_stats r) < average_latency (result_stats l)) \<and>
    (result_stats l = result_stats r \<longrightarrow> c = 0 \<and> t = Fin 0 \<and> a = Fin 0)"
proof -
  let ?ls = "result_stats l" and ?rs = "result_stats r"
  obtain t1 where t1: "throughput ?ls = Fin t1" "is_double t1" using averages_finite by blast
  obtain t2 where t2: "throughput ?rs = Fin t2" "is_double t2" using averages_finite by blast
  obtain a1 where a1: "average_latency ?ls = Fin a1" "is_double a1" using averages_finite by blast
  obtain a2 where a2: "average_latency ?rs = Fin a2" "is_double a2" using averages_finite by blast
  have c: "delta_i64 (total_cycles ?rs) (total_cycles ?ls) = - delta_i64 (total_cycles ?ls) (total_cycles ?rs)"
    by (simp add: delta_i64_def)
  have small: "sint x = int (unat x)" if "unat x < 2 ^ 63" for x :: u64
  proof -
    have u: "uint x = int (unat x)" by (rule uint_nat)
    have "int (unat x) < int (2 ^ 63)" using that by (simp only: of_nat_less_iff)
    then have "int (unat x) < 2 ^ 63" by (simp only: of_nat_power of_nat_numeral)
    then have "uint x < 2 ^ 63" "- (2 ^ 63) \<le> uint x" using uint_ge_0 [of x] u by linarith+
    then have "signed_take_bit 63 (uint x) = uint x" by (intro signed_take_bit_int_eq_self)
    moreover have "sint x = signed_take_bit 63 (uint x)" by (simp add: sint_uint)
    ultimately show ?thesis by (simp only: u)
  qed
  have exact: "delta_i64 (total_cycles ?ls) (total_cycles ?rs) =
      int (unat (total_cycles ?rs)) - int (unat (total_cycles ?ls))"
    if "unat (total_cycles ?ls) < 2 ^ 63 \<and> unat (total_cycles ?rs) < 2 ^ 63"
    using that small by (simp add: delta_i64_def)
  have zero: "delta_i64 (total_cycles ?ls) (total_cycles ?rs) = 0 \<and>
      dsub (throughput ?rs) (throughput ?ls) = Fin 0 \<and> dsub (average_latency ?rs) (average_latency ?ls) = Fin 0"
    if "?ls = ?rs"
    using that t2 a2 by (simp add: delta_i64_def dsub_self)
  have sign: "dsub (throughput ?rs) (throughput ?ls) < Fin 0 \<longleftrightarrow> throughput ?rs < throughput ?ls"
    "dsub (average_latency ?rs) (average_latency ?ls) < Fin 0 \<longleftrightarrow> average_latency ?rs < average_latency ?ls"
    using dsub_sign [OF t2(2) t1(2)] dsub_sign [OF a2(2) a1(2)] t1 t2 a1 a2 by simp_all
  show ?thesis
    unfolding compare_runs_text c
    by (intro exI [of _ "delta_i64 (total_cycles ?ls) (total_cycles ?rs)"]
        exI [of _ "dsub (throughput ?rs) (throughput ?ls)"]
        exI [of _ "dsub (average_latency ?rs) (average_latency ?ls)"] conjI impI exact sign zero [THEN conjunct1]
        zero [THEN conjunct2, THEN conjunct1] zero [THEN conjunct2, THEN conjunct2] refl)
      (simp_all only: t1(1) t2(1) a1(1) a2(1) dsub_swap [of t1 t2] dsub_swap [of a1 a2])
qed

theorem compare_runs_swap_witness:
  "\<exists>t a. compare_runs (finish_run default_config ((initial_state chain_workload)\<lparr>sim_cycle := 7\<rparr>))
      (finish_run default_config ((initial_state chain_workload)\<lparr>sim_cycle := 5\<rparr>)) =
    comparison_text ''unknown'' ''unknown'' (- 2) t a ''None'' ''None''"
proof -
  let ?l = "finish_run default_config ((initial_state chain_workload)\<lparr>sim_cycle := 7\<rparr>)"
  let ?r = "finish_run default_config ((initial_state chain_workload)\<lparr>sim_cycle := 5\<rparr>)"
  have n: "workload_name (result_config ?l) = ''unknown''" "workload_name (result_config ?r) = ''unknown''"
    and c: "unat (total_cycles (result_stats ?l)) = 7" "unat (total_cycles (result_stats ?r)) = 5"
    by (simp_all add: finish_run_def default_config_def)
  have b: "top_bottleneck (result_stats ?l) = ''None''" "top_bottleneck (result_stats ?r) = ''None''"
    by (simp_all add: finish_run_def initial_state_def initial_stats_def empty_stats_def bump_def Let_def
        omap_at_def omap_get_def top_bottleneck_def)
  show ?thesis using compare_runs_swap [of ?l ?r] unfolding n b c by auto
qed

section \<open>The commands\<close>

text \<open>
  A file that loads, on a configuration that can run it: a unit for every operation, room in the ready queue,
  and in the dispatch queue for the whole file.
\<close>

definition ready_to_run ::
  "(string \<Rightarrow> string option) \<Rightarrow> simulator_config \<Rightarrow> string \<Rightarrow> simulator_config \<Rightarrow> instruction list \<Rightarrow> bool" where
  "ready_to_run files config0 path config w \<longleftrightarrow>
     load_workload_csv path (files path) (Some config0) = (Some config, Inr w) \<and> units_for config w \<and>
     queues_positive config \<and> length w \<le> unat (dispatch_queue_capacity config)"

definition dependency_cycle :: "instruction list \<Rightarrow> bool" where
  "dependency_cycle w \<longleftrightarrow>
     (\<exists>S. S \<noteq> {} \<and> S \<subseteq> {..<length w} \<and> (\<forall>i \<in> S. \<exists>j \<in> S. instr_id (w ! j) \<in> set (deps (w ! i))))"

lemma default_widths: "widths_positive default_config"
  by (simp add: widths_positive_def default_config_def)

lemma ready_run:
  assumes "ready_to_run files config0 path config w" and "widths_positive config0"
  shows "run_workload w config = None \<longleftrightarrow> dependency_cycle w"
    and "\<not> dependency_cycle w \<Longrightarrow> \<exists>r. run_workload w config = Some (Inr r)"
    and "config = config0\<lparr>workload_name := workload_name_from_path path\<rparr>"
proof -
  have l: "load_workload_csv path (files path) (Some config0) = (Some config, Inr w)"
    and c: "units_for config w" "queues_positive config" "length w \<le> unat (dispatch_queue_capacity config)"
    using assms(1) by (simp_all add: ready_to_run_def)
  show e: "config = config0\<lparr>workload_name := workload_name_from_path path\<rparr>" using load_result(4) [OF l] by simp
  have "widths_positive config" using assms(2) by (simp add: e widths_positive_def)
  from loaded_run_cycle [OF l c(1) this c(2,3)]
  show n: "run_workload w config = None \<longleftrightarrow> dependency_cycle w" by (simp add: dependency_cycle_def)
  have "run_workload w config \<noteq> Some (Inl e)" for e by (auto elim: run_returned)
  then show "\<exists>r. run_workload w config = Some (Inr r)" if "\<not> dependency_cycle w"
    using n that by (metis not_Some_eq old.sum.exhaust)
qed

lemma flags_widths: "parse_optional_flags default_config flags = Inr config \<Longrightarrow> widths_positive config"
  using flags_keep_widths [of default_config flags config] default_widths by (simp add: widths_positive_def)

text \<open>
  C12. \<open>accelsim-lite compare\<close> on two files that load, with flags that leave for both a unit for every operation, room in
  the ready queue and in the dispatch queue for the whole file (\<open>ready_to_run\<close>): it hangs exactly when the
  dependencies of one of them have a cycle. Otherwise it exits with status 0, prints the comparison of the two
  runs, and writes the two reports and the comparison, in that order, to files of different names.
\<close>

theorem accelsim_compare_outcome:
  assumes "parse_optional_flags default_config flags = Inr config0"
    and "ready_to_run files config0 left lc lw" and "ready_to_run files config0 right rc rw"
  shows "(accelsim_main stamp files (''compare'' # left # right # flags) = None \<longleftrightarrow>
      dependency_cycle lw \<or> dependency_cycle rw) \<and>
    (\<not> dependency_cycle lw \<and> \<not> dependency_cycle rw \<longrightarrow>
      (\<exists>l r out. run_workload lw lc = Some (Inr l) \<and> run_workload rw rc = Some (Inr r) \<and>
        accelsim_main stamp files (''compare'' # left # right # flags) = Some out \<and>
        exit_code out = 0 \<and> std_out out = compare_runs l r \<and> std_err out = [] \<and>
        files_written out = write_report l ''reports/latest/left'' @ write_report r ''reports/latest/right'' @
          [(''reports/latest/compare.txt'', compare_runs l r)] \<and>
        distinct (map fst (files_written out))))"
proof -
  note w = flags_widths [OF assms(1)]
  note l = ready_run [OF assms(2) w] and r = ready_run [OF assms(3) w]
  have load: "load_workload_csv left (files left) (Some config0) = (Some lc, Inr lw)"
    "load_workload_csv right (files right) (Some config0) = (Some rc, Inr rw)"
    using assms(2,3) by (simp_all add: ready_to_run_def)
  have run: "accelsim_main stamp files (''compare'' # left # right # flags) =
      (case run_workload lw lc of None \<Rightarrow> None | Some (Inl e) \<Rightarrow> Some (failed [] [] e)
       | Some (Inr l) \<Rightarrow>
           (case run_workload rw rc of None \<Rightarrow> None | Some (Inl e) \<Rightarrow> Some (failed [] [] e)
            | Some (Inr r) \<Rightarrow>
                Some (succeeded (compare_runs l r)
                  (write_report l ''reports/latest/left'' @ write_report r ''reports/latest/right'' @
                   [(''reports/latest/compare.txt'', compare_runs l r)]))))"
    using assms(1) by (simp add: accelsim_main_def main_compare_def load cong: option.case_cong sum.case_cong)
  show ?thesis
  proof (cases "dependency_cycle lw \<or> dependency_cycle rw")
    case True
    then show ?thesis using l(1,2) r(1) by (cases "dependency_cycle lw") (auto simp: run)
  next
    case False
    then obtain a b where ab: "run_workload lw lc = Some (Inr a)" "run_workload rw rc = Some (Inr b)"
      using l(2) r(2) by blast
    have "distinct (map fst (write_report a ''reports/latest/left'' @ write_report b ''reports/latest/right'' @
        [(''reports/latest/compare.txt'', compare_runs a b)]))"
      by (simp add: write_report_def Let_def join_path_def)
    then show ?thesis using False ab by (auto simp: run succeeded_def)
  qed
qed

lemma chain_acyclic: "\<not> dependency_cycle chain_workload"
proof
  assume "dependency_cycle chain_workload"
  then obtain S where S: "S \<noteq> {}" "S \<subseteq> {..<length chain_workload}"
    "\<forall>i \<in> S. \<exists>j \<in> S. instr_id (chain_workload ! j) \<in> set (deps (chain_workload ! i))"
    by (auto simp: dependency_cycle_def)
  define i where "i = Min S"
  have "finite S" using S(2) finite_subset by blast
  then have i: "i \<in> S" "\<forall>j \<in> S. i \<le> j" using S(1) by (simp_all add: i_def)
  then obtain j where j: "j \<in> S" "instr_id (chain_workload ! j) \<in> set (deps (chain_workload ! i))" using S(3) by blast
  have "i < 3" "j < 3" "i \<le> j" using i j(1) S(2) by (auto simp: chain_workload_def)
  then show False using j(2) by (auto simp: chain_workload_def new_instruction_def less_Suc_eq numeral_3_eq_3 numeral_2_eq_2)
qed

lemma chain_ready:
  assumes "files path = Some (workload_csv chain_workload)"
  shows "ready_to_run files default_config path (default_config\<lparr>workload_name := workload_name_from_path path\<rparr>)
    chain_workload"
proof -
  show ?thesis
    using load_workload_csv_text [OF chain_csv(1,2), of path "Some default_config"] assms chain_csv(3)
    by (simp add: ready_to_run_def units_for_def queues_positive_def default_config_def chain_workload_def)
qed

theorem accelsim_compare_outcome_witness:
  "\<exists>out. accelsim_main [] (\<lambda>p. Some (workload_csv chain_workload)) [''compare'', ''a.csv'', ''b.csv''] = Some out \<and>
     exit_code out = 0 \<and> length (files_written out) = 13"
  using accelsim_compare_outcome [where flags = "[]" and files = "\<lambda>p. Some (workload_csv chain_workload)"
      and left = "''a.csv''" and right = "''b.csv''" and stamp = "[]", OF _ chain_ready chain_ready] chain_acyclic
  by (auto simp: write_report_def Let_def)

text \<open>
  \<open>benchmark all\<close>, with the outcome of its loop over the paths that are left. \<open>c\<close> and \<open>w\<close> are the configuration and the
  workload of every path, \<open>res\<close> the result of its run.
\<close>

lemma benchmark_all_outcome:
  assumes "\<forall>p \<in> set paths. files p \<noteq> None \<longrightarrow> ready_to_run files default_config p (c p) (w p)"
    and "\<forall>p \<in> set paths. files p \<noteq> None \<longrightarrow> \<not> dependency_cycle (w p) \<longrightarrow>
      run_workload (w p) (c p) = Some (Inr (res p))"
  shows "benchmark_all files out_root paths out written =
    (if \<exists>p \<in> set paths. files p \<noteq> None \<and> dependency_cycle (w p) then None
     else Some (succeeded
       (out @ concat (map (\<lambda>p. benchmark_row (res p)) (filter (\<lambda>p. files p \<noteq> None) paths)))
       (written @ concat (map (\<lambda>p. write_report (res p) (join_path out_root (workload_name (result_config (res p)))))
         (filter (\<lambda>p. files p \<noteq> None) paths)))))"
  using assms
proof (induction paths arbitrary: out written)
  case (Cons p paths)
  show ?case
  proof (cases "files p")
    case None
    then show ?thesis using Cons by simp
  next
    case (Some content)
    then have r: "ready_to_run files default_config p (c p) (w p)" using Cons.prems(1) by simp
    have load: "load_and_run files default_config p = run_workload (w p) (c p)"
      using r Some by (simp add: load_and_run_def ready_to_run_def)
    show ?thesis
    proof (cases "dependency_cycle (w p)")
      case True
      then show ?thesis using ready_run(1) [OF r default_widths] Some load by simp
    next
      case False
      then have "run_workload (w p) (c p) = Some (Inr (res p))" using Cons.prems(2) Some by simp
      then show ?thesis using Cons False Some load by simp
    qed
  qed
qed simp

lemma distinct_concat_filter:
  "distinct (concat (map h xs)) \<Longrightarrow> distinct (concat (map h (filter P xs)))"
  by (induction xs) (auto simp: disjoint_iff)

lemma benchmark_names:
  "map workload_name_from_path benchmark_workloads = [''compute_heavy'', ''memory_heavy'', ''queue_pressure'', ''mixed'']"
  by (simp add: benchmark_workloads_def workload_name_from_path_def Let_def)

lemma report_names:
  "map fst (write_report r dir) =
     map (join_path dir) [''summary.txt'', ''summary.json'', ''utilization.csv'', ''stalls.csv'', ''queue_occupancy.csv'',
       ''completed_trace.csv'']"
  by (simp add: write_report_def Let_def)

lemma benchmark_files_distinct:
  "distinct (map fst (concat (map (\<lambda>p. write_report (res p) (join_path dir (workload_name_from_path p)))
     (filter P benchmark_workloads))))"
proof -
  let ?h = "\<lambda>n. map (join_path (join_path dir n)) [''summary.txt'', ''summary.json'', ''utilization.csv'', ''stalls.csv'',
    ''queue_occupancy.csv'', ''completed_trace.csv'']"
  have "distinct (concat (map ?h (map workload_name_from_path benchmark_workloads)))"
    unfolding benchmark_names by (simp add: join_path_def)
  then have "distinct (concat (map (?h \<circ> workload_name_from_path) benchmark_workloads))" by (simp only: map_map)
  then have "distinct (concat (map (?h \<circ> workload_name_from_path) (filter P benchmark_workloads)))"
    by (rule distinct_concat_filter)
  then show ?thesis by (simp only: map_concat map_map comp_def report_names)
qed

text \<open>
  C13. \<open>accelsim-lite benchmark all\<close>, when those of its four files that exist load and have at most sixteen
  instructions: it hangs exactly when the dependencies of one of them have a cycle. Otherwise it exits with status
  0, prints one line per file that exists, in their order, and writes the report of each to the directory of its name
  under the directory of the run; no file is written twice.
\<close>

theorem accelsim_benchmark_outcome:
  assumes "\<forall>p \<in> set benchmark_workloads. files p \<noteq> None \<longrightarrow> ready_to_run files default_config p (c p) (w p)"
  shows "(accelsim_main stamp files (''benchmark'' # ''all'' # rest) = None \<longleftrightarrow>
      (\<exists>p \<in> set benchmark_workloads. files p \<noteq> None \<and> dependency_cycle (w p))) \<and>
    ((\<forall>p \<in> set benchmark_workloads. files p \<noteq> None \<longrightarrow> \<not> dependency_cycle (w p)) \<longrightarrow>
      (\<exists>res out. (\<forall>p \<in> set benchmark_workloads. files p \<noteq> None \<longrightarrow>
          run_workload (w p) (c p) = Some (Inr (res p))) \<and>
        accelsim_main stamp files (''benchmark'' # ''all'' # rest) = Some out \<and>
        exit_code out = 0 \<and> std_err out = [] \<and>
        std_out out = concat (map (\<lambda>p. benchmark_row (res p)) (filter (\<lambda>p. files p \<noteq> None) benchmark_workloads)) \<and>
        files_written out =
          concat (map (\<lambda>p. write_report (res p)
              (join_path (join_path ''reports/benchmarks'' stamp) (workload_name_from_path p)))
            (filter (\<lambda>p. files p \<noteq> None) benchmark_workloads)) \<and>
        distinct (map fst (files_written out))))"
proof -
  let ?res = "\<lambda>p. case run_workload (w p) (c p) of Some (Inr r) \<Rightarrow> r"
  let ?root = "join_path ''reports/benchmarks'' stamp"
  let ?present = "filter (\<lambda>p. files p \<noteq> None) benchmark_workloads"
  have runs: "\<forall>p \<in> set benchmark_workloads. files p \<noteq> None \<longrightarrow> \<not> dependency_cycle (w p) \<longrightarrow>
      run_workload (w p) (c p) = Some (Inr (?res p))"
    using ready_run(2) [OF _ default_widths] assms by fastforce
  have run: "accelsim_main stamp files (''benchmark'' # ''all'' # rest) =
      benchmark_all files ?root benchmark_workloads [] []"
    by (simp add: accelsim_main_def)
  note out = benchmark_all_outcome [OF assms runs, of ?root "[]" "[]"]
  show ?thesis
  proof (cases "\<exists>p \<in> set benchmark_workloads. files p \<noteq> None \<and> dependency_cycle (w p)")
    case True
    then show ?thesis unfolding run out by auto
  next
    case False
    have name: "workload_name (result_config (?res p)) = workload_name_from_path p" if "p \<in> set ?present" for p
    proof -
      have r: "ready_to_run files default_config p (c p) (w p)" "run_workload (w p) (c p) = Some (Inr (?res p))"
        using that assms runs False by auto
      from run_returned [OF r(2)] obtain t where "?res p = finish_run (c p) t" by blast
      then show ?thesis using ready_run(3) [OF r(1) default_widths] by (simp add: finish_run_def)
    qed
    then have reports: "map (\<lambda>p. write_report (?res p) (join_path ?root (workload_name (result_config (?res p))))) ?present =
        map (\<lambda>p. write_report (?res p) (join_path ?root (workload_name_from_path p))) ?present"
      by (intro map_cong refl) (simp only:)
    have main: "accelsim_main stamp files (''benchmark'' # ''all'' # rest) =
        Some (succeeded (concat (map (\<lambda>p. benchmark_row (?res p)) ?present))
          (concat (map (\<lambda>p. write_report (?res p) (join_path ?root (workload_name_from_path p))) ?present)))"
      unfolding run out reports using False by (simp only: if_False append.simps)
    show ?thesis
      using runs False benchmark_files_distinct [of ?res ?root "\<lambda>p. files p \<noteq> None"]
      unfolding main by (intro conjI iffI impI exI [of _ ?res]) (auto simp: succeeded_def)
  qed
qed

theorem accelsim_benchmark_outcome_witness:
  "\<exists>out. accelsim_main ''20240101_000000''
      (\<lambda>p. if p = ''workloads/mixed.csv'' then Some (workload_csv chain_workload) else None) [''benchmark'', ''all''] = Some out \<and>
    exit_code out = 0 \<and> length (files_written out) = 6"
proof -
  let ?files = "\<lambda>p. if p = ''workloads/mixed.csv'' then Some (workload_csv chain_workload) else None"
  have "\<forall>p \<in> set benchmark_workloads. ?files p \<noteq> None \<longrightarrow> ready_to_run ?files default_config p
      (default_config\<lparr>workload_name := workload_name_from_path p\<rparr>) chain_workload"
    by (auto intro!: chain_ready split: if_splits)
  from accelsim_benchmark_outcome [where w = "\<lambda>_. chain_workload" and rest = "[]" and stamp = "''20240101_000000''", OF this]
  show ?thesis using chain_acyclic by (auto simp: benchmark_workloads_def write_report_def Let_def)
qed

section \<open>The exit status\<close>

text \<open>The command lines that \<open>usage\<close> describes.\<close>

definition names_command :: "string list \<Rightarrow> bool" where
  "names_command args \<longleftrightarrow>
     (\<exists>path flags. args = ''run'' # path # flags) \<or>
     (\<exists>left right flags. args = ''compare'' # left # right # flags) \<or>
     (\<exists>rest. args = ''benchmark'' # ''all'' # rest) \<or> (\<exists>rest. args = ''report'' # ''latest'' # rest)"

text \<open>What a command ends with once its arguments are complete: success, or the message of an exception.\<close>

definition command_end :: "outcome \<Rightarrow> bool" where
  "command_end out \<longleftrightarrow>
     exit_code out = 0 \<and> std_err out = [] \<or>
     exit_code out = 1 \<and> (\<exists>e. std_err out = ''error: '' @ text_line (what e))"

definition quiet_failure :: "outcome \<Rightarrow> bool" where
  "quiet_failure out \<longleftrightarrow> exit_code out = 0 \<or> std_out out = [] \<and> files_written out = []"

lemma command_ends [simp]:
  "command_end (failed out written e)" "command_end (succeeded out written)" "quiet_failure (failed [] [] e)"
  "quiet_failure (succeeded out written)" "quiet_failure (exits 1 [] err)"
  by (auto simp: command_end_def quiet_failure_def failed_def succeeded_def)

lemma main_run_end:
  "main_run files (path # flags) = Some out \<Longrightarrow> command_end out \<and> quiet_failure out"
  by (auto simp: main_run_def split: sum.splits option.splits)

lemma main_compare_end:
  "main_compare files (left # right # flags) = Some out \<Longrightarrow> command_end out \<and> quiet_failure out"
  by (auto simp: main_compare_def split: sum.splits option.splits prod.splits)

lemma benchmark_all_end:
  "benchmark_all files out_root paths out written = Some r \<Longrightarrow> command_end r"
  by (induction paths arbitrary: out written) (auto split: if_splits sum.splits option.splits)

lemma main_report_end: "command_end (main_report files) \<and> quiet_failure (main_report files)"
  by (simp add: main_report_def split: option.split)

lemma usage_not_error: "usage \<noteq> ''error: '' @ s" "usage \<noteq> []"
  by (simp_all add: usage_def text_line_def)

lemma command_not_usage: "command_end out \<Longrightarrow> std_err out \<noteq> usage"
  using usage_not_error unfolding command_end_def by metis

text \<open>
  C14. The exit status of \<open>accelsim-lite\<close>, when it ends: arguments that name no complete command print the usage
  to the standard error and exit with status 1. Every complete command exits with status 0 and an
  empty standard error, or with status 1 and the message of an exception, and only \<open>benchmark\<close> may have
  printed or written something before a failure.
\<close>

theorem accelsim_exit_status:
  assumes "accelsim_main stamp files args = Some out"
  shows "(\<not> names_command args \<longrightarrow> out = exits 1 [] usage) \<and>
    (names_command args \<longrightarrow> command_end out \<and> std_err out \<noteq> usage) \<and>
    (exit_code out \<noteq> 0 \<longrightarrow> hd args \<noteq> ''benchmark'' \<longrightarrow> std_out out = [] \<and> files_written out = [])"
proof -
  consider (none) "\<not> names_command args"
    | (run) path flags where "args = ''run'' # path # flags"
    | (compare) left right flags where "args = ''compare'' # left # right # flags"
    | (benchmark) rest where "args = ''benchmark'' # ''all'' # rest"
    | (report) rest where "args = ''report'' # ''latest'' # rest"
    unfolding names_command_def by blast
  then show ?thesis
  proof cases
    case none
    have "accelsim_main stamp files args = Some (exits 1 [] usage)"
      using none by (auto simp: accelsim_main_def main_run_def main_compare_def names_command_def neq_Nil_conv
          split: list.split)
    then show ?thesis using assms none by simp
  next
    case run
    then have "command_end out \<and> quiet_failure out" using assms main_run_end by (simp add: accelsim_main_def)
    then show ?thesis using run command_not_usage by (auto simp: names_command_def quiet_failure_def)
  next
    case compare
    then have "command_end out \<and> quiet_failure out" using assms main_compare_end by (simp add: accelsim_main_def)
    then show ?thesis using compare command_not_usage by (auto simp: names_command_def quiet_failure_def)
  next
    case benchmark
    then have "command_end out" using assms benchmark_all_end by (simp add: accelsim_main_def)
    then show ?thesis using benchmark command_not_usage by (auto simp: names_command_def)
  next
    case report
    then have "command_end out \<and> quiet_failure out" using assms main_report_end [of files] by (simp add: accelsim_main_def)
    then show ?thesis using report command_not_usage by (auto simp: names_command_def quiet_failure_def)
  qed
qed

theorem accelsim_exit_status_witness:
  "accelsim_main [] (\<lambda>_. None) [''report''] = Some (exits 1 [] usage) \<and> \<not> names_command [''report''] \<and>
   (\<exists>e. accelsim_main [] (\<lambda>_. None) [''report'', ''latest''] = Some (failed [] [] e) \<and>
     std_err (failed [] [] e) \<noteq> usage)"
proof -
  have n: "\<not> names_command [''report'']" "names_command [''report'', ''latest'']" by (simp_all add: names_command_def)
  obtain e where m: "accelsim_main [] (\<lambda>_. None) [''report'', ''latest''] = Some (failed [] [] e)"
    by (simp add: accelsim_main_def main_report_def)
  obtain out where u: "accelsim_main [] (\<lambda>_. None) [''report''] = Some out" by (simp add: accelsim_main_def)
  show ?thesis using accelsim_exit_status [OF m] accelsim_exit_status [OF u] n m u by auto
qed

end
