(* ===== verification/Engine_Results.thy ===== *)
theory Engine_Results
  imports Worker_Pool Percentile Cpp_Program
begin

text \<open>
  What the performance engine reports: \<open>build_result\<close> and \<open>classify_bottleneck\<close> of
  \<open>performance_engine/src/performance_engine.cpp\<close>, and the command line
  \<open>performance_benchmark_cli.cpp\<close>, with the profile runner. The clock readings are arguments, in nanoseconds.
\<close>

record benchmark_result =
  br_mode :: string
  br_access_pattern :: string
  br_worker_count :: nat
  br_workload_size :: nat
  tasks_processed :: nat
  elapsed_ms :: double
  throughput_items_per_second :: double
  p50_task_latency_us :: double
  p95_task_latency_us :: double
  p99_task_latency_us :: double
  br_allocations :: u64
  br_lock_acquisitions :: u64
  br_contended :: u64
  contention_rate :: double
  total_lock_wait_ms :: double
  total_queue_wait_ms :: double
  br_bottleneck :: string
  br_checksum :: u64

section \<open>Durations\<close>

text \<open>\<open>std::chrono::duration<double, std::micro>\<close> and \<open>std::milli\<close> of a count of nanoseconds.\<close>

definition micros :: "u64 \<Rightarrow> double" where
  "micros ns = ddiv (of_size (unat ns)) (Fin 1000)"

definition millis :: "u64 \<Rightarrow> double" where
  "millis ns = ddiv (of_size (unat ns)) (Fin 1000000)"

lemma micros_not_NaN [simp]: "micros ns \<noteq> NaN"
  by (simp add: micros_def of_size_def round_double_def Let_def)

section \<open>The result\<close>

definition contention :: "worker_metrics \<Rightarrow> double" where
  "contention metrics =
     (if lock_acquisitions metrics = 0 then Fin 0
      else ddiv (of_size (unat (contended_lock_acquisitions metrics)))
             (of_size (unat (lock_acquisitions metrics))))"

definition classify_bottleneck :: "engine \<Rightarrow> worker_metrics \<Rightarrow> double \<Rightarrow> string" where
  "classify_bottleneck e metrics elapsed =
     (let rate = contention metrics;
          lock_wait = ddiv (of_size (unat (lock_wait_ns metrics))) (Fin 1000000);
          queue_wait = ddiv (of_size (unat (queue_wait_ns metrics))) (Fin 1000000);
          config = engine_config e
      in if access_pattern config = CacheUnfriendly \<and> dlt (Fin 0) elapsed then ''cache_locality_pressure''
         else if dle (round_double (15 / 100)) rate \<or> dlt (dmul elapsed (round_double (20 / 100))) lock_wait
         then ''lock_contention''
         else if dlt (dmul elapsed (round_double (50 / 100))) queue_wait then ''queue_wait_pressure''
         else if workload_size config div chunk_size config < unat (simulated_allocations metrics)
         then ''allocation_pressure''
         else ''balanced'')"

definition build_result ::
  "engine \<Rightarrow> string \<Rightarrow> double list \<Rightarrow> worker_metrics \<Rightarrow> u64 \<Rightarrow> double \<Rightarrow> nat \<Rightarrow> benchmark_result" where
  "build_result e mode task_latencies_us metrics checksum elapsed task_count =
     (let config = engine_config e;
          throughput = (if deq elapsed (Fin 0) then Fin 0
            else ddiv (of_size (workload_size config)) (ddiv elapsed (Fin 1000)))
      in \<lparr>br_mode = mode, br_access_pattern = access_pattern_name (access_pattern config),
          br_worker_count = worker_count config, br_workload_size = workload_size config,
          tasks_processed = task_count, elapsed_ms = elapsed, throughput_items_per_second = throughput,
          p50_task_latency_us = percentile task_latencies_us (round_double (50 / 100)),
          p95_task_latency_us = percentile task_latencies_us (round_double (95 / 100)),
          p99_task_latency_us = percentile task_latencies_us (round_double (99 / 100)),
          br_allocations = simulated_allocations metrics, br_lock_acquisitions = lock_acquisitions metrics,
          br_contended = contended_lock_acquisitions metrics, contention_rate = contention metrics,
          total_lock_wait_ms = ddiv (of_size (unat (lock_wait_ns metrics))) (Fin 1000000),
          total_queue_wait_ms = ddiv (of_size (unat (queue_wait_ns metrics))) (Fin 1000000),
          br_bottleneck = classify_bottleneck e metrics elapsed, br_checksum = checksum\<rparr>)"

text \<open>
  The two runs with their results: \<open>latencies\<close> are the clock readings around the tasks of the
  single-threaded run, \<open>elapsed\<close> those around the run. A multithreaded run gives a result once
  its producer has returned.
\<close>

definition single_threaded_result :: "engine \<Rightarrow> u64 list \<Rightarrow> u64 \<Rightarrow> benchmark_result option" where
  "single_threaded_result e latencies elapsed =
     map_option (\<lambda>(checksum, metrics, n).
         build_result e ''single_threaded'' (map micros latencies) metrics checksum (millis elapsed) n)
       (run_single_threaded e)"

definition multithreaded_result :: "engine \<Rightarrow> pool \<Rightarrow> u64 \<Rightarrow> benchmark_result option" where
  "multithreaded_result e s elapsed =
     (if pool_producer s = Returned then
        map_option (\<lambda>items. build_result e ''multithreaded'' (map micros (aggregate_latencies s))
            (aggregate_metrics s) (pool_checksum s) (millis elapsed) (length items))
          (build_work_items e)
      else None)"

section \<open>The command line\<close>

definition parse_size :: "string \<Rightarrow> string \<Rightarrow> u64 result" where
  "parse_size value name =
     (case stoull value of
        Inl e \<Rightarrow> Inl (Invalid_argument (''invalid '' @ name))
      | Inr n \<Rightarrow> Inr n)"

definition print_result :: "benchmark_result \<Rightarrow> string" where
  "print_result r =
     text_line (br_mode r @ '','' @ br_access_pattern r @ '','' @
       dec_string (br_worker_count r) @ '','' @ dec_string (br_workload_size r) @ '','' @
       dec_string (tasks_processed r) @ '','' @ format_fixed 4 (elapsed_ms r) @ '','' @
       format_fixed 4 (throughput_items_per_second r) @ '','' @
       format_fixed 4 (p50_task_latency_us r) @ '','' @ format_fixed 4 (p95_task_latency_us r) @ '','' @
       format_fixed 4 (p99_task_latency_us r) @ '','' @ to_string_u64 (br_allocations r) @ '','' @
       to_string_u64 (br_lock_acquisitions r) @ '','' @ to_string_u64 (br_contended r) @ '','' @
       format_fixed 4 (contention_rate r) @ '','' @ format_fixed 4 (total_lock_wait_ms r) @ '','' @
       format_fixed 4 (total_queue_wait_ms r) @ '','' @ br_bottleneck r @ '','' @ to_string_u64 (br_checksum r))"

definition benchmark_usage :: string where
  "benchmark_usage =
     text_line (''usage: performance-benchmark <mode: single|multi> <workers> <workload_size> '' @
       ''<pattern: local|unfriendly> [queue_batch_size]'')"

definition benchmark_header :: string where
  "benchmark_header =
     text_line (''mode,access_pattern,worker_count,workload_size,'' @
       ''tasks_processed,elapsed_ms,throughput_items_per_second,'' @
       ''p50_task_latency_us,p95_task_latency_us,'' @
       ''p99_task_latency_us,simulated_allocations,'' @
       ''lock_acquisitions,contended_lock_acquisitions,'' @
       ''contention_rate,total_lock_wait_ms,'' @
       ''total_queue_wait_ms,bottleneck,checksum'')"

text \<open>The engine that the arguments ask for.\<close>

definition benchmark_engine :: "string list \<Rightarrow> engine result" where
  "benchmark_engine args =
     bind_result (parse_size (args ! 1) ''worker count'') (\<lambda>workers.
     bind_result (parse_size (args ! 2) ''workload size'') (\<lambda>workload.
     bind_result (if length args = 5 then parse_size (args ! 4) ''queue batch size'' else Inr 1) (\<lambda>batch.
     new_engine \<lparr>worker_count = unat workers, workload_size = unat workload, chunk_size = 256,
       queue_capacity = 1024,
       access_pattern = (if args ! 3 = ''local'' then CacheLocal else CacheUnfriendly),
       queue_batch_size = unat batch\<rparr>)))"

definition benchmark_failed :: "string \<Rightarrow> cpp_exception \<Rightarrow> outcome" where
  "benchmark_failed out e = exits 1 out (''performance benchmark failed: '' @ text_line (what e))"

text \<open>
  \<open>main\<close>, where \<open>single\<close> and \<open>multi\<close> are what the runs of the engine give (\<open>None\<close> when one does
  not return).
\<close>

definition benchmark_main ::
  "(engine \<Rightarrow> benchmark_result option) \<Rightarrow> (engine \<Rightarrow> benchmark_result option) \<Rightarrow> string list \<Rightarrow>
     outcome option" where
  "benchmark_main single multi args =
     (if length args \<noteq> 4 \<and> length args \<noteq> 5 then Some (exits 2 [] benchmark_usage)
      else
        (case benchmark_engine args of
           Inl e \<Rightarrow> Some (benchmark_failed [] e)
         | Inr e \<Rightarrow>
             if args ! 0 = ''single'' then
               map_option (\<lambda>r. exits 0 (benchmark_header @ print_result r) []) (single e)
             else if args ! 0 = ''multi'' then
               map_option (\<lambda>r. exits 0 (benchmark_header @ print_result r) []) (multi e)
             else Some (benchmark_failed benchmark_header (Invalid_argument ''mode must be single or multi''))))"

section \<open>The profile runner\<close>

text \<open>
  \<open>performance_profile_runner.cpp\<close>: multithreaded runs of one engine until a deadline. The results of the
  runs that start before it are the argument.
\<close>

definition profile_config :: benchmark_config where
  "profile_config =
     \<lparr>worker_count = 8, workload_size = 1000000, chunk_size = 256, queue_capacity = 1024,
      access_pattern = CacheLocal, queue_batch_size = 8\<rparr>"

fun profile_loop :: "benchmark_result list \<Rightarrow> u64 \<Rightarrow> u64 \<Rightarrow> u64 \<times> u64" where
  "profile_loop [] checksum runs = (checksum, runs)"
| "profile_loop (result # rest) checksum runs =
     profile_loop rest (checksum XOR br_checksum result) (runs + 1)"

definition profile_main :: "benchmark_result list \<Rightarrow> outcome" where
  "profile_main results =
     (let (checksum, runs) = profile_loop results 0 0
      in exits 0 (text_line (''profile_runs='' @ to_string_u64 runs @ '' checksum='' @ to_string_u64 checksum)) [])"

end
