(* ===== verification/Pool_Accounts.thy ===== *)
theory Pool_Accounts
  imports Worker_Pool
begin

text \<open>
  The counters of the worker pool. \<open>account_inv\<close> holds in every reachable state (\<open>pool_reach_accounts\<close>):
  the queue lock is counted at most once per task and once more per worker, and at least once per worker
  that is done; it is contended at most as often as it is acquired; and every task that was run has left one
  latency. It is what bounds the reported
  counters and keeps the contention rate between zero and one.
\<close>

section \<open>Sums over the workers\<close>

text \<open>What a worker has recorded and not merged yet, as a number.\<close>

definition held :: "(worker \<Rightarrow> nat) \<Rightarrow> worker \<Rightarrow> nat" where
  "held f w = (if worker_phase w = Finished then 0 else f w)"

definition locks :: "worker \<Rightarrow> nat" where
  "locks w = unat (lock_acquisitions (worker_metrics w))"

definition contended_locks :: "worker \<Rightarrow> nat" where
  "contended_locks w = unat (contended_lock_acquisitions (worker_metrics w))"

definition recorded :: "worker \<Rightarrow> nat" where
  "recorded w = length (worker_latencies w)"

text \<open>A worker past the acquisition of the lock that has not taken a batch with it.\<close>

definition credit :: "worker \<Rightarrow> nat" where
  "credit w = (case worker_phase w of Locking \<Rightarrow> 0 | Running ts \<Rightarrow> 0 | _ \<Rightarrow> 1)"

definition untaken :: "pool \<Rightarrow> nat" where
  "untaken s = length (pool_queue s) + length (unqueued (pool_producer s))"

definition account_inv :: "nat \<Rightarrow> pool \<Rightarrow> bool" where
  "account_inv n s \<longleftrightarrow>
     unat (lock_acquisitions (aggregate_metrics s)) + (\<Sum>w\<leftarrow>pool_workers s. held locks w) + untaken s \<le>
       n + (\<Sum>w\<leftarrow>pool_workers s. credit w) \<and>
     unat (contended_lock_acquisitions (aggregate_metrics s)) + (\<Sum>w\<leftarrow>pool_workers s. held contended_locks w) \<le>
       unat (lock_acquisitions (aggregate_metrics s)) + (\<Sum>w\<leftarrow>pool_workers s. held locks w) \<and>
     length (aggregate_latencies s) + (\<Sum>w\<leftarrow>pool_workers s. held recorded w + length (running_tasks w)) + untaken s = n \<and>
     (\<Sum>w\<leftarrow>pool_workers s. credit w) \<le>
       unat (lock_acquisitions (aggregate_metrics s)) + (\<Sum>w\<leftarrow>pool_workers s. held locks w)"

lemma sum_workers_member: "i < length ws \<Longrightarrow> f (ws ! i) \<le> (\<Sum>w\<leftarrow>ws. f w :: nat)"
  by (metis elem_le_sum_list length_map nth_map)

lemma credits_le: "(\<Sum>w\<leftarrow>ws. credit w) \<le> length ws"
  by (induction ws) (simp_all add: credit_def split: worker_phase.splits)

lemma unat_add_small:
  "unat (a :: u64) + unat b < 2 ^ 64 \<Longrightarrow> unat (a + b) = unat a + unat b"
  by (simp add: unat_word_ariths)

section \<open>The steps\<close>

text \<open>Replacing one worker: the balances of its move.\<close>

lemma account_set_worker:
  assumes inv: "account_inv n s" and i: "i < length (pool_workers s)"
    and workers: "pool_workers t = (pool_workers s)[i := v]"
    and lock: "unat (lock_acquisitions (aggregate_metrics t)) + held locks v + untaken t +
        credit (pool_workers s ! i) \<le>
      unat (lock_acquisitions (aggregate_metrics s)) + held locks (pool_workers s ! i) + untaken s + credit v"
    and cont: "unat (contended_lock_acquisitions (aggregate_metrics t)) + held contended_locks v +
        unat (lock_acquisitions (aggregate_metrics s)) + held locks (pool_workers s ! i) \<le>
      unat (contended_lock_acquisitions (aggregate_metrics s)) + held contended_locks (pool_workers s ! i) +
        unat (lock_acquisitions (aggregate_metrics t)) + held locks v"
    and lat: "length (aggregate_latencies t) + held recorded v + length (running_tasks v) + untaken t =
      length (aggregate_latencies s) + held recorded (pool_workers s ! i) +
        length (running_tasks (pool_workers s ! i)) + untaken s"
    and once: "credit v + unat (lock_acquisitions (aggregate_metrics s)) + held locks (pool_workers s ! i) \<le>
      credit (pool_workers s ! i) + unat (lock_acquisitions (aggregate_metrics t)) + held locks v"
  shows "account_inv n t"
proof -
  note sums = sum_list_map_update [OF i, of "held locks" v] sum_list_map_update [OF i, of "held contended_locks" v]
    sum_list_map_update [OF i, of credit v]
    sum_list_map_update [OF i, of "\<lambda>w. held recorded w + length (running_tasks w)" v]
  show ?thesis
    using inv lock cont lat once sums unfolding account_inv_def workers by linarith
qed

text \<open>The counters stay small, so that they do not wrap.\<close>

lemma account_bounds:
  assumes inv: "account_inv n s"
  shows "unat (lock_acquisitions (aggregate_metrics s)) + (\<Sum>w\<leftarrow>pool_workers s. held locks w) \<le>
      n + length (pool_workers s)"
  using inv credits_le [of "pool_workers s"] unfolding account_inv_def by linarith

lemma account_worker_bounds:
  assumes inv: "account_inv n s" and i: "i < length (pool_workers s)"
  shows "unat (lock_acquisitions (aggregate_metrics s)) + held locks (pool_workers s ! i) \<le> n + length (pool_workers s)"
    and "unat (contended_lock_acquisitions (aggregate_metrics s)) + held contended_locks (pool_workers s ! i) \<le>
      n + length (pool_workers s)"
  using account_bounds [OF inv] inv sum_workers_member [OF i, of "held locks"]
    sum_workers_member [OF i, of "held contended_locks"]
  unfolding account_inv_def by linarith+

lemma credit_simps [simp]:
  "worker_phase w = Locking \<Longrightarrow> credit w = 0" "worker_phase w = Running ts \<Longrightarrow> credit w = 0"
  "worker_phase w = Sleeping \<Longrightarrow> credit w = 1" "worker_phase w = Waking \<Longrightarrow> credit w = 1"
  "worker_phase w = Merging \<Longrightarrow> credit w = 1" "worker_phase w = Finished \<Longrightarrow> credit w = 1"
  by (simp_all add: credit_def)

lemma held_update [simp]:
  "held locks (w\<lparr>worker_phase := p\<rparr>) = (if p = Finished then 0 else locks w)"
  "held contended_locks (w\<lparr>worker_phase := p\<rparr>) = (if p = Finished then 0 else contended_locks w)"
  "held recorded (w\<lparr>worker_phase := p\<rparr>) = (if p = Finished then 0 else recorded w)"
  by (simp_all add: held_def locks_def contended_locks_def recorded_def)

text \<open>A worker that holds the lock: \<open>w\<close> is the worker after the acquisition was counted.\<close>

lemma decide_accounts:
  assumes inv: "account_inv n s" and i: "i < length (pool_workers s)"
    and old: "worker_phase (pool_workers s ! i) \<in> {Locking, Waking}"
    and batch: "0 < queue_batch_size (engine_config e)"
    and w: "locks w + credit (pool_workers s ! i) = locks (pool_workers s ! i) + 1"
      "contended_locks w + locks (pool_workers s ! i) \<le> contended_locks (pool_workers s ! i) + locks w"
      "recorded w = recorded (pool_workers s ! i)"
  shows "account_inv n (decide e i w s)"
proof -
  let ?o = "pool_workers s ! i"
  let ?k = "min (queue_batch_size (engine_config e)) (length (pool_queue s))"
  have o: "running_tasks ?o = []" "held locks ?o = locks ?o" "held contended_locks ?o = contended_locks ?o"
    "held recorded ?o = recorded ?o"
    using old by (auto simp: held_def)
  consider (idle) p where "p \<in> {Sleeping, Merging}" "decide e i w s = set_worker i (w\<lparr>worker_phase := p\<rparr>) s"
    | (taken) "pool_queue s \<noteq> []" "decide e i w s = set_worker i (w\<lparr>worker_phase := Running (take ?k (pool_queue s))\<rparr>)
        (s\<lparr>pool_queue := drop ?k (pool_queue s), pool_producer := notify_not_full (pool_producer s)\<rparr>)"
    by (cases "pool_queue s = []"; cases "producer_finished s") (auto simp: decide_def Let_def)
  then show ?thesis
  proof cases
    case idle
    show ?thesis
      unfolding idle(2)
      by (rule account_set_worker [OF inv i, where v = "w\<lparr>worker_phase := p\<rparr>"])
        (use idle(1) w o in \<open>auto simp: set_worker_def untaken_def\<close>)
  next
    case taken
    define k where "k = ?k"
    have k: "0 < k" "k \<le> length (pool_queue s)" using taken(1) batch by (simp_all add: k_def)
    show ?thesis
      unfolding taken(2) [folded k_def]
      by (rule account_set_worker [OF inv i, where v = "w\<lparr>worker_phase := Running (take k (pool_queue s))\<rparr>"])
        (use k w o in \<open>simp_all add: set_worker_def untaken_def\<close>)
  qed
qed

lemma unat_inc: "unat (w :: u64) + 1 < 2 ^ 64 \<Longrightarrow> unat (w + 1) = unat w + 1"
  using unat_add_small [of w 1] by simp

lemma acquire_accounts:
  assumes inv: "account_inv n s" and i: "i < length (pool_workers s)"
    and old: "worker_phase (pool_workers s ! i) = Locking"
    and batch: "0 < queue_batch_size (engine_config e)" and small: "n + length (pool_workers s) + 1 < 2 ^ 64"
  shows "account_inv n (decide e i (count_lock contended wait_ns (pool_workers s ! i)) s)"
proof -
  let ?w = "pool_workers s ! i" let ?v = "count_lock contended wait_ns ?w"
  have "locks ?w + 1 < 2 ^ 64" "contended_locks ?w + 1 < 2 ^ 64"
    using account_worker_bounds [OF inv i] old small by (simp_all add: held_def)
  then have "locks ?v = locks ?w + 1" "contended_locks ?v = contended_locks ?w + (if contended then 1 else 0)"
    "recorded ?v = recorded ?w"
    by (simp_all add: count_lock_def Let_def locks_def contended_locks_def recorded_def unat_inc)
  then show ?thesis
    using old by (intro decide_accounts [OF inv i _ batch]) simp_all
qed

text \<open>A worker that merges: the sums of the counters do not wrap.\<close>

lemma merge_accounts:
  assumes inv: "account_inv n s" and i: "i < length (pool_workers s)"
    and old: "worker_phase (pool_workers s ! i) = Merging" and small: "n + length (pool_workers s) + 1 < 2 ^ 64"
  shows "account_inv n (merge_worker i (pool_workers s ! i) s)"
proof -
  let ?w = "pool_workers s ! i" let ?a = "aggregate_metrics s"
  have h: "held locks ?w = locks ?w" "held contended_locks ?w = contended_locks ?w" "held recorded ?w = recorded ?w"
    using old by (simp_all add: held_def)
  have "unat (lock_acquisitions ?a) + locks ?w < 2 ^ 64" "unat (contended_lock_acquisitions ?a) + contended_locks ?w < 2 ^ 64"
    using account_worker_bounds [OF inv i] small unfolding h by linarith+
  then have "unat (lock_acquisitions ?a + lock_acquisitions (worker_metrics ?w)) = unat (lock_acquisitions ?a) + locks ?w"
    "unat (contended_lock_acquisitions ?a + contended_lock_acquisitions (worker_metrics ?w)) =
      unat (contended_lock_acquisitions ?a) + contended_locks ?w"
    unfolding locks_def contended_locks_def by (simp_all only: unat_add_small)
  then show ?thesis
    by (intro account_set_worker [OF inv i, where v = "?w\<lparr>worker_phase := Finished\<rparr>"])
      (use old h in \<open>simp_all add: merge_worker_def set_worker_def add_metrics_def untaken_def recorded_def\<close>)
qed

lemma task_accounts:
  assumes inv: "account_inv n s" and i: "i < length (pool_workers s)"
    and old: "worker_phase (pool_workers s ! i) = Running (t # ts)"
  shows "account_inv n (run_task e i (pool_workers s ! i) t ts q l s)"
proof -
  let ?w = "pool_workers s ! i"
  have m: "lock_acquisitions (snd (process_work e t m)) = lock_acquisitions m"
    "contended_lock_acquisitions (snd (process_work e t m)) = contended_lock_acquisitions m" for m
    by (simp_all add: process_work_def Let_def split: prod.split)
  let ?v = "?w\<lparr>worker_phase := Running ts,
    worker_metrics := snd (process_work e t ((worker_metrics ?w)\<lparr>queue_wait_ns := queue_wait_ns (worker_metrics ?w) + q\<rparr>)),
    worker_latencies := worker_latencies ?w @ [l]\<rparr>"
  show ?thesis
    by (rule account_set_worker [OF inv i, where v = ?v])
      (use old m in \<open>simp_all add: run_task_def Let_def case_prod_beta set_worker_def untaken_def held_def locks_def
        contended_locks_def recorded_def\<close>)
qed

lemma phase_accounts:
  assumes "account_inv n s" and "i < length (pool_workers s)"
    and "credit v = credit (pool_workers s ! i)" and "held locks v = held locks (pool_workers s ! i)"
    and "held contended_locks v = held contended_locks (pool_workers s ! i)"
    and "held recorded v = held recorded (pool_workers s ! i)"
    and "running_tasks v = running_tasks (pool_workers s ! i)"
  shows "account_inv n (set_worker i v s)"
  by (rule account_set_worker [OF assms(1,2), where v = v]) (use assms in \<open>simp_all add: set_worker_def untaken_def\<close>)

lemma notify_held [simp]:
  "held f (notify_sleeper w) = held f w" if "f (w\<lparr>worker_phase := Waking\<rparr>) = f w"
  using that by (simp add: held_def notify_sleeper_def)

lemma pool_step_accounts:
  "pool_step e b s t \<Longrightarrow> account_inv n s \<Longrightarrow> 0 < queue_batch_size (engine_config e) \<Longrightarrow>
     n + length (pool_workers s) + 1 < 2 ^ 64 \<Longrightarrow> account_inv n t"
proof (induction rule: pool_step.induct)
  case (acquire i s w c t)
  then show ?case using acquire_accounts by simp
next
  case (reacquire i s w)
  show ?case
    by (rule decide_accounts [OF reacquire(4,1) _ reacquire(5)]) (use reacquire(2,3) in simp_all)
next
  case (task i s w t ts q l)
  then show ?case using task_accounts by simp
next
  case (again i s w)
  then show ?case by (intro phase_accounts) (simp_all add: held_def locks_def contended_locks_def recorded_def)
next
  case (merge i s w)
  then show ?case using merge_accounts by simp
next
  case (push_wake s x xs i)
  have "account_inv n (push_item x xs s)"
    using push_wake(1,5) by (simp add: account_inv_def push_item_def untaken_def unqueued_def)
  then show ?case
    unfolding wake_worker_def
    by (rule phase_accounts)
      (use push_wake(3,4) in \<open>simp_all add: push_item_def held_def locks_def contended_locks_def recorded_def\<close>)
next
  case (worker_spurious i s)
  then show ?case
    unfolding wake_worker_def
    by (intro phase_accounts) (simp_all add: held_def locks_def contended_locks_def recorded_def)
next
  case (notify s)
  have c: "credit (notify_sleeper w) = credit w" for w by (simp add: notify_sleeper_def)
  show ?case
    using notify
    by (simp add: account_inv_def untaken_def unqueued_def comp_def c locks_def contended_locks_def recorded_def)
qed (simp_all add: account_inv_def push_item_def untaken_def unqueued_def)

lemma pool_step_workers: "pool_step e b s t \<Longrightarrow> length (pool_workers t) = length (pool_workers s)"
  by (induction rule: pool_step.induct)
    (simp_all add: decide_def run_task_def merge_worker_def wake_worker_def push_item_def set_worker_def Let_def
      case_prod_beta)

lemma initial_accounts: "account_inv (length items) (initial_pool e items)"
proof -
  have "(\<Sum>w\<leftarrow>replicate k new_worker. f w) = 0" if "f new_worker = 0" for f :: "worker \<Rightarrow> nat" and k
    using that by (induction k) simp_all
  note zero = this [of "held locks"] this [of "held contended_locks"] this [of credit]
    this [of "\<lambda>w. held recorded w + length (running_tasks w)"]
  show ?thesis
    using zero
    by (simp add: account_inv_def initial_pool_def untaken_def unqueued_def zero_metrics_def new_worker_def held_def
        locks_def contended_locks_def recorded_def)
qed

lemma pool_reach_accounts:
  assumes "pool_reach e s" and c: "0 < chunk_size (engine_config e)" and b: "0 < queue_batch_size (engine_config e)"
    and small: "length (work_items (engine_config e)) + worker_count (engine_config e) + 1 < 2 ^ 64"
  shows "account_inv (length (work_items (engine_config e))) s \<and> length (pool_workers s) = worker_count (engine_config e)"
proof -
  let ?items = "work_items (engine_config e)"
  have "(pool_step e True)\<^sup>*\<^sup>* (initial_pool e ?items) s"
    using assms(1) build_work_items_eq [OF c] by (auto simp: pool_reach_def)
  then show ?thesis
  proof (induction rule: rtranclp_induct)
    case base
    show ?case using initial_accounts by (simp add: initial_pool_def)
  next
    case (step s t)
    then show ?case using pool_step_accounts [OF step(2) _ b] pool_step_workers [OF step(2)] small by simp
  qed
qed

text \<open>What a run that has returned reports.\<close>

lemma returned_accounts:
  assumes inv: "account_inv n s" and "pool_queue s = []" and "pool_producer s = Returned"
    and "\<forall>w \<in> set (pool_workers s). worker_phase w = Finished"
  shows "unat (lock_acquisitions (aggregate_metrics s)) \<le> n + length (pool_workers s)"
    and "length (pool_workers s) \<le> unat (lock_acquisitions (aggregate_metrics s))"
    and "unat (contended_lock_acquisitions (aggregate_metrics s)) \<le> unat (lock_acquisitions (aggregate_metrics s))"
    and "length (aggregate_latencies s) = n"
proof -
  have sums: "(\<Sum>w\<leftarrow>ws. held f w) = 0" "(\<Sum>w\<leftarrow>ws. held f w + length (running_tasks w)) = 0"
    "(\<Sum>w\<leftarrow>ws. credit w) = length ws" if "\<forall>w \<in> set ws. worker_phase w = Finished" for f ws
    using that by (induction ws) (simp_all add: held_def)
  note sums = this [OF assms(4)]
  show "unat (lock_acquisitions (aggregate_metrics s)) \<le> n + length (pool_workers s)"
    "length (pool_workers s) \<le> unat (lock_acquisitions (aggregate_metrics s))"
    "unat (contended_lock_acquisitions (aggregate_metrics s)) \<le> unat (lock_acquisitions (aggregate_metrics s))"
    "length (aggregate_latencies s) = n"
    using inv assms(2,3) unfolding account_inv_def sums by (simp_all add: untaken_def unqueued_def)
qed

end
