(* ===== verification/Result_Properties.thy ===== *)
theory Result_Properties
  imports Engine_Results Engine_Properties Pool_Accounts
begin

text \<open>
  The properties of the reported results of the performance engine: percentiles stay inside the samples, how the
  bottleneck of a single-threaded run is classified, and what a multithreaded run reports.
\<close>

section \<open>Percentiles\<close>

text \<open>
  C33. For at most $2^{53}$ samples, none of them \<open>NaN\<close>, and a fraction between zero and one: whatever permutation in order
  \<open>std::sort\<close> leaves, it is the sorted list that \<open>percentile\<close> reads; the positions of the percentile are inside it, the
  lower one first; the result does not depend on the order of the samples; and the half of an odd number of them is the
  median.
\<close>

theorem percentile_safe:
  assumes "xs \<noteq> []" and "length xs \<le> 2 ^ 53" and "0 \<le> f" and "f \<le> 1" and "\<forall>x \<in> set xs. x \<noteq> NaN"
  shows "(\<forall>ys. mset ys = mset xs \<and> sorted_wrt (\<lambda>x y. \<not> dlt y x) ys \<longrightarrow> ys = sort xs) \<and>
    size_floor (dmul (Fin f) (of_size (length xs - 1))) \<le> size_ceil (dmul (Fin f) (of_size (length xs - 1))) \<and>
    size_ceil (dmul (Fin f) (of_size (length xs - 1))) < length (sort xs) \<and>
    (\<forall>ys. mset ys = mset xs \<longrightarrow> percentile ys (Fin f) = percentile xs (Fin f)) \<and>
    (f = 1 / 2 \<and> odd (length xs) \<longrightarrow> percentile xs (Fin f) = sort xs ! (length xs div 2))"
proof -
  have n: "length xs - 1 \<le> 2 ^ 53" using assms(2) by linarith
  note p = percentile_positions [OF n assms(3,4)]
  have "size_ceil (dmul (Fin f) (of_size (length xs - 1))) < length (sort xs)"
    using p(2) assms(1) by (cases xs) simp_all
  moreover have "percentile xs (Fin (1 / 2)) = sort xs ! (length xs div 2)" if odd: "odd (length xs)"
  proof -
    from odd obtain k where k: "length xs = 2 * k + 1" by (elim oddE)
    show ?thesis using percentile_median_odd [OF k assms(2)] k by simp
  qed
  ultimately show ?thesis using p(1) percentile_mset std_sort_unique [OF assms(5)] by blast
qed

theorem percentile_safe_witness:
  "percentile [Fin 7, Fin 1, Fin 4] (Fin (1 / 2)) = Fin 4"
  using percentile_safe [of "[Fin 7, Fin 1, Fin 4]" "1 / 2"] by simp

section \<open>The bottleneck of a single-threaded run\<close>

lemma quotient_positive:
  assumes "1 \<le> v" and "v \<le> 2 ^ 64" and "0 < d" and "d \<le> 2 ^ 20"
  shows "Fin 0 < ddiv (Fin v) (Fin d)"
proof -
  have t: "is_double (1 / 2 ^ 20)"
  proof -
    have e: "(of_int 1 :: rat) * 2 powi (- 20) = 1 / 2 ^ 20" by (simp add: power_int_def power_divide)
    have "round_val (of_int 1 * 2 powi (- 20)) = (of_int 1 * 2 powi (- 20) :: rat)" by (rule round_val_exact) simp_all
    then show ?thesis unfolding e by (simp add: is_double_def)
  qed
  have "1 / 2 ^ 20 \<le> v / d" by (rule frac_le) (use assms in simp_all)
  then have "round_double (1 / 2 ^ 20) \<le> round_double (v / d)" by (rule round_double_mono)
  then have le: "Fin (1 / 2 ^ 20) \<le> round_double (v / d)" by (simp only: round_double_exact [OF t])
  have "Fin 0 < Fin (1 / 2 ^ 20)" by simp
  also note le
  also have "round_double (v / d) = ddiv (Fin v) (Fin d)" using assms(3) by simp
  finally show ?thesis .
qed

lemma millis_order: "Fin 0 \<le> millis ns \<and> millis ns \<noteq> NaN \<and> (Fin 0 < millis ns \<longleftrightarrow> ns \<noteq> 0)"
proof -
  have "unat ns < 2 ^ 64" using unsigned_less [of ns] by simp
  then obtain v where v: "of_size (unat ns) = Fin v" "0 \<le> v" "v \<le> 2 ^ 64" "v = 0 \<longleftrightarrow> unat ns = 0"
    "unat ns = 0 \<or> 1 \<le> v" by (rule of_size_u64)
  show ?thesis
  proof (cases "ns = 0")
    case True
    then show ?thesis using round_double_exact [OF is_double_0] by (simp add: millis_def of_size_def)
  next
    case False
    then have "1 \<le> v" using v(5) by (simp add: unat_eq_zero)
    then have "Fin 0 < millis ns"
      unfolding millis_def v(1) by (rule quotient_positive [OF _ v(3)]) simp_all
    moreover have "millis ns \<noteq> NaN" by (simp add: millis_def v(1))
    ultimately show ?thesis using False by simp
  qed
qed

lemma dmul_nonneg:
  assumes "Fin 0 \<le> x" and "x \<noteq> NaN" and "0 < q"
  shows "\<not> dlt (dmul x (Fin q)) (Fin 0)"
proof (cases x)
  case (Fin r)
  then have "round_double 0 \<le> round_double (r * q)" using assms by (intro round_double_mono) simp
  then show ?thesis using Fin round_double_exact [OF is_double_0] by (simp add: dlt_def not_less)
next
  case (Infty s)
  then show ?thesis using assms by (auto simp: dlt_def)
qed (use assms in simp)

lemma fraction_double:
  assumes "1 / 8 \<le> q" and "q \<le> 1"
  obtains v where "round_double q = Fin v" and "0 < v"
proof -
  have "round_val (of_int 1 * 2 powi (- 3)) = (of_int 1 * 2 powi (- 3) :: rat)" by (rule round_val_exact) simp_all
  then have "round_val (1 / 8) = 1 / 8" by (simp add: power_int_def power_divide)
  then have "1 / 8 \<le> round_val q" using round_val_mono [OF assms(1)] by simp
  moreover have "is_double (round_val q)"
    using is_double_between [of 1 q] is_double_nat [of 1] assms by simp
  ultimately show ?thesis using that [of "round_val q"] by (simp add: round_double_Fin_iff)
qed

text \<open>
  C32. The bottleneck that a single-threaded run reports: the cache pattern when it is the
  unfriendly one and any time has passed; otherwise allocation pressure exactly when the chunk size does
  not divide the workload size, whatever the clock says, since the last, shorter chunk is an allocation that the
  rounded-down quotient does not count.
\<close>

theorem single_threaded_bottleneck:
  assumes "new_engine config = Inr e" and "single_threaded_result e latencies elapsed = Some r"
    and "workload_size config < 2 ^ 64"
  shows "br_bottleneck r =
    (if access_pattern config = CacheUnfriendly \<and> elapsed \<noteq> 0 then ''cache_locality_pressure''
     else if \<not> chunk_size config dvd workload_size config then ''allocation_pressure''
     else ''balanced'')"
proof -
  let ?n = "workload_size config" and ?c = "chunk_size config"
  have c: "0 < ?c" and e: "engine_config e = config" using assms(1) by (auto simp: new_engine_Inr)
  define m where "m = zero_metrics\<lparr>simulated_allocations := of_nat (item_count ?n ?c),
    tasks_completed := of_nat (item_count ?n ?c)\<rparr>"
  have len: "length (work_items config) = item_count ?n ?c" by (simp add: work_items_def)
  have r: "br_bottleneck r = classify_bottleneck e m (millis elapsed)"
    using assms(2) run_single_threaded_eq [of e] c
    by (auto simp: single_threaded_result_def e Let_def build_result_def m_def len)
  have zero: "ddiv (of_size 0) (Fin 1000000) = Fin 0"
    using round_double_exact [OF is_double_0] by (simp add: of_size_def)
  obtain p where p: "round_double (15 / 100) = Fin p" "0 < p" by (rule fraction_double [of "15 / 100"]) simp_all
  obtain q where q: "round_double (20 / 100) = Fin q" "0 < q" by (rule fraction_double [of "20 / 100"]) simp_all
  obtain h where h: "round_double (50 / 100) = Fin h" "0 < h" by (rule fraction_double [of "50 / 100"]) simp_all
  note ms = millis_order [of elapsed]
  have allocs: "unat (simulated_allocations m) = item_count ?n ?c"
  proof -
    have "item_count ?n ?c \<le> ?n"
    proof (rule ccontr)
      assume "\<not> item_count ?n ?c \<le> ?n"
      then have "?n * ?c < ?n" using item_count_less [OF c, of ?n ?n] by simp
      then show False using c by simp
    qed
    then have "item_count ?n ?c < 2 ^ 64" using assms(3) by linarith
    then show ?thesis by (simp add: m_def unat_of_nat take_bit_nat_eq_self)
  qed
  have pressure: "?n div ?c < item_count ?n ?c \<longleftrightarrow> \<not> ?c dvd ?n"
  proof -
    have "?n div ?c * ?c < ?n \<longleftrightarrow> ?n mod ?c \<noteq> 0" using div_mult_mod_eq [of ?n ?c] by linarith
    then show ?thesis by (simp only: item_count_less [OF c] dvd_eq_mod_eq_0)
  qed
  have "contention m = Fin 0" "lock_wait_ns m = 0" "queue_wait_ns m = 0"
    by (simp_all add: m_def contention_def zero_metrics_def)
  then show ?thesis
    unfolding r classify_bottleneck_def Let_def e p(1) q(1) h(1)
    using p(2) dmul_nonneg [of "millis elapsed" q] dmul_nonneg [of "millis elapsed" h] q(2) h(2) ms
    by (simp add: zero allocs pressure dle_def) (auto simp: dlt_def)
qed

theorem single_threaded_bottleneck_witness:
  "map_option br_bottleneck (single_threaded_result (engine_of (small_config CacheLocal)) [3000, 1000, 2000] 7000) =
     Some ''allocation_pressure''"
proof -
  have "run_single_threaded (engine_of (small_config CacheLocal)) \<noteq> None"
    using run_single_threaded_eq [of "engine_of (small_config CacheLocal)"] by (simp add: small_config_def Let_def)
  then obtain r where r: "single_threaded_result (engine_of (small_config CacheLocal)) [3000, 1000, 2000] 7000 = Some r"
    by (auto simp: single_threaded_result_def)
  then show ?thesis
    using single_threaded_bottleneck [OF small_engine r] by (simp add: small_config_def)
qed

section \<open>The result of a multithreaded run\<close>

text \<open>A rate of two counters, as both implementations compute it.\<close>

lemma rate_unit:
  assumes "unat (c :: u64) \<le> unat (l :: u64)" and "0 < unat l" and "unat l \<le> 2 ^ 53"
  shows "l \<noteq> 0 \<and> dle (Fin 0) (ddiv (of_size (unat c)) (of_size (unat l))) \<and>
    dle (ddiv (of_size (unat c)) (of_size (unat l))) (Fin 1)"
proof -
  have "l \<noteq> 0" using assms(2) by (metis less_irrefl unsigned_0)
  then show ?thesis using ddiv_unit [OF assms(1,3,2)] by blast
qed

text \<open>
  C22. The result that a multithreaded run reports, whatever the interleaving and the clock: checksum, tasks
  and allocations are those that the single-threaded run reports; there is one latency per task; every
  worker has acquired the queue lock, and all of them together at most once more per task; and the contention rate is
  a number between zero and one.
\<close>

theorem multithreaded_reports:
  assumes "new_engine config = Inr e" and "pool_reach e s" and "pool_producer s = Returned"
    and "length (work_items config) + worker_count config < 2 ^ 53"
  shows "\<exists>r q. multithreaded_result e s elapsed = Some r \<and> single_threaded_result e task_ns elapsed' = Some q \<and>
    br_checksum r = br_checksum q \<and> tasks_processed r = tasks_processed q \<and> br_allocations r = br_allocations q \<and>
    length (aggregate_latencies s) = tasks_processed r \<and>
    worker_count config \<le> unat (br_lock_acquisitions r) \<and>
    unat (br_lock_acquisitions r) \<le> tasks_processed r + worker_count config \<and>
    dle (Fin 0) (contention_rate r) \<and> dle (contention_rate r) (Fin 1)"
proof -
  have c: "0 < chunk_size config" and b: "0 < queue_batch_size config" and w: "0 < worker_count config"
    and e: "engine_config e = config" using assms(1) by (auto simp: new_engine_Inr)
  let ?n = "length (work_items config)" and ?m = "aggregate_metrics s"
  have "account_inv ?n s \<and> length (pool_workers s) = worker_count config"
    using pool_reach_accounts [OF assms(2)] c b e assms(4) by simp
  then have acc: "account_inv ?n s" "length (pool_workers s) = worker_count config" by simp_all
  note counts = returned_accounts [OF acc(1) returned_finished(2) [OF assms(1-3)] assms(3)
      returned_finished(1) [OF assms(1-3)], unfolded acc(2)]
  have rate: "dle (Fin 0) (contention ?m) \<and> dle (contention ?m) (Fin 1)"
    using rate_unit [OF counts(3)] counts(1,2) w assms(4) by (simp add: contention_def)
  obtain m where m: "run_single_threaded e = Some (pool_checksum s, m, ?n)"
    "simulated_allocations ?m = simulated_allocations m"
    using returned_agrees [OF assms(1-3)] run_single_threaded_eq [of e] c e by (auto simp: Let_def)
  show ?thesis
    using m counts rate assms(3) build_work_items_eq [of e] c e
    by (simp add: multithreaded_result_def single_threaded_result_def build_result_def Let_def)
qed

theorem multithreaded_reports_witness:
  "\<exists>s r. pool_reach (engine_of (small_config CacheLocal)) s \<and>
     multithreaded_result (engine_of (small_config CacheLocal)) s 5000 = Some r \<and>
     length (aggregate_latencies s) = tasks_processed r \<and> dle (contention_rate r) (Fin 1)"
proof -
  obtain s where s: "pool_reach (engine_of (small_config CacheLocal)) s" "pool_producer s = Returned"
    using small_returns by blast
  have "length (work_items (small_config CacheLocal)) + worker_count (small_config CacheLocal) < 2 ^ 53"
    by (simp add: work_items_def small_config_def item_count_def)
  from multithreaded_reports [OF small_engine s this] s(1) show ?thesis by blast
qed

text \<open>
  What the profile runner prints: all its runs have the same checksum, so that it says whether the number of runs
  was odd.
\<close>

lemma profile_loop_eq:
  assumes "\<forall>r \<in> set rs. br_checksum r = c"
  shows "profile_loop rs x n = (if odd (length rs) then x XOR c else x, n + of_nat (length rs))"
  using assms by (induction rs x n rule: profile_loop.induct) (simp_all add: xor.assoc)

theorem profile_checksum:
  assumes "new_engine profile_config = Inr e"
    and "\<forall>r \<in> set rs. \<exists>s elapsed. pool_reach e s \<and> multithreaded_result e s elapsed = Some r"
  shows "\<exists>c m n. run_single_threaded e = Some (c, m, n) \<and>
    fst (profile_loop rs 0 0) = (if odd (length rs) then c else 0)"
proof -
  have e: "engine_config e = profile_config" using assms(1) by (auto simp: new_engine_Inr)
  have "run_single_threaded e \<noteq> None"
    using run_single_threaded_eq [of e] by (simp add: e profile_config_def Let_def)
  then obtain c m n where run: "run_single_threaded e = Some (c, m, n)" by auto
  have "br_checksum r = c" if r: "r \<in> set rs" for r
  proof -
    obtain s elapsed where s: "pool_reach e s" "multithreaded_result e s elapsed = Some r" using assms(2) r by blast
    then have "pool_producer s = Returned" "br_checksum r = pool_checksum s"
      by (auto simp: multithreaded_result_def build_result_def Let_def split: if_splits)
    then show ?thesis using returned_agrees [OF assms(1) s(1)] run by auto
  qed
  then show ?thesis using profile_loop_eq [of rs c 0 0] run by simp
qed

end
