(* ===== verification/Pthread_Queue.thy ===== *)
theory Pthread_Queue
  imports Bounded_Fifo
begin

text \<open>
  The work queue of the C benchmark, \<open>benchmarks/pthreads_queue/src/pthread_queue.c\<close> and its header: a
  circular array behind a mutex and two condition variables. An operation is split at the points where it
  waits: \<open>push_locked\<close> and \<open>pop_locked\<close> are what it does each time it holds the mutex, \<open>None\<close> when it waits
  on its condition variable. The queue is a provider of \<open>bounded_fifo\<close>.
\<close>

section \<open>Data\<close>

record pthread_item =
  item_id :: u64
  item_begin :: nat
  item_end :: nat
  queued_at_ns :: u64

record pthread_queue =
  pq_slots :: "pthread_item list"
  pq_capacity :: nat
  pq_head :: nat
  pq_tail :: nat
  pq_count :: nat
  pq_closed :: bool
  pq_lock_acquisitions :: u64
  pq_contended :: u64
  pq_lock_wait_ns :: u64

text \<open>The codes of \<open>errno.h\<close> that the queue returns itself, as Linux numbers them.\<close>

definition ENOMEM :: int where "ENOMEM = 12"
definition EINVAL :: int where "EINVAL = 22"
definition ECANCELED :: int where "ECANCELED = 125"

definition zero_item :: pthread_item where
  "zero_item = \<lparr>item_id = 0, item_begin = 0, item_end = 0, queued_at_ns = 0\<rparr>"

section \<open>Operations\<close>

text \<open>
  \<open>pthread_work_queue_init\<close>: \<open>allocated\<close> is the success of \<open>calloc\<close>, the codes are what the three
  initialisations of the threads library return. An error leaves no queue.
\<close>

definition pthread_work_queue_init ::
  "bool \<Rightarrow> bool \<Rightarrow> int \<Rightarrow> int \<Rightarrow> int \<Rightarrow> nat \<Rightarrow> int + pthread_queue" where
  "pthread_work_queue_init null allocated mutex_rc not_empty_rc not_full_rc capacity =
     (if null \<or> capacity = 0 then Inl EINVAL
      else if \<not> allocated then Inl ENOMEM
      else if mutex_rc \<noteq> 0 then Inl mutex_rc
      else if not_empty_rc \<noteq> 0 then Inl not_empty_rc
      else if not_full_rc \<noteq> 0 then Inl not_full_rc
      else Inr \<lparr>pq_slots = replicate capacity zero_item, pq_capacity = capacity, pq_head = 0, pq_tail = 0,
                pq_count = 0, pq_closed = False, pq_lock_acquisitions = 0, pq_contended = 0,
                pq_lock_wait_ns = 0\<rparr>)"

text \<open>\<open>lock_queue\<close>, once the mutex is held; \<open>contended\<close> is \<open>EBUSY\<close> from \<open>pthread_mutex_trylock\<close>.\<close>

definition lock_queue :: "bool \<Rightarrow> u64 \<Rightarrow> u64 \<Rightarrow> pthread_queue \<Rightarrow> pthread_queue" where
  "lock_queue contended start_ns end_ns q =
     (let q = q\<lparr>pq_lock_acquisitions := pq_lock_acquisitions q + 1\<rparr>;
          q = (if contended then q\<lparr>pq_contended := pq_contended q + 1\<rparr> else q)
      in q\<lparr>pq_lock_wait_ns := pq_lock_wait_ns q + (end_ns - start_ns)\<rparr>)"

text \<open>\<open>wait_rc\<close> is what \<open>pthread_cond_wait\<close> returns, should it be called: an error ends the call with that code.\<close>

definition push_locked :: "int \<Rightarrow> pthread_item \<Rightarrow> pthread_queue \<Rightarrow> (int \<times> pthread_queue) option" where
  "push_locked wait_rc item q =
     (if pq_count q = pq_capacity q \<and> \<not> pq_closed q then if wait_rc = 0 then None else Some (wait_rc, q)
      else if pq_closed q then Some (ECANCELED, q)
      else Some (0, q\<lparr>pq_slots := (pq_slots q)[pq_tail q := item],
                      pq_tail := (pq_tail q + 1) mod pq_capacity q,
                      pq_count := pq_count q + 1\<rparr>))"

definition pop_locked :: "int \<Rightarrow> pthread_queue \<Rightarrow> (int \<times> pthread_item option \<times> pthread_queue) option" where
  "pop_locked wait_rc q =
     (if pq_count q = 0 \<and> \<not> pq_closed q then if wait_rc = 0 then None else Some (wait_rc, None, q)
      else if pq_count q = 0 \<and> pq_closed q then Some (0, None, q)
      else Some (1, Some (pq_slots q ! pq_head q),
                 q\<lparr>pq_head := (pq_head q + 1) mod pq_capacity q, pq_count := pq_count q - 1\<rparr>))"

text \<open>
  The calls with their guards, for a caller that does not have to wait: \<open>None\<close> for the queue is the null
  pointer, \<open>lock_rc\<close> is what locking the mutex returns, \<open>None\<close> as the result that the call waits.
\<close>

definition pthread_work_queue_push ::
  "int \<Rightarrow> int \<Rightarrow> pthread_queue option \<Rightarrow> pthread_item \<Rightarrow> (int \<times> pthread_queue option) option" where
  "pthread_work_queue_push lock_rc wait_rc queue item =
     (case queue of
        None \<Rightarrow> Some (EINVAL, None)
      | Some q \<Rightarrow>
          if lock_rc \<noteq> 0 then Some (lock_rc, Some q)
          else map_option (\<lambda>(rc, q). (rc, Some q)) (push_locked wait_rc item q))"

definition pthread_work_queue_pop ::
  "int \<Rightarrow> bool \<Rightarrow> u64 \<Rightarrow> u64 \<Rightarrow> int \<Rightarrow> pthread_queue option \<Rightarrow> bool \<Rightarrow>
     (int \<times> pthread_item option \<times> pthread_queue option) option" where
  "pthread_work_queue_pop lock_rc contended start_ns end_ns wait_rc queue item_null =
     (case queue of
        None \<Rightarrow> Some (EINVAL, None, None)
      | Some q \<Rightarrow>
          if item_null then Some (EINVAL, None, Some q)
          else if lock_rc \<noteq> 0 then Some (lock_rc, None, Some q)
          else map_option (\<lambda>(rc, item, q). (rc, item, Some q))
                 (pop_locked wait_rc (lock_queue contended start_ns end_ns q)))"

definition close_locked :: "pthread_queue \<Rightarrow> pthread_queue" where
  "close_locked q = q\<lparr>pq_closed := True\<rparr>"

definition pthread_work_queue_close :: "int \<Rightarrow> pthread_queue option \<Rightarrow> pthread_queue option" where
  "pthread_work_queue_close lock_rc queue =
     (case queue of None \<Rightarrow> None | Some q \<Rightarrow> if lock_rc \<noteq> 0 then Some q else Some (close_locked q))"

text \<open>\<open>pthread_work_queue_destroy\<close> frees the array and clears the pointer to it.\<close>

definition pthread_work_queue_destroy :: "pthread_queue option \<Rightarrow> pthread_queue option" where
  "pthread_work_queue_destroy queue = map_option (\<lambda>q. q\<lparr>pq_slots := []\<rparr>) queue"

section \<open>A bounded queue\<close>

definition pq_ok :: "pthread_queue \<Rightarrow> bool" where
  "pq_ok q \<longleftrightarrow> 0 < pq_capacity q \<and> length (pq_slots q) = pq_capacity q \<and> pq_head q < pq_capacity q \<and>
     pq_count q \<le> pq_capacity q \<and> pq_tail q = (pq_head q + pq_count q) mod pq_capacity q"

definition pq_items :: "pthread_queue \<Rightarrow> pthread_item list" where
  "pq_items q = ring_items (pq_slots q) (pq_head q) (pq_count q)"

lemma length_pq_items [simp]: "length (pq_items q) = pq_count q"
  by (simp add: pq_items_def)

lemma pq_items_empty [simp]: "pq_items q = [] \<longleftrightarrow> pq_count q = 0"
  by (simp add: pq_items_def)

lemma pq_init:
  "pthread_work_queue_init null allocated r1 r2 r3 n = Inr q \<Longrightarrow>
     pq_ok q \<and> pq_items q = [] \<and> pq_capacity q = n \<and> \<not> pq_closed q \<and> pq_lock_acquisitions q = 0 \<and> pq_contended q = 0"
  by (auto simp: pthread_work_queue_init_def pq_ok_def pq_items_def ring_items_def split: if_splits)

lemma pq_fields [simp]:
  "pq_ok (q\<lparr>pq_closed := c\<rparr>) = pq_ok q" "pq_items (q\<lparr>pq_closed := c\<rparr>) = pq_items q"
  "pq_ok (lock_queue b t u q) = pq_ok q" "pq_items (lock_queue b t u q) = pq_items q"
  "pq_closed (lock_queue b t u q) = pq_closed q" "pq_capacity (lock_queue b t u q) = pq_capacity q"
  "pq_count (lock_queue b t u q) = pq_count q"
  by (simp_all add: pq_ok_def pq_items_def lock_queue_def Let_def)

lemma push_locked_room:
  assumes "pq_ok q" and "\<not> pq_closed q" and "pq_count q < pq_capacity q"
  shows "\<exists>t. push_locked wait_rc x q = Some (0, t) \<and> pq_ok t \<and> pq_items t = pq_items q @ [x] \<and>
    pq_capacity t = pq_capacity q \<and> \<not> pq_closed t \<and> pq_lock_acquisitions t = pq_lock_acquisitions q \<and>
    pq_contended t = pq_contended q"
  using assms ring_push [of "pq_count q" "pq_slots q" "pq_head q" x]
  by (auto simp: push_locked_def pq_ok_def pq_items_def mod_Suc_eq)

lemma pop_locked_some:
  assumes "pq_ok q" and "pq_items q = x # xs"
  shows "\<exists>t. pop_locked wait_rc q = Some (1, Some x, t) \<and> pq_ok t \<and> pq_items t = xs \<and>
    pq_capacity t = pq_capacity q \<and> pq_closed t = pq_closed q \<and>
    pq_lock_acquisitions t = pq_lock_acquisitions q \<and> pq_contended t = pq_contended q"
proof -
  have c: "0 < pq_count q" using assms(2) length_pq_items [of q] by (simp del: length_pq_items)
  have d: "pq_slots q \<noteq> []" using assms(1) by (auto simp: pq_ok_def)
  obtain n where n: "pq_count q = Suc n" using c by (cases "pq_count q") auto
  have "pq_tail q = ((pq_head q + 1) mod pq_capacity q + (pq_count q - 1)) mod pq_capacity q"
    using assms(1) by (simp add: n pq_ok_def mod_add_left_eq)
  then show ?thesis
    using assms c ring_pop [OF c d, of "pq_head q"]
    by (auto simp: pop_locked_def pq_ok_def pq_items_def)
qed

text \<open>The operations on an open queue as those of the contract: one that would wait is refused.\<close>

definition pq_try_push :: "pthread_queue \<Rightarrow> pthread_item \<Rightarrow> pthread_queue option" where
  "pq_try_push q x =
     (case pthread_work_queue_push 0 0 (Some q) x of Some (rc, Some t) \<Rightarrow> if rc = 0 then Some t else None | _ \<Rightarrow> None)"

definition pq_try_pop :: "pthread_queue \<Rightarrow> (pthread_item \<times> pthread_queue) option" where
  "pq_try_pop q =
     (case pthread_work_queue_pop 0 False 0 0 0 (Some q) False of
        Some (rc, Some x, Some t) \<Rightarrow> if rc = 1 then Some (x, t) else None | _ \<Rightarrow> None)"

interpretation pq: bounded_fifo pq_items "\<lambda>q. pq_ok q \<and> \<not> pq_closed q" pq_capacity pq_try_push pq_try_pop
proof (unfold_locales, goal_cases)
  case (1 s)
  then show ?case by (simp add: pq_ok_def)
next
  case (2 s x)
  then show ?case by (simp add: pq_try_push_def pthread_work_queue_push_def push_locked_def)
next
  case (3 s x)
  then show ?case
    using push_locked_room [of s 0 x] by (auto simp: pq_try_push_def pthread_work_queue_push_def)
next
  case (4 s)
  then show ?case by (simp add: pq_try_pop_def pthread_work_queue_pop_def pop_locked_def)
next
  case (5 s x xs)
  then show ?case
    using pop_locked_some [of "lock_queue False 0 0 s" x xs 0]
    by (auto simp: pq_try_pop_def pthread_work_queue_pop_def)
qed

text \<open>What the pops of one caller give until one of them does not return an item.\<close>

fun pq_drain :: "nat \<Rightarrow> pthread_queue \<Rightarrow> pthread_item list \<times> int option" where
  "pq_drain 0 q = ([], None)"
| "pq_drain (Suc k) q =
     (case pop_locked 0 q of
        None \<Rightarrow> ([], None)
      | Some (rc, None, t) \<Rightarrow> ([], Some rc)
      | Some (rc, Some x, t) \<Rightarrow> (let (xs, r) = pq_drain k t in (x # xs, r)))"

lemma pq_drain_closed:
  "pq_ok q \<Longrightarrow> pq_closed q \<Longrightarrow> pq_items q = xs \<Longrightarrow> length xs < k \<Longrightarrow> pq_drain k q = (xs, Some 0)"
proof (induction xs arbitrary: q k)
  case Nil
  then show ?case by (cases k) (auto simp: pop_locked_def)
next
  case (Cons x xs)
  obtain t where t: "pop_locked 0 q = Some (1, Some x, t)" "pq_ok t" "pq_items t = xs" "pq_closed t"
    using pop_locked_some [OF Cons.prems(1,3)] Cons.prems(2) by auto
  obtain j where k: "k = Suc j" using Cons.prems(4) by (cases k) auto
  then have "pq_drain j t = (xs, Some 0)" using Cons.IH t(2-4) Cons.prems(4) by simp
  then show ?case by (simp add: k t(1))
qed

end
