(* ===== verification/Pthread_Support.thy ===== *)
theory Pthread_Support
  imports Percentile "HOL-Library.Multiset"
begin

text \<open>
  What the C benchmark builds on: the clock of \<open>pthread_queue.c\<close>, and the comparison functions, \<open>qsort\<close> and
  \<open>percentile\<close> of \<open>pthread_queue_benchmark.c\<close>. The C library leaves open in which order \<open>qsort\<close> puts elements that
  compare equal; the locale \<open>comparison_function\<close> shows that with a comparison function that decides a linear order the result is
  fixed, and that it is the sorted list.
\<close>

section \<open>The clock\<close>

record timespec =
  tv_sec :: int
  tv_nsec :: int

text \<open>\<open>pthread_queue_now_ns\<close>: \<open>rc\<close> and \<open>ts\<close> are what \<open>clock_gettime\<close> returns and stores.\<close>

definition pthread_queue_now_ns :: "int \<Rightarrow> timespec \<Rightarrow> u64" where
  "pthread_queue_now_ns rc ts =
     (if rc \<noteq> 0 then 0 else word_of_int (tv_sec ts) * 1000000000 + word_of_int (tv_nsec ts))"

definition timespec_ok :: "timespec \<Rightarrow> bool" where
  "timespec_ok ts \<longleftrightarrow> 0 \<le> tv_sec ts \<and> tv_sec ts < 18446744073 \<and> 0 \<le> tv_nsec ts \<and> tv_nsec ts < 1000000000"

text \<open>For 584 years of uptime the reading is exact, and the difference of two readings is the time between them.\<close>

lemma now_ns_exact:
  assumes "timespec_ok ts"
  shows "uint (pthread_queue_now_ns 0 ts) = tv_sec ts * 1000000000 + tv_nsec ts"
proof -
  let ?v = "tv_sec ts * 1000000000 + tv_nsec ts"
  have v: "0 \<le> ?v" "?v < 2 ^ 64" using assms by (simp_all add: timespec_ok_def)
  have "pthread_queue_now_ns 0 ts = word_of_int ?v"
    by (simp add: pthread_queue_now_ns_def wi_hom_add [symmetric] wi_hom_mult [symmetric])
  then have "uint (pthread_queue_now_ns 0 ts) = ?v mod 2 ^ 64" by (simp only: uint_word_of_int) simp
  then show ?thesis using v by simp
qed

lemma now_ns_elapsed:
  assumes "timespec_ok a" and "timespec_ok b"
    and "tv_sec a * 1000000000 + tv_nsec a \<le> tv_sec b * 1000000000 + tv_nsec b"
  shows "uint (pthread_queue_now_ns 0 b - pthread_queue_now_ns 0 a) =
    (tv_sec b - tv_sec a) * 1000000000 + (tv_nsec b - tv_nsec a)"
proof -
  have "uint (pthread_queue_now_ns 0 a) \<le> uint (pthread_queue_now_ns 0 b)"
    using assms by (simp add: now_ns_exact)
  then have "uint (pthread_queue_now_ns 0 b - pthread_queue_now_ns 0 a) =
      uint (pthread_queue_now_ns 0 b) - uint (pthread_queue_now_ns 0 a)"
    by (simp only: uint_sub_lem)
  then show ?thesis using assms by (simp add: now_ns_exact algebra_simps)
qed

section \<open>Sorting with a comparison function\<close>

type_synonym 'a comparison = "'a \<Rightarrow> 'a \<Rightarrow> int"

definition compare_uint64 :: "u64 comparison" where
  "compare_uint64 a b = (if a < b then - 1 else if b < a then 1 else 0)"

definition compare_double :: "double comparison" where
  "compare_double da db = (if dlt da db then - 1 else if dlt db da then 1 else 0)"

fun c_insert :: "'a comparison \<Rightarrow> 'a \<Rightarrow> 'a list \<Rightarrow> 'a list" where
  "c_insert compar x [] = [x]"
| "c_insert compar x (y # ys) = (if compar x y \<le> 0 then x # y # ys else y # c_insert compar x ys)"

definition c_qsort :: "'a comparison \<Rightarrow> 'a list \<Rightarrow> 'a list" where
  "c_qsort compar xs = foldr (c_insert compar) xs []"

lemma mset_c_insert [simp]: "mset (c_insert compar x ys) = add_mset x (mset ys)"
  by (induction ys) simp_all

lemma mset_c_qsort [simp]: "mset (c_qsort compar xs) = mset xs"
  by (induction xs) (simp_all add: c_qsort_def)

lemma length_c_qsort [simp]: "length (c_qsort compar xs) = length xs"
  using mset_c_qsort mset_eq_length by blast

text \<open>
  A comparison function that decides a linear order on the elements that are \<open>proper\<close>. Whatever
  \<open>qsort\<close> does, its result is a permutation that the comparison function finds in order; there is one.
\<close>

locale comparison_function =
  fixes compar :: "('a :: linorder) comparison" and proper :: "'a \<Rightarrow> bool"
  assumes decides: "proper x \<Longrightarrow> proper y \<Longrightarrow> compar x y \<le> 0 \<longleftrightarrow> x \<le> y"
begin

lemma ordered_iff:
  "\<forall>x \<in> set xs. proper x \<Longrightarrow> sorted_wrt (\<lambda>x y. compar x y \<le> 0) xs \<longleftrightarrow> sorted xs"
  by (induction xs) (auto simp: decides)

theorem result_unique:
  assumes "\<forall>x \<in> set xs. proper x" and "mset ys = mset xs" and "sorted_wrt (\<lambda>x y. compar x y \<le> 0) ys"
  shows "ys = sort xs"
proof -
  have "set ys = set xs" using assms(2) by (metis set_mset_mset)
  then have "sorted ys" using assms(1,3) ordered_iff by metis
  then show ?thesis using assms(2) by (metis properties_for_sort)
qed

lemma c_insert_ordered:
  assumes "proper x" and "\<forall>y \<in> set ys. proper y" and "sorted ys"
  shows "sorted (c_insert compar x ys)"
  using assms
proof (induction ys)
  case (Cons y ys)
  have s: "set (c_insert compar x ys) = insert x (set ys)" by (metis mset_c_insert set_mset_add_mset_insert set_mset_mset)
  have "sorted (c_insert compar x ys)" using Cons by simp
  then show ?case using Cons.prems by (auto simp: decides s)
qed simp

lemma qsort_sorts: "\<forall>x \<in> set xs. proper x \<Longrightarrow> c_qsort compar xs = sort xs"
proof -
  assume p: "\<forall>x \<in> set xs. proper x"
  have "sorted (c_qsort compar xs)"
    using p
  proof (induction xs)
    case (Cons x xs)
    have "set (c_qsort compar xs) = set xs" by (metis mset_c_qsort set_mset_mset)
    then show ?case using Cons c_insert_ordered [of x "c_qsort compar xs"] by (simp add: c_qsort_def)
  qed (simp add: c_qsort_def)
  moreover have "set (c_qsort compar xs) = set xs" by (metis mset_c_qsort set_mset_mset)
  ultimately show ?thesis by (metis mset_c_qsort properties_for_sort)
qed

end

interpretation words: comparison_function compare_uint64 "\<lambda>_. True"
  by unfold_locales (auto simp: compare_uint64_def)

interpretation numbers: comparison_function compare_double "\<lambda>x. x \<noteq> NaN"
  by unfold_locales (auto simp: compare_double_def dlt_def)

section \<open>The percentile of the benchmark\<close>

text \<open>
  \<open>percentile\<close>, which sorts the first \<open>n\<close> elements of the array of its caller: the value, and the
  array as it is left.
\<close>

definition c_percentile :: "double list \<Rightarrow> nat \<Rightarrow> double \<Rightarrow> double \<times> double list" where
  "c_percentile values0 n fraction =
     (if n = 0 then (Fin 0, values0)
      else
        (let values = c_qsort compare_double (take n values0) @ drop n values0;
             position = dmul fraction (of_size (n - 1));
             lower = size_floor position;
             upper = size_ceil position
         in if lower = upper then (values ! lower, values)
            else
              (let weight = dsub position (of_size lower)
               in (dadd (dmul (values ! lower) (dsub (Fin 1) weight)) (dmul (values ! upper) weight), values))))"

text \<open>It is the \<open>percentile\<close> of the C++ engine on these elements.\<close>

lemma c_percentile_eq:
  assumes "\<forall>x \<in> set values. x \<noteq> NaN"
  shows "c_percentile values (length values) f = (percentile values f, sort values)"
proof (cases "values = []")
  case True
  then show ?thesis by (simp add: c_percentile_def percentile_def)
next
  case False
  then show ?thesis
    using numbers.qsort_sorts [OF assms] by (simp add: c_percentile_def percentile_def Let_def)
qed

end
