(* ===== verification/Pthread_Benchmark.thy ===== *)
theory Pthread_Benchmark
  imports Pthread_Queue Pthread_Support Engine_Results Engine_Properties
begin

text \<open>
  The C benchmark, \<open>benchmarks/pthreads_queue/src/pthread_queue_benchmark.c\<close>: \<open>process_item\<close>, the worker
  threads and the feeding loop of \<open>main\<close> as a step relation over the queue of \<open>Pthread_Queue\<close>, and what \<open>main\<close>
  prints. A step is what one thread does between two points at which another can interfere. The mutex
  and the condition variables are those of a default configuration: locking and waiting succeed. \<open>spurious\<close>
  admits wake-ups without a signal, \<open>faulty\<close> a failing \<open>malloc\<close> in a worker; the clock and
  \<open>pthread_mutex_trylock\<close> are free in every step. A \<open>size_t\<close> is a \<open>nat\<close>, as in \<open>Performance_Engine\<close>, except in
  \<open>data_bytes\<close>; a thread that has not been created yet is one that has not moved.
\<close>

section \<open>Processing an item\<close>

fun fill_temporary :: "u64 list \<Rightarrow> nat list \<Rightarrow> u64 list \<Rightarrow> u64 \<Rightarrow> u64 list \<times> u64" where
  "fill_temporary data [] temporary checksum = (temporary, checksum)"
| "fill_temporary data (index # rest) temporary checksum =
     (let value = data ! index XOR of_nat (index * 17)
      in fill_temporary data rest (temporary @ [value]) (checksum + value))"

definition process_item :: "bool \<Rightarrow> u64 list \<Rightarrow> pthread_item \<Rightarrow> u64 \<Rightarrow> u64 \<times> u64" where
  "process_item allocated data item allocation_counter =
     (let count = item_end item - item_begin item
      in if \<not> allocated then (0, allocation_counter)
         else (let (temporary, checksum) = fill_temporary data (map (\<lambda>i. item_begin item + i) [0..<count]) [] 0
               in (xor_differences (c_qsort compare_uint64 temporary) checksum, allocation_counter + 1)))"

section \<open>The threads\<close>

datatype context_phase = Popping | Waiting | Woken | Working pthread_item | Exited

record worker_context =
  ctx_phase :: context_phase
  ctx_checksum :: u64
  ctx_tasks :: u64
  ctx_allocations :: u64
  ctx_latencies :: "u64 list"

text \<open>The feeding loop of \<open>main\<close> at its index, with the item it pushes.\<close>

datatype feeder =
  Stamping nat | Feeding nat pthread_item | Stalled nat pthread_item | Push_failed | Awaiting | Joined

record bench =
  b_queue :: pthread_queue
  b_feeder :: feeder
  b_contexts :: "worker_context list"

definition chunk :: nat where
  "chunk = 256"

definition task_count :: "nat \<Rightarrow> nat" where
  "task_count n = (n + chunk - 1) div chunk"

definition bench_data :: "nat \<Rightarrow> u64 list" where
  "bench_data n = map (\<lambda>i. (of_nat i * 2654435761) XOR drop_bit 3 (of_nat i)) [0..<n]"

text \<open>The bytes of the data, \<open>workload_size * sizeof(uint64_t)\<close>, as \<open>malloc\<close> is asked for them.\<close>

definition data_bytes :: "nat \<Rightarrow> u64" where
  "data_bytes n = of_nat n * 8"

definition make_item :: "nat \<Rightarrow> nat \<Rightarrow> u64 \<Rightarrow> pthread_item" where
  "make_item n i now =
     (let b = i * chunk; e = b + chunk
      in \<lparr>item_id = of_nat i, item_begin = b, item_end = (if n < e then n else e), queued_at_ns = now\<rparr>)"

definition new_context :: worker_context where
  "new_context =
     \<lparr>ctx_phase = Popping, ctx_checksum = 0, ctx_tasks = 0, ctx_allocations = 0, ctx_latencies = []\<rparr>"

definition initial_bench :: "nat \<Rightarrow> pthread_queue \<Rightarrow> bench" where
  "initial_bench workers q =
     \<lparr>b_queue = q, b_feeder = Stamping 0, b_contexts = replicate workers new_context\<rparr>"

section \<open>What the threads do\<close>

definition set_context :: "nat \<Rightarrow> worker_context \<Rightarrow> bench \<Rightarrow> bench" where
  "set_context i c s = s\<lparr>b_contexts := (b_contexts s)[i := c]\<rparr>"

text \<open>\<open>pthread_cond_signal(&queue->not_full)\<close>: only the feeder waits there.\<close>

definition signal_feeder :: "feeder \<Rightarrow> feeder" where
  "signal_feeder f = (case f of Stalled i item \<Rightarrow> Feeding i item | _ \<Rightarrow> f)"

text \<open>A worker in \<open>pthread_work_queue_pop\<close> that holds the mutex, and the loop of \<open>worker_main\<close> after the call.\<close>

definition pop_step :: "nat \<Rightarrow> bench \<Rightarrow> bench" where
  "pop_step i s =
     (let c = b_contexts s ! i
      in case pop_locked 0 (b_queue s) of
           None \<Rightarrow> set_context i (c\<lparr>ctx_phase := Waiting\<rparr>) s
         | Some (rc, Some item, q) \<Rightarrow>
             set_context i (c\<lparr>ctx_phase := Working item\<rparr>)
               (s\<lparr>b_queue := q, b_feeder := signal_feeder (b_feeder s)\<rparr>)
         | Some (rc, None, q) \<Rightarrow> set_context i (c\<lparr>ctx_phase := Exited\<rparr>) (s\<lparr>b_queue := q\<rparr>))"

text \<open>The body of the loop of \<open>worker_main\<close> on an item; \<open>end_ns\<close> is the clock after it.\<close>

definition work_step :: "nat \<Rightarrow> nat \<Rightarrow> bool \<Rightarrow> u64 \<Rightarrow> pthread_item \<Rightarrow> bench \<Rightarrow> bench" where
  "work_step n i allocated end_ns item s =
     (let c = b_contexts s ! i;
          (item_checksum, allocations) = process_item allocated (bench_data n) item (ctx_allocations c);
          c = c\<lparr>ctx_allocations := allocations\<rparr>;
          c = c\<lparr>ctx_checksum := ctx_checksum c XOR item_checksum\<rparr>;
          c = c\<lparr>ctx_tasks := ctx_tasks c + 1\<rparr>;
          c = (if length (ctx_latencies c) < task_count n
               then c\<lparr>ctx_latencies := ctx_latencies c @ [end_ns - queued_at_ns item]\<rparr> else c)
      in set_context i (c\<lparr>ctx_phase := Popping\<rparr>) s)"

definition wake_context :: "worker_context \<Rightarrow> worker_context" where
  "wake_context c = (if ctx_phase c = Waiting then c\<lparr>ctx_phase := Woken\<rparr> else c)"

inductive bench_step :: "nat \<Rightarrow> bool \<Rightarrow> bool \<Rightarrow> bench \<Rightarrow> bench \<Rightarrow> bool"
  for n :: nat and spurious :: bool and faulty :: bool where
  pop: "i < length (b_contexts s) \<Longrightarrow> ctx_phase (b_contexts s ! i) = Popping \<Longrightarrow>
    bench_step n spurious faulty s (pop_step i (s\<lparr>b_queue := lock_queue contended start_ns end_ns (b_queue s)\<rparr>))"
| resume: "i < length (b_contexts s) \<Longrightarrow> ctx_phase (b_contexts s ! i) = Woken \<Longrightarrow>
    bench_step n spurious faulty s (pop_step i s)"
| work: "i < length (b_contexts s) \<Longrightarrow> ctx_phase (b_contexts s ! i) = Working item \<Longrightarrow> allocated \<or> faulty \<Longrightarrow>
    bench_step n spurious faulty s (work_step n i allocated end_ns item s)"
| stamp: "b_feeder s = Stamping i \<Longrightarrow> i < task_count n \<Longrightarrow>
    bench_step n spurious faulty s (s\<lparr>b_feeder := Feeding i (make_item n i now)\<rparr>)"
| feed_signal: "b_feeder s = Feeding i item \<Longrightarrow> push_locked 0 item (b_queue s) = Some (0, q) \<Longrightarrow>
    j < length (b_contexts s) \<Longrightarrow> ctx_phase (b_contexts s ! j) = Waiting \<Longrightarrow>
    bench_step n spurious faulty s
      (set_context j (wake_context (b_contexts s ! j)) (s\<lparr>b_queue := q, b_feeder := Stamping (i + 1)\<rparr>))"
| feed_quiet: "b_feeder s = Feeding i item \<Longrightarrow> push_locked 0 item (b_queue s) = Some (0, q) \<Longrightarrow>
    \<forall>c \<in> set (b_contexts s). ctx_phase c \<noteq> Waiting \<Longrightarrow>
    bench_step n spurious faulty s (s\<lparr>b_queue := q, b_feeder := Stamping (i + 1)\<rparr>)"
| feed_wait: "b_feeder s = Feeding i item \<Longrightarrow> push_locked 0 item (b_queue s) = None \<Longrightarrow>
    bench_step n spurious faulty s (s\<lparr>b_feeder := Stalled i item\<rparr>)"
| feed_error: "b_feeder s = Feeding i item \<Longrightarrow> push_locked 0 item (b_queue s) = Some (rc, q) \<Longrightarrow> rc \<noteq> 0 \<Longrightarrow>
    bench_step n spurious faulty s (s\<lparr>b_queue := q, b_feeder := Push_failed\<rparr>)"
| close: "b_feeder s = Stamping i \<Longrightarrow> \<not> i < task_count n \<Longrightarrow>
    bench_step n spurious faulty s
      (s\<lparr>b_queue := close_locked (b_queue s), b_contexts := map wake_context (b_contexts s), b_feeder := Awaiting\<rparr>)"
| join: "b_feeder s = Awaiting \<Longrightarrow> \<forall>c \<in> set (b_contexts s). ctx_phase c = Exited \<Longrightarrow>
    bench_step n spurious faulty s (s\<lparr>b_feeder := Joined\<rparr>)"
| context_spurious: "spurious \<Longrightarrow> i < length (b_contexts s) \<Longrightarrow> ctx_phase (b_contexts s ! i) = Waiting \<Longrightarrow>
    bench_step n spurious faulty s (set_context i (wake_context (b_contexts s ! i)) s)"
| feeder_spurious: "spurious \<Longrightarrow> b_feeder s = Stalled i item \<Longrightarrow>
    bench_step n spurious faulty s (s\<lparr>b_feeder := Feeding i item\<rparr>)"

text \<open>The states that runs reach, with a queue of 1024 items; with \<open>faulty\<close> also those of runs in which \<open>malloc\<close> fails.\<close>

definition new_queue :: "int + pthread_queue" where
  "new_queue = pthread_work_queue_init False True 0 0 0 1024"

definition bench_reach :: "nat \<Rightarrow> nat \<Rightarrow> bool \<Rightarrow> bench \<Rightarrow> bool" where
  "bench_reach workers n faulty s \<longleftrightarrow>
     (\<exists>q. new_queue = Inr q \<and> (bench_step n True faulty)\<^sup>*\<^sup>* (initial_bench workers q) s)"

section \<open>The result\<close>

record bench_totals =
  total_checksum :: u64
  total_allocations :: u64
  total_tasks :: u64
  all_latencies :: "u64 list"

fun aggregate :: "worker_context list \<Rightarrow> bench_totals \<Rightarrow> bench_totals" where
  "aggregate [] totals = totals"
| "aggregate (c # rest) totals =
     aggregate rest
       \<lparr>total_checksum = total_checksum totals XOR ctx_checksum c,
        total_allocations = total_allocations totals + ctx_allocations c,
        total_tasks = total_tasks totals + ctx_tasks c,
        all_latencies = all_latencies totals @ ctx_latencies c\<rparr>"

definition totals_of :: "bench \<Rightarrow> bench_totals" where
  "totals_of s =
     aggregate (b_contexts s) \<lparr>total_checksum = 0, total_allocations = 0, total_tasks = 0, all_latencies = []\<rparr>"

definition bench_contention :: "pthread_queue \<Rightarrow> double" where
  "bench_contention q =
     (if pq_lock_acquisitions q = 0 then Fin 0
      else ddiv (of_size (unat (pq_contended q))) (of_size (unat (pq_lock_acquisitions q))))"

definition bench_header :: string where
  "bench_header =
     text_line (''implementation,workers,workload_size,'' @ ''tasks_processed,elapsed_ms,'' @
       ''throughput_items_per_second,'' @ ''p50_task_latency_us,'' @ ''p95_task_latency_us,'' @
       ''p99_task_latency_us,'' @ ''allocations,'' @ ''lock_acquisitions,'' @
       ''contended_lock_acquisitions,'' @ ''contention_rate,'' @ ''lock_wait_ms,'' @ ''checksum'')"

definition bench_row :: "nat \<Rightarrow> nat \<Rightarrow> u64 \<Rightarrow> bench \<Rightarrow> string" where
  "bench_row workers n elapsed_ns s =
     (let totals = totals_of s;
          q = b_queue s;
          elapsed = millis elapsed_ns;
          throughput = ddiv (of_size n) (ddiv elapsed (Fin 1000));
          all_latencies_us = map micros (all_latencies totals);
          all_latency_count = length all_latencies_us;
          (p50, all_latencies_us) = c_percentile all_latencies_us all_latency_count (round_double (50 / 100));
          (p95, all_latencies_us) = c_percentile all_latencies_us all_latency_count (round_double (95 / 100));
          (p99, all_latencies_us) = c_percentile all_latencies_us all_latency_count (round_double (99 / 100))
      in text_line (''c_pthreads,'' @ dec_string workers @ '','' @ dec_string n @ '','' @
           to_string_u64 (total_tasks totals) @ '','' @ format_fixed 4 elapsed @ '','' @
           format_fixed 4 throughput @ '','' @
           format_fixed 4 p50 @ '','' @
           format_fixed 4 p95 @ '','' @
           format_fixed 4 p99 @ '','' @
           to_string_u64 (total_allocations totals) @ '','' @ to_string_u64 (pq_lock_acquisitions q) @ '','' @
           to_string_u64 (pq_contended q) @ '','' @ format_fixed 6 (bench_contention q) @ '','' @
           format_fixed 6 (ddiv (of_size (unat (pq_lock_wait_ns q))) (Fin 1000000)) @ '','' @
           to_string_u64 (total_checksum totals)))"

text \<open>The three percentiles are those of the C++ engine, although the second and the third call sort an array that is already sorted.\<close>

lemma percentile_sort: "percentile (sort values) f = percentile values f"
  by (rule percentile_mset) simp

lemma c_percentiles:
  assumes "\<forall>x \<in> set values. x \<noteq> NaN"
  shows "c_percentile values (length values) f = (percentile values f, sort values)"
    and "c_percentile (sort values) (length values) f = (percentile values f, sort values)"
  using c_percentile_eq [OF assms] c_percentile_eq [of "sort values"] assms by (simp_all add: percentile_sort sorted_sort_id)

lemma bench_row_percentiles:
  "bench_row workers n elapsed_ns s =
     (let totals = totals_of s;
          q = b_queue s;
          elapsed = millis elapsed_ns;
          values = map micros (all_latencies totals)
      in text_line (''c_pthreads,'' @ dec_string workers @ '','' @ dec_string n @ '','' @
           to_string_u64 (total_tasks totals) @ '','' @ format_fixed 4 elapsed @ '','' @
           format_fixed 4 (ddiv (of_size n) (ddiv elapsed (Fin 1000))) @ '','' @
           format_fixed 4 (percentile values (round_double (50 / 100))) @ '','' @
           format_fixed 4 (percentile values (round_double (95 / 100))) @ '','' @
           format_fixed 4 (percentile values (round_double (99 / 100))) @ '','' @
           to_string_u64 (total_allocations totals) @ '','' @ to_string_u64 (pq_lock_acquisitions q) @ '','' @
           to_string_u64 (pq_contended q) @ '','' @ format_fixed 6 (bench_contention q) @ '','' @
           format_fixed 6 (ddiv (of_size (unat (pq_lock_wait_ns q))) (Fin 1000000)) @ '','' @
           to_string_u64 (total_checksum totals)))"
proof -
  have "\<forall>x \<in> set (map micros (all_latencies (totals_of s))). x \<noteq> NaN" by simp
  note c_percentiles [OF this]
  then show ?thesis unfolding bench_row_def Let_def by (simp only: length_sort split: prod.split) simp
qed

text \<open>\<open>strtoull(s, NULL, 10)\<close>, which reports no error.\<close>

definition strtoull :: "string \<Rightarrow> u64" where
  "strtoull s =
     (case sto_u64 ''strtoull'' s of Inr v \<Rightarrow> v | Inl (Out_of_range m) \<Rightarrow> - 1 | Inl _ \<Rightarrow> 0)"

text \<open>The arguments of \<open>main\<close>: an early exit, or the number of workers and the size of the workload.\<close>

definition bench_arguments :: "string list \<Rightarrow> outcome + nat \<times> nat" where
  "bench_arguments args =
     (if length args \<noteq> 2
      then Inl (exits 2 [] (text_line (''usage: pthread-queue-benchmark '' @ ''<workers> <workload_size>'')))
      else
        (let workers = unat (strtoull (args ! 0)); workload_size = unat (strtoull (args ! 1))
         in if workers = 0 \<or> workload_size = 0
            then Inl (exits 2 [] (text_line ''workers and workload must be > 0''))
            else Inr (workers, workload_size)))"

text \<open>The end of a run of \<open>main\<close>: after the join it prints, after a failed push it gives up.\<close>

definition bench_outcome :: "nat \<Rightarrow> nat \<Rightarrow> u64 \<Rightarrow> bench \<Rightarrow> outcome option" where
  "bench_outcome workers n elapsed_ns s =
     (case b_feeder s of
        Joined \<Rightarrow> Some (exits 0 (bench_header @ bench_row workers n elapsed_ns s) [])
      | Push_failed \<Rightarrow> Some (exits 1 [] (text_line ''queue push failed''))
      | _ \<Rightarrow> None)"

text \<open>
  \<open>main\<close>. What the system grants it: its own four allocations, the array of the queue and the three codes of the
  initialisation of the queue, the arrays of the workers, and the threads. \<open>s\<close> is the state of the threads when \<open>main\<close>
  is done with feeding and joining.
\<close>

record bench_system =
  sys_allocations :: bool
  sys_slots :: bool
  sys_codes :: "int \<times> int \<times> int"
  sys_latencies :: bool
  sys_threads :: bool

definition bench_setup :: "bench_system \<Rightarrow> outcome + pthread_queue" where
  "bench_setup sys =
     (let (mutex_rc, not_empty_rc, not_full_rc) = sys_codes sys
      in if \<not> sys_allocations sys then Inl (exits 1 [] (text_line ''allocation failed''))
         else
           (case pthread_work_queue_init False (sys_slots sys) mutex_rc not_empty_rc not_full_rc 1024 of
              Inl rc \<Rightarrow> Inl (exits 1 [] (text_line ''queue initialization failed''))
            | Inr q \<Rightarrow>
                if \<not> sys_latencies sys then Inl (exits 1 [] (text_line ''worker latency allocation failed''))
                else if \<not> sys_threads sys then Inl (exits 1 [] (text_line ''pthread_create failed''))
                else Inr q))"

definition bench_main :: "bench_system \<Rightarrow> string list \<Rightarrow> u64 \<Rightarrow> bench \<Rightarrow> outcome option" where
  "bench_main sys args elapsed_ns s =
     (case bench_arguments args of
        Inl out \<Rightarrow> Some out
      | Inr (workers, n) \<Rightarrow>
          (case bench_setup sys of Inl out \<Rightarrow> Some out | Inr q \<Rightarrow> bench_outcome workers n elapsed_ns s))"

end
