(* ===== verification/Pthread_Refinement.thy ===== *)
theory Pthread_Refinement
  imports Pthread_Benchmark Pool_Accounts
begin

text \<open>
  The C benchmark refines the worker pool of the performance engine. The locale \<open>stuttering_simulation\<close> is what a
  simulation gives: the reachable states correspond, and a bound on the abstract steps is one on the
  concrete steps. \<open>bench_rel\<close> relates the benchmark to the pool of an engine with the same
  chunks, one task per batch and the same capacity; the interpretation \<open>bench\<close> is the simulation. So what was proved of
  the pool holds of the C code: the order of the tasks, the checksum, the counters and the termination.
\<close>

section \<open>Simulations that stutter\<close>

locale stuttering_simulation =
  fixes cstep :: "'c \<Rightarrow> 'c \<Rightarrow> bool"
    and astep :: "'a \<Rightarrow> 'a \<Rightarrow> bool"
    and rel :: "'c \<Rightarrow> 'a \<Rightarrow> bool"
    and stutter :: "'c \<Rightarrow> nat"
  assumes sim: "rel s p \<Longrightarrow> cstep s t \<Longrightarrow>
      (\<exists>q. astep\<^sup>+\<^sup>+ p q \<and> rel t q) \<or> (rel t p \<and> stutter t < stutter s)"
    and stutter_le: "stutter s \<le> 1"
begin

lemma sim_reach: "cstep\<^sup>*\<^sup>* s t \<Longrightarrow> rel s p \<Longrightarrow> \<exists>q. astep\<^sup>*\<^sup>* p q \<and> rel t q"
proof (induction rule: rtranclp_induct)
  case base
  then show ?case by blast
next
  case (step t u)
  then obtain q where q: "astep\<^sup>*\<^sup>* p q" "rel t q" by blast
  from sim [OF q(2) step(2)] show ?case
  proof
    assume "\<exists>r. astep\<^sup>+\<^sup>+ q r \<and> rel u r"
    then obtain r where "astep\<^sup>+\<^sup>+ q r" "rel u r" by blast
    then show ?thesis using q(1) by (meson rtranclp_trans tranclp_into_rtranclp)
  qed (use q(1) in blast)
qed

lemma sim_bound:
  assumes "\<And>p q. astep p q \<Longrightarrow> (m q :: nat) < m p"
  shows "(cstep ^^ k) s t \<Longrightarrow> rel s p \<Longrightarrow> \<exists>q. astep\<^sup>*\<^sup>* p q \<and> rel t q \<and> 2 * m q + stutter t + k \<le> 2 * m p + stutter s"
proof (induction k arbitrary: t)
  case 0
  then show ?case by auto
next
  case (Suc k)
  obtain u where u: "(cstep ^^ k) s u" "cstep u t" using Suc.prems(1) by auto
  obtain q where q: "astep\<^sup>*\<^sup>* p q" "rel u q" "2 * m q + stutter u + k \<le> 2 * m p + stutter s"
    using Suc.IH [OF u(1) Suc.prems(2)] by blast
  from sim [OF q(2) u(2)] show ?case
  proof
    assume "\<exists>r. astep\<^sup>+\<^sup>+ q r \<and> rel t r"
    then obtain r where r: "astep\<^sup>+\<^sup>+ q r" "rel t r" by blast
    from r(1) have "m r < m q" by (induction rule: tranclp_induct) (use assms in \<open>blast intro: less_trans\<close>)+
    then have "2 * m r + stutter t + Suc k \<le> 2 * m p + stutter s" using q(3) stutter_le [of t] by linarith
    then show ?thesis using r q(1) by (meson rtranclp_trans tranclp_into_rtranclp)
  qed (use q in fastforce)
qed

end

section \<open>The relation\<close>

definition item_work :: "pthread_item \<Rightarrow> work_item" where
  "item_work x = \<lparr>work_id = item_id x, work_begin = item_begin x, work_end = item_end x\<rparr>"

definition pthread_config :: "nat \<Rightarrow> nat \<Rightarrow> benchmark_config" where
  "pthread_config workers n =
     \<lparr>worker_count = workers, workload_size = n, chunk_size = chunk, queue_capacity = 1024,
      access_pattern = CacheLocal, queue_batch_size = 1\<rparr>"

definition pthread_engine :: "nat \<Rightarrow> nat \<Rightarrow> engine" where
  "pthread_engine workers n = engine_of (pthread_config workers n)"

fun phase_abs :: "context_phase \<Rightarrow> worker_phase" where
  "phase_abs Popping = Locking"
| "phase_abs Waiting = Sleeping"
| "phase_abs Woken = Waking"
| "phase_abs (Working item) = Running [item_work item]"
| "phase_abs Exited = Finished"

definition works_from :: "nat \<Rightarrow> nat \<Rightarrow> work_item list" where
  "works_from n i = map (work_item_at n chunk) [i..<task_count n]"

fun feeder_abs :: "nat \<Rightarrow> feeder \<Rightarrow> producer option" where
  "feeder_abs n (Stamping i) = Some (Pushing (works_from n i))"
| "feeder_abs n (Feeding i item) = Some (Pushing (item_work item # works_from n (i + 1)))"
| "feeder_abs n (Stalled i item) = Some (Blocked (item_work item # works_from n (i + 1)))"
| "feeder_abs n Push_failed = None"
| "feeder_abs n Awaiting = Some Joining"
| "feeder_abs n Joined = Some Returned"

definition context_rel :: "worker_context \<Rightarrow> worker \<Rightarrow> bool" where
  "context_rel c w \<longleftrightarrow> worker_phase w = phase_abs (ctx_phase c) \<and>
     (ctx_phase c \<noteq> Exited \<longrightarrow> length (worker_latencies w) = length (ctx_latencies c))"

text \<open>The shared state: the queue with its lock counters, the checksum and the counts.\<close>

definition queue_rel :: "pthread_queue \<Rightarrow> pool \<Rightarrow> bool" where
  "queue_rel q p \<longleftrightarrow> pq_ok q \<and> pq_capacity q = 1024 \<and> pool_queue p = map item_work (pq_items q) \<and>
     pq_closed q = producer_finished p \<and>
     pq_lock_acquisitions q = counted lock_acquisitions p \<and> pq_contended q = counted contended_lock_acquisitions p"

definition totals_rel :: "worker_context list \<Rightarrow> pool \<Rightarrow> bool" where
  "totals_rel cs p \<longleftrightarrow> xor_list (map ctx_checksum cs) = pool_checksum p \<and>
     (\<Sum>c\<leftarrow>cs. ctx_tasks c) = counted tasks_completed p \<and>
     (\<Sum>c\<leftarrow>cs. ctx_allocations c) = counted simulated_allocations p \<and>
     (\<Sum>c\<leftarrow>cs. length (ctx_latencies c)) =
       length (aggregate_latencies p) + (\<Sum>w\<leftarrow>pool_workers p. held recorded w)"

definition bench_rel :: "nat \<Rightarrow> nat \<Rightarrow> bench \<Rightarrow> pool \<Rightarrow> bool" where
  "bench_rel workers n s p \<longleftrightarrow>
     0 < workers \<and> task_count n + workers + 1 < 2 ^ 64 \<and> pool_reach (pthread_engine workers n) p \<and>
     queue_rel (b_queue s) p \<and> feeder_abs n (b_feeder s) = Some (pool_producer p) \<and>
     list_all2 context_rel (b_contexts s) (pool_workers p) \<and> totals_rel (b_contexts s) p"

definition bench_stutter :: "bench \<Rightarrow> nat" where
  "bench_stutter s = (case b_feeder s of Stamping i \<Rightarrow> 1 | _ \<Rightarrow> 0)"

section \<open>What the pool knows\<close>

lemma pthread_engine_simps [simp]:
  "engine_config (pthread_engine workers n) = pthread_config workers n"
  "worker_count (pthread_config workers n) = workers" "workload_size (pthread_config workers n) = n"
  "chunk_size (pthread_config workers n) = chunk" "queue_capacity (pthread_config workers n) = 1024"
  "access_pattern (pthread_config workers n) = CacheLocal" "queue_batch_size (pthread_config workers n) = 1"
  by (simp_all add: pthread_engine_def pthread_config_def)

lemma chunk_pos [simp]: "0 < chunk"
  by (simp add: chunk_def)

lemma works_all: "works_from n 0 = work_items (pthread_config workers n)"
  by (simp add: works_from_def work_items_def item_count_def task_count_def)

lemma length_work_items [simp]: "length (work_items (pthread_config workers n)) = task_count n"
  by (simp add: work_items_def item_count_def task_count_def)

lemma item_work_make: "item_work (make_item n i now) = work_item_at n chunk i"
  by (simp add: item_work_def make_item_def work_item_at_def Let_def min_def)

lemma works_from_Cons: "i < task_count n \<Longrightarrow> works_from n i = work_item_at n chunk i # works_from n (i + 1)"
  by (simp add: works_from_def upt_conv_Cons)

lemma works_from_Nil: "\<not> i < task_count n \<Longrightarrow> works_from n i = []"
  by (simp add: works_from_def)

lemma new_pthread_engine: "0 < workers \<Longrightarrow> new_engine (pthread_config workers n) = Inr (pthread_engine workers n)"
  by (simp add: new_engine_Inr pthread_engine_def)

lemma bench_relD:
  assumes "bench_rel workers n s p"
  shows "pool_reach (pthread_engine workers n) p" "thread_inv (pthread_engine workers n) p"
    "pool_inv (pthread_engine workers n) (work_items (pthread_config workers n)) p"
    "account_inv (task_count n) p" "length (pool_workers p) = workers"
  using assms pool_reach_threads [of "pthread_engine workers n" p] pool_reach_inv [of "pthread_engine workers n" p]
    pool_reach_accounts [of "pthread_engine workers n" p]
  by (simp_all add: bench_rel_def)

section \<open>Replacing a worker on both sides\<close>

lemma xor_right_cancel:
  assumes "(a :: u64) XOR c = b XOR c"
  shows "a = b"
proof -
  have "(a XOR c) XOR c = (b XOR c) XOR c" by (simp only: assms)
  then show ?thesis by (simp add: xor.assoc)
qed

lemma balance:
  assumes "a + d = s + (b :: 'a :: cancel_comm_monoid_add)" and "c + p = s + q" and "b + p = d + q"
  shows "a = c"
proof -
  have "a + (d + p) = s + (b + p)" using assms(1) by (simp add: add.assoc [symmetric])
  also have "\<dots> = d + (s + q)" unfolding assms(3) by (rule add.left_commute)
  also have "\<dots> = c + (d + p)" unfolding assms(2) [symmetric] by (simp add: ac_simps)
  finally show ?thesis by simp
qed

lemma xor_list_update:
  assumes "i < length xs"
  shows "xor_list (map f (xs[i := y])) XOR f (xs ! i) = xor_list (map f xs) XOR f y"
proof -
  define x where "x = xs ! i"
  obtain as bs where "xs = as @ x # bs" "xs[i := y] = as @ y # bs"
    using split_workers [OF assms] unfolding x_def by metis
  then show ?thesis unfolding x_def [symmetric] by (simp add: ac_simps)
qed

lemma counted_update:
  assumes "i < length (pool_workers p)" and "pool_workers q = (pool_workers p)[i := w]"
  shows "counted f q + (f (aggregate_metrics p) + unmerged f (pool_workers p ! i)) =
    counted f p + (f (aggregate_metrics q) + unmerged f w)"
  using sum_list_map_update [OF assms(1), of "unmerged f" w] unfolding counted_def assms(2)
  by (simp add: algebra_simps)

text \<open>A context and its worker move: what they add to the shared state is the same on both sides.\<close>

lemma totals_rel_update:
  assumes rel: "totals_rel cs p" and len: "length cs = length (pool_workers p)" and i: "i < length cs"
    and workers: "pool_workers q = (pool_workers p)[i := w]"
    and sum: "ctx_checksum c XOR pool_checksum p = ctx_checksum (cs ! i) XOR pool_checksum q"
    and tasks: "ctx_tasks c + (tasks_completed (aggregate_metrics p) + unmerged tasks_completed (pool_workers p ! i)) =
      ctx_tasks (cs ! i) + (tasks_completed (aggregate_metrics q) + unmerged tasks_completed w)"
    and allocs: "ctx_allocations c +
        (simulated_allocations (aggregate_metrics p) + unmerged simulated_allocations (pool_workers p ! i)) =
      ctx_allocations (cs ! i) + (simulated_allocations (aggregate_metrics q) + unmerged simulated_allocations w)"
    and lats: "length (ctx_latencies c) + (length (aggregate_latencies p) + held recorded (pool_workers p ! i)) =
      length (ctx_latencies (cs ! i)) + (length (aggregate_latencies q) + held recorded w)"
  shows "totals_rel (cs[i := c]) q"
proof -
  have j: "i < length (pool_workers p)" using i len by simp
  note r = rel [unfolded totals_rel_def]
  have "xor_list (map ctx_checksum (cs[i := c])) XOR ctx_checksum (cs ! i) = pool_checksum p XOR ctx_checksum c"
    using xor_list_update [OF i, of ctx_checksum c] r by simp
  then have "xor_list (map ctx_checksum (cs[i := c])) XOR ctx_checksum (cs ! i) =
      pool_checksum q XOR ctx_checksum (cs ! i)"
    using sum by (simp add: xor.commute)
  then have 1: "xor_list (map ctx_checksum (cs[i := c])) = pool_checksum q"
    by (rule xor_right_cancel)
  have 2: "(\<Sum>d\<leftarrow>cs[i := c]. g d) = counted f q"
    if "(\<Sum>d\<leftarrow>cs. g d) = counted f p" and "g c + (f (aggregate_metrics p) + unmerged f (pool_workers p ! i)) =
      g (cs ! i) + (f (aggregate_metrics q) + unmerged f w)" for f g
    by (rule balance [OF sum_list_map_update [OF i, of g c] _ that(2)])
      (use counted_update [OF j workers, of f] that(1) in simp)
  have 3: "(\<Sum>d\<leftarrow>cs[i := c]. length (ctx_latencies d)) =
      length (aggregate_latencies q) + (\<Sum>u\<leftarrow>pool_workers q. held recorded u)"
    using sum_list_map_update [OF i, of "\<lambda>d. length (ctx_latencies d)" c]
      sum_list_map_update [OF j, of "held recorded" w] r lats unfolding workers by linarith
  show ?thesis unfolding totals_rel_def using 1 2 [OF _ tasks] 2 [OF _ allocs] 3 r by blast
qed

section \<open>The simulation\<close>

text \<open>One context and its worker move, in one or more steps of the pool.\<close>

lemma bench_rel_update:
  assumes rel: "bench_rel workers n s p" and i: "i < length (b_contexts s)"
    and reach: "pool_reach (pthread_engine workers n) q"
    and sides: "b_contexts t = (b_contexts s)[i := c]" "pool_workers q = (pool_workers p)[i := w]"
    and shared: "queue_rel (b_queue t) q" "feeder_abs n (b_feeder t) = Some (pool_producer q)"
    and own: "context_rel c w"
    and totals: "totals_rel ((b_contexts s)[i := c]) q"
  shows "bench_rel workers n t q"
  using assms unfolding bench_rel_def by (simp add: list_all2_update_cong)

lemma bench_rel_nth:
  assumes "bench_rel workers n s p" and "i < length (b_contexts s)"
  shows "i < length (pool_workers p)" "length (b_contexts s) = length (pool_workers p)"
    "context_rel (b_contexts s ! i) (pool_workers p ! i)"
  using assms by (auto simp: bench_rel_def list_all2_conv_all_nth)

lemma queue_rel_counted:
  assumes "i < length (pool_workers p)" and "pool_workers q = (pool_workers p)[i := w]"
    and "f (aggregate_metrics q) + unmerged f w = f (aggregate_metrics p) + unmerged f (pool_workers p ! i) + d"
  shows "counted f q = counted f p + d"
  using counted_update [OF assms(1,2), of f] assms(3) by (simp add: algebra_simps)

lemma unmerged_awake: "worker_phase w \<noteq> Finished \<Longrightarrow> unmerged f w = f (worker_metrics w)"
  by (simp add: unmerged_def)

text \<open>A worker at the queue: the pool's worker is \<open>w\<close> after the lock was counted, by \<open>d\<close> and \<open>k\<close>.\<close>

lemma pop_sim:
  assumes rel: "bench_rel workers n s p" and i: "i < length (b_contexts s)"
    and old: "worker_phase (pool_workers p ! i) \<in> {Locking, Waking}" "ctx_phase (b_contexts s ! i) \<noteq> Exited"
    and Q: "pq_ok Q" "pq_capacity Q = 1024" "pq_items Q = pq_items (b_queue s)" "pq_closed Q = pq_closed (b_queue s)"
      "pq_lock_acquisitions Q = pq_lock_acquisitions (b_queue s) + d" "pq_contended Q = pq_contended (b_queue s) + k"
    and w: "lock_acquisitions (worker_metrics w) = lock_acquisitions (worker_metrics (pool_workers p ! i)) + d"
      "contended_lock_acquisitions (worker_metrics w) =
        contended_lock_acquisitions (worker_metrics (pool_workers p ! i)) + k"
      "tasks_completed (worker_metrics w) = tasks_completed (worker_metrics (pool_workers p ! i))"
      "simulated_allocations (worker_metrics w) = simulated_allocations (worker_metrics (pool_workers p ! i))"
      "worker_latencies w = worker_latencies (pool_workers p ! i)"
    and first: "pool_step (pthread_engine workers n) b p (decide (pthread_engine workers n) i w p)"
  shows "\<exists>q. (pool_step (pthread_engine workers n) b)\<^sup>+\<^sup>+ p q \<and>
    bench_rel workers n (pop_step i (s\<lparr>b_queue := Q\<rparr>)) q"
proof -
  let ?e = "pthread_engine workers n" let ?o = "pool_workers p ! i" let ?c = "b_contexts s ! i"
  note j = bench_rel_nth [OF rel i]
  have cr: "length (worker_latencies ?o) = length (ctx_latencies ?c)" using j(3) old(2) by (simp add: context_rel_def)
  have nf: "worker_phase ?o \<noteq> Finished" using old(1) by auto
  have reach: "pool_reach ?e p" and qr: "queue_rel (b_queue s) p" and tr: "totals_rel (b_contexts s) p"
    and pr: "feeder_abs n (b_feeder s) = Some (pool_producer p)"
    using rel by (simp_all add: bench_rel_def)
  have items: "pool_queue p = map item_work (pq_items Q)" "pq_closed Q = producer_finished p"
    using qr Q(3,4) by (simp_all add: queue_rel_def)
  have reach1: "pool_reach ?e (decide ?e i w p)" by (rule pool_reach_step [OF reach first])
  have queue: "queue_rel R q"
    if "pq_ok R" "pq_capacity R = 1024" "pool_queue q = map item_work (pq_items R)" "pq_closed R = producer_finished q"
      "pq_lock_acquisitions R = pq_lock_acquisitions Q" "pq_contended R = pq_contended Q"
      "pool_workers q = (pool_workers p)[i := v]"
      "lock_acquisitions (aggregate_metrics q) + unmerged lock_acquisitions v =
        lock_acquisitions (aggregate_metrics p) + lock_acquisitions (worker_metrics w)"
      "contended_lock_acquisitions (aggregate_metrics q) + unmerged contended_lock_acquisitions v =
        contended_lock_acquisitions (aggregate_metrics p) + contended_lock_acquisitions (worker_metrics w)"
    for R q v
  proof -
    have "counted lock_acquisitions q = counted lock_acquisitions p + d"
      "counted contended_lock_acquisitions q = counted contended_lock_acquisitions p + k"
      by (rule queue_rel_counted [OF j(1) that(7)], simp add: that(8,9) w unmerged_awake [OF nf])+
    then show ?thesis using that Q qr by (simp add: queue_rel_def)
  qed
  have totals: "totals_rel ((b_contexts s)[i := ?c\<lparr>ctx_phase := ph\<rparr>]) q"
    if "pool_workers q = (pool_workers p)[i := v]" "pool_checksum q = pool_checksum p"
      "tasks_completed (aggregate_metrics q) + unmerged tasks_completed v =
        tasks_completed (aggregate_metrics p) + tasks_completed (worker_metrics w)"
      "simulated_allocations (aggregate_metrics q) + unmerged simulated_allocations v =
        simulated_allocations (aggregate_metrics p) + simulated_allocations (worker_metrics w)"
      "length (aggregate_latencies q) + held recorded v = length (aggregate_latencies p) + length (worker_latencies w)"
    for q v ph
    by (rule totals_rel_update [OF tr j(2) i that(1)])
      (use that w nf in \<open>simp_all add: unmerged_awake held_def recorded_def\<close>)
  show ?thesis
  proof (cases "pq_items Q")
    case Nil
    then have empty: "pool_queue p = []" "pq_count Q = 0" using items(1) by simp_all
    show ?thesis
    proof (cases "pq_closed Q")
      case False
      let ?v = "w\<lparr>worker_phase := Sleeping\<rparr>"
      have eq: "decide ?e i w p = set_worker i ?v p" using empty items(2) False by (simp add: decide_def)
      have ct: "pop_step i (s\<lparr>b_queue := Q\<rparr>) = set_context i (?c\<lparr>ctx_phase := Waiting\<rparr>) (s\<lparr>b_queue := Q\<rparr>)"
        using empty False by (simp add: pop_step_def pop_locked_def)
      have "bench_rel workers n (pop_step i (s\<lparr>b_queue := Q\<rparr>)) (decide ?e i w p)"
        by (rule bench_rel_update [OF rel i reach1, where c = "?c\<lparr>ctx_phase := Waiting\<rparr>" and w = ?v])
          (use Q pr items cr w in \<open>auto simp: eq ct set_worker_def set_context_def context_rel_def
            held_def recorded_def unmerged_def intro!: queue [where v = ?v] totals [where v = ?v]\<close>)
      then show ?thesis using first by blast
    next
      case True
      let ?m = "w\<lparr>worker_phase := Merging\<rparr>"
      let ?p = "set_worker i ?m p"
      let ?q = "merge_worker i ?m ?p" let ?v = "?m\<lparr>worker_phase := Finished\<rparr>"
      have eq: "decide ?e i w p = ?p" using empty items(2) True by (simp add: decide_def)
      have step2: "pool_step ?e b ?p ?q"
        by (rule pool_step.merge) (use j(1) in \<open>simp_all add: set_worker_def\<close>)
      have ct: "pop_step i (s\<lparr>b_queue := Q\<rparr>) = set_context i (?c\<lparr>ctx_phase := Exited\<rparr>) (s\<lparr>b_queue := Q\<rparr>)"
        using empty True by (simp add: pop_step_def pop_locked_def)
      have reach2: "pool_reach ?e ?q" by (rule pool_reach_step [OF reach1 [unfolded eq] step2])
      have "bench_rel workers n (pop_step i (s\<lparr>b_queue := Q\<rparr>)) ?q"
        by (rule bench_rel_update [OF rel i reach2, where c = "?c\<lparr>ctx_phase := Exited\<rparr>" and w = ?v])
          (use Q pr items in \<open>auto simp: merge_worker_def ct set_worker_def set_context_def context_rel_def add_metrics_def
            held_def unmerged_def intro!: queue [where v = ?v] totals [where v = ?v]\<close>)
      then show ?thesis using first step2 unfolding eq by (meson tranclp.intros)
    qed
  next
    case (Cons x xs)
    obtain R where R: "pop_locked 0 Q = Some (1, Some x, R)" "pq_ok R" "pq_items R = xs"
      "pq_capacity R = pq_capacity Q" "pq_closed R = pq_closed Q" "pq_lock_acquisitions R = pq_lock_acquisitions Q"
      "pq_contended R = pq_contended Q" using pop_locked_some [OF Q(1) Cons] by blast
    let ?v = "w\<lparr>worker_phase := Running [item_work x]\<rparr>"
    have eq: "decide ?e i w p = set_worker i ?v (p\<lparr>pool_queue := map item_work xs,
        pool_producer := notify_not_full (pool_producer p)\<rparr>)"
      using items(1) Cons by (simp add: decide_def Let_def)
    have ct: "pop_step i (s\<lparr>b_queue := Q\<rparr>) = set_context i (?c\<lparr>ctx_phase := Working x\<rparr>)
        (s\<lparr>b_queue := R, b_feeder := signal_feeder (b_feeder s)\<rparr>)"
      by (simp add: pop_step_def R(1) set_context_def)
    have fr: "feeder_abs n (signal_feeder (b_feeder s)) = Some (notify_not_full (pool_producer p))"
      using pr by (cases "b_feeder s"; cases "pool_producer p") (simp_all add: signal_feeder_def notify_not_full_def)
    have "bench_rel workers n (pop_step i (s\<lparr>b_queue := Q\<rparr>)) (decide ?e i w p)"
      by (rule bench_rel_update [OF rel i reach1, where c = "?c\<lparr>ctx_phase := Working x\<rparr>" and w = ?v])
        (use Q R fr items cr w in \<open>auto simp: eq ct set_worker_def set_context_def context_rel_def
          held_def recorded_def unmerged_def intro!: queue [where v = ?v] totals [where v = ?v]\<close>)
    then show ?thesis using first by blast
  qed
qed

text \<open>The body of the worker's loop, as a task of the pool and the way back to the lock.\<close>

lemma fill_temporary_eq:
  "fill_temporary data is temporary checksum =
     (temporary @ map (\<lambda>i. data ! i XOR of_nat (i * 17)) is, checksum + (\<Sum>i\<leftarrow>is. data ! i XOR of_nat (i * 17)))"
  by (induction "is" arbitrary: temporary checksum) (simp_all add: Let_def add.assoc)

lemma process_item_task:
  assumes "item_begin x < item_end x"
  shows "process_item True (bench_data n) x a = (task_checksum (pthread_engine workers n) (item_work x), a + 1)"
proof -
  have order: "map (\<lambda>i. item_begin x + i) [0..<item_end x - item_begin x] = [item_begin x..<item_end x]"
    by (rule nth_equalityI) (use assms in simp_all)
  have "engine_data (pthread_engine workers n) = bench_data n"
    by (simp add: pthread_engine_def pthread_config_def engine_of_def bench_data_def data_word_def)
  then have "item_value (pthread_engine workers n) = (\<lambda>i. bench_data n ! i XOR of_nat (i * 17))"
    by (simp add: fun_eq_iff item_value_def)
  then show ?thesis
    using assms task_checksum_visit [of "item_work x" "pthread_engine workers n"]
    by (simp add: process_item_def words.qsort_sorts fill_temporary_eq order visit_order_def item_work_def Let_def del: map_map)
qed

text \<open>A worker at work has room for the latency of its item.\<close>

lemma work_room:
  assumes rel: "bench_rel workers n s p" and i: "i < length (b_contexts s)"
    and phase: "ctx_phase (b_contexts s ! i) = Working x"
  shows "length (ctx_latencies (b_contexts s ! i)) < task_count n"
proof -
  let ?w = "pool_workers p ! i"
  note j = bench_rel_nth [OF rel i]
  have wp: "worker_phase ?w = Running [item_work x]"
    and lat: "length (worker_latencies ?w) = length (ctx_latencies (b_contexts s ! i))"
    using j(3) phase by (simp_all add: context_rel_def)
  have "held recorded ?w + length (running_tasks ?w) \<le> task_count n"
    using bench_relD(4) [OF rel] sum_workers_member [OF j(1), of "\<lambda>w. held recorded w + length (running_tasks w)"]
    unfolding account_inv_def by linarith
  then show ?thesis using wp lat by (simp add: held_def recorded_def)
qed

lemma work_sim:
  assumes rel: "bench_rel workers n s p" and i: "i < length (b_contexts s)"
    and phase: "ctx_phase (b_contexts s ! i) = Working x"
  shows "\<exists>q. (pool_step (pthread_engine workers n) b)\<^sup>+\<^sup>+ p q \<and> bench_rel workers n (work_step n i True t x s) q"
proof -
  let ?e = "pthread_engine workers n" let ?w = "pool_workers p ! i" let ?c = "b_contexts s ! i"
  note j = bench_rel_nth [OF rel i] and inv = bench_relD [OF rel]
  have wp: "worker_phase ?w = Running [item_work x]" and lat: "length (worker_latencies ?w) = length (ctx_latencies ?c)"
    using j(3) phase by (simp_all add: context_rel_def)
  have "?w \<in> set (pool_workers p)" using j(1) by simp
  then have "item_work x \<in> set (pending p)" using wp by (force simp: pending_def)
  then have "item_work x \<in> set (work_items (pthread_config workers n))" using inv(3) by (auto simp: pool_inv_def)
  then have ne: "work_begin (item_work x) < work_end (item_work x)"
    by (intro work_items_nonempty [of "pthread_config workers n"]) simp_all
  then have ne': "item_begin x < item_end x" by (simp add: item_work_def)
  note room = work_room [OF rel i phase]
  let ?k = "task_checksum ?e (item_work x)"
  let ?m = "(worker_metrics ?w)\<lparr>queue_wait_ns := queue_wait_ns (worker_metrics ?w) + 0,
    simulated_allocations := simulated_allocations (worker_metrics ?w) + 1,
    tasks_completed := tasks_completed (worker_metrics ?w) + 1\<rparr>"
  let ?v = "?w\<lparr>worker_phase := Running [], worker_metrics := ?m, worker_latencies := worker_latencies ?w @ [0]\<rparr>"
  let ?u = "?v\<lparr>worker_phase := Locking\<rparr>"
  let ?p = "set_worker i ?v (p\<lparr>pool_checksum := pool_checksum p XOR ?k\<rparr>)"
  have "run_task ?e i ?w (item_work x) [] 0 0 p = ?p"
    using process_work_nonempty [OF ne] process_work_checksum [of ?e "item_work x"]
    by (simp add: run_task_def Let_def case_prod_beta)
  then have step1: "pool_step ?e b p ?p" using pool_step.task [OF j(1) refl wp, of ?e b 0 0] by simp
  have step2: "pool_step ?e b ?p (set_worker i ?u ?p)"
    by (rule pool_step.again) (use j(1) in \<open>simp_all add: set_worker_def\<close>)
  have reach: "pool_reach ?e (set_worker i ?u ?p)"
    by (rule pool_reach_step [OF pool_reach_step [OF inv(1) step1] step2])
  let ?d = "?c\<lparr>ctx_allocations := ctx_allocations ?c + 1, ctx_checksum := ctx_checksum ?c XOR ?k,
    ctx_tasks := ctx_tasks ?c + 1, ctx_latencies := ctx_latencies ?c @ [t - queued_at_ns x], ctx_phase := Popping\<rparr>"
  have ct: "work_step n i True t x s = set_context i ?d s"
    using room by (simp add: work_step_def process_item_task [OF ne', of n _ workers] Let_def)
  define u where "u = ?u"
  define P where "P = set_worker i ?u ?p"
  have q: "pool_workers P = (pool_workers p)[i := u]" "pool_checksum P = pool_checksum p XOR ?k"
    "aggregate_metrics P = aggregate_metrics p" "aggregate_latencies P = aggregate_latencies p"
    "pool_queue P = pool_queue p" "producer_finished P = producer_finished p" "pool_producer P = pool_producer p"
    by (simp_all add: P_def u_def set_worker_def)
  have u: "worker_phase u = Locking" "length (worker_latencies u) = length (worker_latencies ?w) + 1"
    "lock_acquisitions (worker_metrics u) = lock_acquisitions (worker_metrics ?w)"
    "contended_lock_acquisitions (worker_metrics u) = contended_lock_acquisitions (worker_metrics ?w)"
    "simulated_allocations (worker_metrics u) = simulated_allocations (worker_metrics ?w) + 1"
    "tasks_completed (worker_metrics u) = tasks_completed (worker_metrics ?w) + 1"
    by (simp_all add: u_def)
  have same: "counted f P = counted f p" if "f (worker_metrics u) = f (worker_metrics ?w)" for f
    using counted_update [OF j(1) q(1), of f] that wp u(1) by (simp add: q unmerged_def)
  have "bench_rel workers n (work_step n i True t x s) P"
  proof (rule bench_rel_update [OF rel i reach [folded P_def] _ q(1), where c = ?d])
    show "queue_rel (b_queue (work_step n i True t x s)) P"
      using rel same [of lock_acquisitions] same [of contended_lock_acquisitions] u
      by (simp add: bench_rel_def queue_rel_def ct set_context_def q)
    show "totals_rel ((b_contexts s)[i := ?d]) P"
      by (rule totals_rel_update [OF _ j(2) i q(1)])
        (use rel lat wp u in \<open>simp_all add: bench_rel_def q unmerged_def held_def recorded_def ac_simps\<close>)
  qed (use rel lat u in \<open>simp_all add: q ct set_context_def bench_rel_def context_rel_def\<close>)
  then show ?thesis using step1 step2 unfolding P_def by (meson tranclp.intros)
qed

text \<open>The moves of the feeder, which leave the workers' counts alone.\<close>

lemma bench_rel_frame:
  assumes rel: "bench_rel workers n s p" and reach: "pool_reach (pthread_engine workers n) q"
    and same: "pool_checksum q = pool_checksum p" "aggregate_metrics q = aggregate_metrics p"
      "aggregate_latencies q = aggregate_latencies p"
    and sides: "b_contexts t = map f (b_contexts s)" "pool_workers q = map g (pool_workers p)"
    and moves: "\<And>c w. context_rel c w \<Longrightarrow> context_rel (f c) (g w)"
      "\<And>c. ctx_checksum (f c) = ctx_checksum c" "\<And>c. ctx_tasks (f c) = ctx_tasks c"
      "\<And>c. ctx_allocations (f c) = ctx_allocations c" "\<And>c. ctx_latencies (f c) = ctx_latencies c"
      "\<And>h w. unmerged h (g w) = unmerged h w" "\<And>w. held recorded (g w) = held recorded w"
    and queue: "pq_ok (b_queue t)" "pq_capacity (b_queue t) = 1024"
      "pool_queue q = map item_work (pq_items (b_queue t))" "pq_closed (b_queue t) = producer_finished q"
      "pq_lock_acquisitions (b_queue t) = pq_lock_acquisitions (b_queue s)"
      "pq_contended (b_queue t) = pq_contended (b_queue s)"
    and feeder: "feeder_abs n (b_feeder t) = Some (pool_producer q)"
  shows "bench_rel workers n t q"
proof -
  have "counted h q = counted h p" for h by (simp add: counted_def sides same moves comp_def)
  moreover have "list_all2 context_rel (b_contexts s) (pool_workers p)" using rel by (simp add: bench_rel_def)
  then have "list_all2 context_rel (map f (b_contexts s)) (map g (pool_workers p))"
    by (auto simp: list_all2_conv_all_nth moves)
  ultimately show ?thesis
    using rel reach queue feeder unfolding bench_rel_def
    by (simp add: queue_rel_def totals_rel_def sides same moves comp_def)
qed

lemma bench_rel_feeder:
  assumes "bench_rel workers n s p" and "pool_reach (pthread_engine workers n) q"
    and "q = p\<lparr>pool_producer := r\<rparr>" and "t = s\<lparr>b_feeder := f\<rparr>" and "feeder_abs n f = Some r"
  shows "bench_rel workers n t q"
  by (rule bench_rel_frame [where f = "\<lambda>c. c" and g = "\<lambda>w. w", OF assms(1,2)])
    (use assms in \<open>simp_all add: bench_rel_def queue_rel_def\<close>)

lemma wake_context_simps [simp]:
  "ctx_checksum (wake_context c) = ctx_checksum c" "ctx_tasks (wake_context c) = ctx_tasks c"
  "ctx_allocations (wake_context c) = ctx_allocations c" "ctx_latencies (wake_context c) = ctx_latencies c"
  by (simp_all add: wake_context_def)

lemma wake_rel: "context_rel c w \<Longrightarrow> context_rel (wake_context c) (notify_sleeper w)"
  by (cases "ctx_phase c") (simp_all add: context_rel_def wake_context_def notify_sleeper_def)

lemma wake_one:
  assumes rel: "bench_rel workers n s p" and i: "i < length (b_contexts s)"
    and old: "ctx_phase (b_contexts s ! i) = Waiting"
    and reach: "pool_reach (pthread_engine workers n) (wake_worker i p)"
  shows "worker_phase (pool_workers p ! i) = Sleeping"
    and "bench_rel workers n (set_context i (wake_context (b_contexts s ! i)) s) (wake_worker i p)"
proof -
  note j = bench_rel_nth [OF rel i]
  let ?w = "pool_workers p ! i" let ?v = "?w\<lparr>worker_phase := Waking\<rparr>"
  show sleeping: "worker_phase ?w = Sleeping" using j(3) old by (simp add: context_rel_def)
  have "counted f (wake_worker i p) = counted f p" for f
    using counted_update [OF j(1), of "wake_worker i p" ?v f] sleeping
    by (simp add: wake_worker_def set_worker_def unmerged_def)
  then have qr: "queue_rel (b_queue s) (wake_worker i p)"
    using rel by (simp add: bench_rel_def queue_rel_def) (simp add: wake_worker_def set_worker_def)
  show "bench_rel workers n (set_context i (wake_context (b_contexts s ! i)) s) (wake_worker i p)"
  proof (rule bench_rel_update [OF rel i reach, where c = "wake_context (b_contexts s ! i)" and w = ?v])
    show "totals_rel ((b_contexts s)[i := wake_context (b_contexts s ! i)]) (wake_worker i p)"
      by (rule totals_rel_update [OF _ j(2) i, where w = ?v])
        (use rel sleeping in \<open>simp_all add: bench_rel_def wake_worker_def set_worker_def unmerged_def held_def recorded_def\<close>)
  qed (use rel qr j(3) old in \<open>simp_all add: bench_rel_def wake_worker_def set_worker_def set_context_def
    context_rel_def wake_context_def\<close>)
qed

lemma push_open:
  assumes "push_locked 0 x q = Some (0, r)"
  shows "\<not> pq_closed q" and "pq_count q \<noteq> pq_capacity q"
  using assms by (auto simp: push_locked_def ECANCELED_def split: if_splits)

text \<open>A push that succeeds, as the producer's.\<close>

lemma push_sim:
  assumes rel: "bench_rel workers n s p" and f: "b_feeder s = Feeding i x"
    and push: "push_locked 0 x (b_queue s) = Some (0, r)"
    and step: "pool_reach (pthread_engine workers n) (push_item (item_work x) (works_from n (i + 1)) p)"
  shows "pool_producer p = Pushing (item_work x # works_from n (i + 1))" and "length (pool_queue p) < 1024"
    and "bench_rel workers n (s\<lparr>b_queue := r, b_feeder := Stamping (i + 1)\<rparr>)
      (push_item (item_work x) (works_from n (i + 1)) p)"
proof -
  have qr: "queue_rel (b_queue s) p" using rel by (simp add: bench_rel_def)
  have ok: "pq_ok (b_queue s)" "\<not> pq_closed (b_queue s)" "pq_count (b_queue s) < pq_capacity (b_queue s)"
    using qr push_open [OF push] by (auto simp: queue_rel_def pq_ok_def)
  show "length (pool_queue p) < 1024" using qr ok by (simp add: queue_rel_def)
  show "pool_producer p = Pushing (item_work x # works_from n (i + 1))" using rel f by (simp add: bench_rel_def)
  show "bench_rel workers n (s\<lparr>b_queue := r, b_feeder := Stamping (i + 1)\<rparr>)
      (push_item (item_work x) (works_from n (i + 1)) p)"
    by (rule bench_rel_frame [where f = "\<lambda>c. c" and g = "\<lambda>w. w", OF rel step])
      (use push_locked_room [OF ok, of 0 x] push qr ok(2) in \<open>auto simp: push_item_def queue_rel_def\<close>)
qed

lemma bench_sim:
  assumes rel: "bench_rel workers n s p" and step: "bench_step n b False s t"
  shows "(\<exists>q. (pool_step (pthread_engine workers n) b)\<^sup>+\<^sup>+ p q \<and> bench_rel workers n t q) \<or>
    (bench_rel workers n t p \<and> bench_stutter t < bench_stutter s)"
proof -
  let ?e = "pthread_engine workers n"
  note inv = bench_relD [OF rel]
  have qr: "queue_rel (b_queue s) p" and pr: "feeder_abs n (b_feeder s) = Some (pool_producer p)"
    using rel by (simp_all add: bench_rel_def)
  have one: ?thesis if "pool_step ?e b p q" "pool_reach ?e q \<Longrightarrow> bench_rel workers n t q" for q
    using that pool_reach_step [OF inv(1) that(1)] by blast
  from step show ?thesis
  proof cases
    case (pop i contended start_ns end_ns)
    let ?w = "count_lock contended 0 (pool_workers p ! i)"
    note j = bench_rel_nth [OF rel pop(2)]
    have ph: "worker_phase (pool_workers p ! i) = Locking" using j(3) pop(3) by (simp add: context_rel_def)
    have "\<exists>q. (pool_step ?e b)\<^sup>+\<^sup>+ p q \<and>
        bench_rel workers n (pop_step i (s\<lparr>b_queue := lock_queue contended start_ns end_ns (b_queue s)\<rparr>)) q"
      by (rule pop_sim [OF rel pop(2), where w = ?w and d = 1 and k = "if contended then 1 else 0"])
        (use qr ph pop(3) pool_step.acquire [OF j(1) refl ph, of ?e b contended 0] in
          \<open>simp_all add: queue_rel_def lock_queue_def count_lock_def Let_def pq_ok_def pq_items_def\<close>)
    then show ?thesis using pop(1) by blast
  next
    case (resume i)
    note j = bench_rel_nth [OF rel resume(2)]
    have ph: "worker_phase (pool_workers p ! i) = Waking" using j(3) resume(3) by (simp add: context_rel_def)
    have "\<exists>q. (pool_step ?e b)\<^sup>+\<^sup>+ p q \<and> bench_rel workers n (pop_step i (s\<lparr>b_queue := b_queue s\<rparr>)) q"
      by (rule pop_sim [OF rel resume(2), where w = "pool_workers p ! i" and d = 0 and k = 0])
        (use qr ph resume(3) pool_step.reacquire [OF j(1) refl ph, of ?e b] in \<open>simp_all add: queue_rel_def\<close>)
    then show ?thesis using resume(1) by simp
  next
    case (work i item allocated end_ns)
    then show ?thesis using work_sim [OF rel work(2,3), of b end_ns] by auto
  next
    case (stamp i now)
    have "bench_rel workers n t p"
      using rel works_from_Cons [OF stamp(3)] item_work_make [of n i now] stamp(1,2)
      by (simp add: bench_rel_def)
    then show ?thesis using stamp by (simp add: bench_stutter_def)
  next
    case (feed_signal i item q j)
    let ?s = "set_context j (wake_context (b_contexts s ! j)) s"
    let ?q = "push_item (item_work item) (works_from n (i + 1)) (wake_worker j p)"
    note k = bench_rel_nth [OF rel feed_signal(4)]
    have sl: "worker_phase (pool_workers p ! j) = Sleeping" using k(3) feed_signal(5) by (simp add: context_rel_def)
    have "length (pool_queue p) < 1024" "pool_producer p = Pushing (item_work item # works_from n (i + 1))"
      using push_open [OF feed_signal(3)] qr pr feed_signal(2) by (auto simp: queue_rel_def pq_ok_def)
    then have st: "pool_step ?e b p ?q"
      using pool_step.push_wake [of p "item_work item" "works_from n (i + 1)" ?e j b] k(1) sl
      by (simp add: wake_push_commute)
    have "pool_reach ?e (wake_worker j p)"
      by (rule pool_reach_step [OF inv(1) pool_step.worker_spurious [OF TrueI k(1) sl]])
    then have r: "bench_rel workers n ?s (wake_worker j p)" by (rule wake_one(2) [OF rel feed_signal(4,5)])
    have t: "t = ?s\<lparr>b_queue := q, b_feeder := Stamping (i + 1)\<rparr>"
      using feed_signal(1) by (cases s) (simp add: set_context_def)
    have "bench_rel workers n t ?q" if "pool_reach ?e ?q"
      unfolding t by (rule push_sim(3) [OF r _ _ that]) (use feed_signal(2,3) in \<open>simp_all add: set_context_def\<close>)
    then show ?thesis using one [OF st] by blast
  next
    case (feed_quiet i item q)
    let ?p = "push_item (item_work item) (works_from n (i + 1)) p"
    have "length (pool_queue p) < 1024" "pool_producer p = Pushing (item_work item # works_from n (i + 1))"
      using push_open [OF feed_quiet(3)] qr pr feed_quiet(2) by (auto simp: queue_rel_def pq_ok_def)
    moreover have "\<forall>w \<in> set (pool_workers p). worker_phase w \<noteq> Sleeping"
    proof
      fix w assume "w \<in> set (pool_workers p)"
      then obtain i where i: "i < length (pool_workers p)" "w = pool_workers p ! i" by (auto simp: in_set_conv_nth)
      have len: "length (b_contexts s) = length (pool_workers p)"
        using rel by (auto simp: bench_rel_def dest: list_all2_lengthD)
      have "context_rel (b_contexts s ! i) w" using bench_rel_nth(3) [OF rel, of i] i len by simp
      moreover have "ctx_phase (b_contexts s ! i) \<noteq> Waiting" using feed_quiet(4) i len by simp
      ultimately show "worker_phase w \<noteq> Sleeping"
        by (cases "ctx_phase (b_contexts s ! i)") (simp_all add: context_rel_def)
    qed
    ultimately have "pool_step ?e b p ?p" by (intro pool_step.push_quiet) simp_all
    then show ?thesis using push_sim(3) [OF rel feed_quiet(2,3)] feed_quiet(1) one by blast
  next
    case (feed_wait i item)
    have full: "length (pool_queue p) = 1024" using feed_wait(3) qr
      by (auto simp: push_locked_def queue_rel_def split: if_splits)
    have pp: "pool_producer p = Pushing (item_work item # works_from n (i + 1))" using pr feed_wait(2) by simp
    show ?thesis
      by (rule one [OF pool_step.block [OF pp]], simp add: full,
          erule bench_rel_feeder [OF rel, where f = "Stalled i item"])
        (simp_all add: feed_wait(1))
  next
    case (feed_error i item rc q)
    have "producer_finished p"
      using feed_error(3,4) qr by (auto simp: push_locked_def queue_rel_def split: if_splits)
    moreover have "pool_producer p = Pushing (item_work item # works_from n (i + 1))" using pr feed_error(2) by simp
    ultimately show ?thesis using inv(2) by (simp add: thread_inv_def)
  next
    case (close i)
    let ?p = "p\<lparr>producer_finished := True, pool_producer := Notifying\<rparr>"
    let ?q = "?p\<lparr>pool_workers := map notify_sleeper (pool_workers ?p), pool_producer := Joining\<rparr>"
    have "pool_producer p = Pushing []" using pr close(2) works_from_Nil [OF close(3)] by simp
    then have st: "pool_step ?e b p ?p" by (rule pool_step.finish)
    have st2: "pool_step ?e b ?p ?q" by (rule pool_step.notify) simp
    have "bench_rel workers n t ?q"
      by (rule bench_rel_frame [where f = wake_context and g = notify_sleeper, OF rel
            pool_reach_step [OF pool_reach_step [OF inv(1) st] st2]])
        (use qr close(1) in \<open>simp_all add: wake_rel close_locked_def queue_rel_def recorded_def\<close>)
    then show ?thesis using st st2 by (meson tranclp.intros)
  next
    case join
    have pp: "pool_producer p = Joining" using pr join(2) by simp
    have "\<forall>w \<in> set (pool_workers p). worker_phase w = Finished"
    proof
      fix w assume "w \<in> set (pool_workers p)"
      then obtain i where i: "i < length (pool_workers p)" "w = pool_workers p ! i" by (auto simp: in_set_conv_nth)
      have len: "length (b_contexts s) = length (pool_workers p)"
        using rel by (auto simp: bench_rel_def dest: list_all2_lengthD)
      have "context_rel (b_contexts s ! i) w" using bench_rel_nth(3) [OF rel, of i] i len by simp
      moreover have "ctx_phase (b_contexts s ! i) = Exited" using join(3) i len by simp
      ultimately show "worker_phase w = Finished" by (simp add: context_rel_def)
    qed
    then show ?thesis
      by (intro one [OF pool_step.join [OF pp]], simp) (erule bench_rel_feeder [OF rel, where f = Joined], simp_all add: join(1))
  next
    case (context_spurious i)
    have "worker_phase (pool_workers p ! i) = Sleeping"
      using bench_rel_nth [OF rel context_spurious(3)] context_spurious(4) by (simp add: context_rel_def)
    then have st: "pool_step ?e b p (wake_worker i p)"
      using pool_step.worker_spurious [OF context_spurious(2) bench_rel_nth(1) [OF rel context_spurious(3)]] by blast
    show ?thesis
      by (rule one [OF st]) (use wake_one(2) [OF rel context_spurious(3,4)] context_spurious(1) in blast)
  next
    case (feeder_spurious i item)
    have pp: "pool_producer p = Blocked (item_work item # works_from n (i + 1))" using pr feeder_spurious(3) by simp
    show ?thesis
      by (rule one [OF pool_step.producer_spurious [OF feeder_spurious(2) pp]],
          erule bench_rel_feeder [OF rel, where f = "Feeding i item"])
        (simp_all add: feeder_spurious(1))
  qed
qed

interpretation bench: stuttering_simulation "bench_step n b False" "pool_step (pthread_engine workers n) b"
  "bench_rel workers n" bench_stutter for n b workers
  by unfold_locales (rule bench_sim, assumption+, simp add: bench_stutter_def split: feeder.splits)

section \<open>The runs\<close>

lemma replicate_sums:
  "f new_context = (0 :: 'a :: comm_monoid_add) \<Longrightarrow> (\<Sum>c\<leftarrow>replicate k new_context. f c) = 0"
  "g new_worker = (0 :: 'a) \<Longrightarrow> (\<Sum>w\<leftarrow>replicate k new_worker. g w) = 0"
  by (induction k) simp_all

lemma initial_bench_rel:
  assumes "0 < workers" and "task_count n + workers + 1 < 2 ^ 64" and "new_queue = Inr q"
  shows "bench_rel workers n (initial_bench workers q)
    (initial_pool (pthread_engine workers n) (work_items (pthread_config workers n)))"
proof -
  let ?e = "pthread_engine workers n"
  have "pool_reach ?e (initial_pool ?e (work_items (pthread_config workers n)))"
    using build_work_items_eq [of ?e] by (intro initial_reach) simp
  moreover have "xor_list (map ctx_checksum (replicate k new_context)) = 0" for k
    by (induction k) (simp_all add: new_context_def)
  moreover have "list_all2 context_rel (replicate workers new_context) (replicate workers new_worker)"
    by (simp add: list_all2_conv_all_nth context_rel_def new_context_def new_worker_def)
  ultimately show ?thesis
    using assms pq_init [of False True 0 0 0 1024 q]
    by (simp add: bench_rel_def initial_bench_def initial_pool_def queue_rel_def totals_rel_def new_queue_def works_all
        counted_def unmerged_def held_def recorded_def new_context_def new_worker_def zero_metrics_def sum_list_replicate)
qed

lemma bench_reach_rel:
  assumes "0 < workers" and "task_count n + workers + 1 < 2 ^ 64" and "bench_reach workers n False s"
  shows "\<exists>p. bench_rel workers n s p"
  using assms(3) bench.sim_reach [OF _ initial_bench_rel [OF assms(1,2)]] unfolding bench_reach_def by blast

text \<open>Progress: every thread that is not waiting can move.\<close>

lemma context_can_step:
  assumes "i < length (b_contexts s)" and "ctx_phase (b_contexts s ! i) \<notin> {Waiting, Exited}"
  shows "\<exists>t. bench_step n b f s t"
  using assms bench_step.pop [OF assms(1), of n b f] bench_step.resume [OF assms(1), of n b f]
    bench_step.work [OF assms(1), of _ True f n b]
  by (cases "ctx_phase (b_contexts s ! i)") blast+

lemma feeding_can_step:
  assumes "b_feeder s = Feeding i x"
  shows "\<exists>t. bench_step n b f s t"
proof (cases "push_locked 0 x (b_queue s)")
  case None
  then show ?thesis using bench_step.feed_wait [OF assms] by blast
next
  case (Some a)
  obtain rc q where a: "a = (rc, q)" by fastforce
  show ?thesis
  proof (cases "rc = 0")
    case True
    then show ?thesis
      using Some a bench_step.feed_signal [OF assms] bench_step.feed_quiet [OF assms]
      by (metis in_set_conv_nth)
  next
    case False
    then show ?thesis using Some a bench_step.feed_error [OF assms] by blast
  qed
qed

lemma bench_progress:
  assumes rel: "bench_rel workers n s p" and running: "b_feeder s \<noteq> Joined"
  shows "\<exists>t. bench_step n b f s t"
proof -
  note inv = bench_relD(2) [OF rel]
  have len: "length (b_contexts s) = length (pool_workers p)"
    and cr: "\<And>i. i < length (b_contexts s) \<Longrightarrow> context_rel (b_contexts s ! i) (pool_workers p ! i)"
    and pr: "feeder_abs n (b_feeder s) = Some (pool_producer p)"
    using rel by (auto simp: bench_rel_def list_all2_conv_all_nth)
  have mover: ?thesis if w: "w \<in> set (pool_workers p)" "worker_phase w \<notin> {Sleeping, Finished}" for w
  proof -
    obtain i where "i < length (pool_workers p)" "pool_workers p ! i = w"
      using w(1) by (auto simp: in_set_conv_nth)
    then have i: "i < length (b_contexts s)" "w = pool_workers p ! i" using len by simp_all
    then have "ctx_phase (b_contexts s ! i) \<notin> {Waiting, Exited}" using cr [OF i(1)] w(2) by (auto simp: context_rel_def)
    then show ?thesis using context_can_step i(1) by blast
  qed
  show ?thesis
  proof (cases "b_feeder s")
    case (Stamping i)
    then show ?thesis using bench_step.stamp [OF Stamping] bench_step.close [OF Stamping] by blast
  next
    case (Feeding i x)
    then show ?thesis by (rule feeding_can_step)
  next
    case (Stalled i x)
    have pp: "pool_producer p = Blocked (item_work x # works_from n (i + 1))" using Stalled pr by simp
    then have "pool_queue p \<noteq> []" using inv by (auto simp: thread_inv_def)
    then obtain w where w: "w \<in> set (pool_workers p)" "awake w" using inv by (auto simp: thread_inv_def)
    have "worker_phase w \<notin> {Sleeping, Finished}" using w(2) by (auto simp: awake_def)
    then show ?thesis by (rule mover [OF w(1)])
  next
    case Push_failed
    then show ?thesis using pr by simp
  next
    case Awaiting
    show ?thesis
    proof (cases "\<forall>c \<in> set (b_contexts s). ctx_phase c = Exited")
      case True
      then show ?thesis using bench_step.join [OF Awaiting] by blast
    next
      case False
      then obtain i where i: "i < length (b_contexts s)" "ctx_phase (b_contexts s ! i) \<noteq> Exited"
        by (auto simp: in_set_conv_nth)
      then have "worker_phase (pool_workers p ! i) \<noteq> Finished"
        using cr [OF i(1)] by (cases "ctx_phase (b_contexts s ! i)") (auto simp: context_rel_def)
      moreover have "pool_producer p = Joining" using pr Awaiting by simp
      then have "worker_phase (pool_workers p ! i) \<noteq> Sleeping"
        using inv i(1) len by (simp add: thread_inv_def)
      ultimately show ?thesis using mover [of "pool_workers p ! i"] i(1) len by simp
    qed
  qed (use running in simp)
qed

section \<open>Termination\<close>

lemma pthread_pool_work:
  "pool_step (pthread_engine workers n) False p q \<Longrightarrow> pool_work q < pool_work p"
  by (erule pool_step_work) simp

lemma bench_bound:
  assumes "(bench_step n False False ^^ k) s t" and "bench_rel workers n s p"
  shows "\<exists>q. bench_rel workers n t q \<and> 2 * pool_work q + bench_stutter t + k \<le> 2 * pool_work p + bench_stutter s"
  using bench.sim_bound [of workers n False pool_work, OF _ assms] pthread_pool_work by blast

lemma bench_step_spurious: "bench_step n False f s t \<Longrightarrow> bench_step n True f s t"
  by (induction rule: bench_step.induct) (blast intro: bench_step.intros)+

lemma bench_can_join:
  "bench_rel workers n s p \<Longrightarrow> \<exists>t. (bench_step n True False)\<^sup>*\<^sup>* s t \<and> b_feeder t = Joined"
proof (induction "2 * pool_work p + bench_stutter s" arbitrary: s p rule: less_induct)
  case less
  show ?case
  proof (cases "b_feeder s = Joined")
    case True
    then show ?thesis by blast
  next
    case False
    then obtain t where t: "bench_step n False False s t" using bench_progress [OF less(2)] by blast
    then have "(bench_step n False False ^^ 1) s t" by (simp only: relpowp_1)
    from bench_bound [OF this less(2)] obtain q where
      q: "bench_rel workers n t q" "2 * pool_work q + bench_stutter t + 1 \<le> 2 * pool_work p + bench_stutter s" by blast
    then obtain u where "(bench_step n True False)\<^sup>*\<^sup>* t u" "b_feeder u = Joined" using less(1) [OF _ q(1)] by auto
    then show ?thesis using bench_step_spurious [OF t] by (meson converse_rtranclp_into_rtranclp)
  qed
qed

section \<open>The order of the items\<close>

definition ahead :: "pool \<Rightarrow> work_item list" where
  "ahead p = pool_queue p @ unqueued (pool_producer p)"

lemma pool_step_ahead: "pool_step e b s t \<Longrightarrow> \<exists>k. ahead t = drop k (ahead s)"
proof (induction rule: pool_step.induct)
  case (acquire i s w c t)
  show ?case
    by (rule exI [of _ "if pool_queue s = [] then 0 else min (queue_batch_size (engine_config e)) (length (pool_queue s))"])
      (simp add: ahead_def decide_def set_worker_def Let_def)
next
  case (reacquire i s w)
  show ?case
    by (rule exI [of _ "if pool_queue s = [] then 0 else min (queue_batch_size (engine_config e)) (length (pool_queue s))"])
      (simp add: ahead_def decide_def set_worker_def Let_def)
qed (rule exI [of _ 0], simp add: ahead_def set_worker_def run_task_def merge_worker_def wake_worker_def push_item_def
    unqueued_def Let_def case_prod_beta)+

lemma pool_reach_ahead:
  assumes "pool_reach e p" and c: "0 < chunk_size (engine_config e)"
  shows "\<exists>k. ahead p = drop k (work_items (engine_config e))"
proof -
  have "(pool_step e True)\<^sup>*\<^sup>* (initial_pool e (work_items (engine_config e))) p"
    using assms(1) build_work_items_eq [OF c] by (auto simp: pool_reach_def)
  then show ?thesis
  proof (induction rule: rtranclp_induct)
    case base
    show ?case by (rule exI [of _ 0]) (simp add: ahead_def initial_pool_def unqueued_def)
  next
    case (step s t)
    then show ?case using pool_step_ahead [OF step(2)] by (metis drop_drop)
  qed
qed

section \<open>The totals\<close>

lemma aggregate_eq:
  "aggregate cs t =
     \<lparr>total_checksum = total_checksum t XOR xor_list (map ctx_checksum cs),
      total_allocations = total_allocations t + (\<Sum>c\<leftarrow>cs. ctx_allocations c),
      total_tasks = total_tasks t + (\<Sum>c\<leftarrow>cs. ctx_tasks c),
      all_latencies = all_latencies t @ concat (map ctx_latencies cs)\<rparr>"
  by (induction cs arbitrary: t) (simp_all add: xor.assoc add.assoc)

lemma joined_returns:
  assumes rel: "bench_rel workers n s p" and "b_feeder s = Joined"
  shows "pool_producer p = Returned" "counted f p = f (aggregate_metrics p)"
    "(\<Sum>w\<leftarrow>pool_workers p. held recorded w) = 0"
proof -
  show ret: "pool_producer p = Returned" using assms by (simp add: bench_rel_def)
  have fin: "\<forall>w \<in> set (pool_workers p). worker_phase w = Finished"
    using bench_relD(2) [OF rel] ret by (simp add: thread_inv_def)
  then show "counted f p = f (aggregate_metrics p)" "(\<Sum>w\<leftarrow>pool_workers p. held recorded w) = 0"
    by (simp_all add: counted_def unmerged_def held_def sum_list_0 cong: map_cong)
qed

lemma joined_totals:
  assumes rel: "bench_rel workers n s p" and "b_feeder s = Joined"
  shows "total_checksum (totals_of s) = pool_checksum p"
    "total_tasks (totals_of s) = tasks_completed (aggregate_metrics p)"
    "total_allocations (totals_of s) = simulated_allocations (aggregate_metrics p)"
    "length (all_latencies (totals_of s)) = length (aggregate_latencies p)"
  using rel joined_returns [OF assms]
  by (simp_all add: totals_of_def aggregate_eq bench_rel_def totals_rel_def length_concat comp_def)

end
