(* ===== verification/Pthread_Memory.thy ===== *)
theory Pthread_Memory
  imports Pthread_Refinement
begin

text \<open>
  Runs of the C benchmark in which \<open>malloc\<close> fails in a worker. Such a run moves in step with a run in which no
  \<open>malloc\<close> fails: \<open>coupled\<close> states differ in the checksums and the allocations of the workers only, and a worker that
  has missed no allocation has the right checksum. So what was proved of the runs without failures holds of
  all runs, except for these two totals, and the reported number of allocations tells whether the checksum is right.
\<close>

section \<open>Coupled states\<close>

text \<open>\<open>k\<close> is the number of items for which the worker got no memory.\<close>

definition missed :: "nat \<Rightarrow> worker_context \<Rightarrow> worker_context \<Rightarrow> bool" where
  "missed k c d \<longleftrightarrow> ctx_phase c = ctx_phase d \<and> ctx_tasks c = ctx_tasks d \<and> ctx_latencies c = ctx_latencies d \<and>
     k \<le> length (ctx_latencies d) \<and> ctx_allocations c + of_nat k = ctx_allocations d \<and>
     (k = 0 \<longrightarrow> ctx_checksum c = ctx_checksum d)"

definition short_of :: "worker_context \<Rightarrow> worker_context \<Rightarrow> bool" where
  "short_of c d \<longleftrightarrow> (\<exists>k. missed k c d)"

definition coupled :: "bench \<Rightarrow> bench \<Rightarrow> bool" where
  "coupled s u \<longleftrightarrow> b_queue s = b_queue u \<and> b_feeder s = b_feeder u \<and> list_all2 short_of (b_contexts s) (b_contexts u)"

lemma missed_refl [simp]: "missed 0 c c"
  by (simp add: missed_def)

lemma short_of_refl [simp]: "short_of c c"
  using missed_refl unfolding short_of_def by (rule exI)

lemma short_of_phase: "short_of c d \<Longrightarrow> ctx_phase c = ctx_phase d"
  by (auto simp: short_of_def missed_def)

lemma short_of_set_phase: "short_of c d \<Longrightarrow> short_of (c\<lparr>ctx_phase := p\<rparr>) (d\<lparr>ctx_phase := p\<rparr>)"
  by (auto simp: short_of_def missed_def)

lemma short_of_wake: "short_of c d \<Longrightarrow> short_of (wake_context c) (wake_context d)"
  using short_of_set_phase by (simp add: wake_context_def short_of_phase)

lemma coupled_refl: "coupled s s"
  by (simp add: coupled_def list_all2_refl)

lemma coupled_nth:
  assumes "coupled s u" and "i < length (b_contexts s)"
  shows "i < length (b_contexts u)" and "short_of (b_contexts s ! i) (b_contexts u ! i)"
    and "ctx_phase (b_contexts u ! i) = ctx_phase (b_contexts s ! i)"
  using assms by (auto simp: coupled_def list_all2_conv_all_nth short_of_phase)

lemma coupled_phases:
  assumes "coupled s u"
  shows "(\<forall>c \<in> set (b_contexts u). P (ctx_phase c)) \<longleftrightarrow> (\<forall>c \<in> set (b_contexts s). P (ctx_phase c))"
proof -
  have "map ctx_phase (b_contexts u) = map ctx_phase (b_contexts s)"
  proof (rule nth_equalityI)
    show "length (map ctx_phase (b_contexts u)) = length (map ctx_phase (b_contexts s))"
      using assms by (auto simp: coupled_def dest: list_all2_lengthD)
    then show "i < length (map ctx_phase (b_contexts u)) \<Longrightarrow> map ctx_phase (b_contexts u) ! i = map ctx_phase (b_contexts s) ! i" for i
      using coupled_nth(3) [OF assms] by simp
  qed
  then have "ctx_phase ` set (b_contexts u) = ctx_phase ` set (b_contexts s)" by (metis set_map)
  then show ?thesis by (metis (no_types, lifting) image_iff)
qed

lemma coupled_set_context:
  assumes "coupled s u" and "short_of c d"
  shows "coupled (set_context i c s) (set_context i d u)"
  using assms by (simp add: coupled_def set_context_def list_all2_update_cong)

lemma coupled_queue:
  "coupled s u \<Longrightarrow> coupled (s\<lparr>b_queue := q\<rparr>) (u\<lparr>b_queue := q\<rparr>)"
  "coupled s u \<Longrightarrow> coupled (s\<lparr>b_feeder := f\<rparr>) (u\<lparr>b_feeder := f\<rparr>)"
  "coupled s u \<Longrightarrow> coupled (s\<lparr>b_queue := q, b_feeder := f\<rparr>) (u\<lparr>b_queue := q, b_feeder := f\<rparr>)"
  by (simp_all add: coupled_def)

section \<open>Steps\<close>

lemma coupled_pop:
  assumes "coupled s u" and "i < length (b_contexts s)"
  shows "coupled (pop_step i s) (pop_step i u)"
proof -
  have "b_queue u = b_queue s" "b_feeder u = b_feeder s" using assms(1) by (simp_all add: coupled_def)
  then show ?thesis
    using coupled_nth [OF assms] assms(1)
    by (auto simp: pop_step_def Let_def split: option.splits prod.splits
        intro!: coupled_set_context short_of_set_phase coupled_queue)
qed

text \<open>The body of the loop of a worker, when its array of latencies has room for one more.\<close>

lemma short_of_work:
  assumes "short_of (b_contexts s ! i) (b_contexts u ! i)" and "length (ctx_latencies (b_contexts u ! i)) < task_count n"
    and "coupled s u"
  shows "coupled (work_step n i allocated t x s) (work_step n i True t x u)"
proof -
  obtain k where k: "missed k (b_contexts s ! i) (b_contexts u ! i)" using assms(1) by (auto simp: short_of_def)
  let ?c = "\<lambda>a c. let (item_checksum, allocations) = process_item a (bench_data n) x (ctx_allocations c)
    in c\<lparr>ctx_allocations := allocations, ctx_checksum := ctx_checksum c XOR item_checksum, ctx_tasks := ctx_tasks c + 1,
         ctx_latencies := ctx_latencies c @ [t - queued_at_ns x], ctx_phase := Popping\<rparr>"
  have room: "length (ctx_latencies (b_contexts s ! i)) < task_count n" using k assms(2) by (simp add: missed_def)
  have step: "work_step n i a t x v = set_context i (?c a (b_contexts v ! i)) v"
    if "length (ctx_latencies (b_contexts v ! i)) < task_count n" for a v
    using that by (simp add: work_step_def Let_def case_prod_beta)
  have "missed (if allocated then k else k + 1) (?c allocated (b_contexts s ! i)) (?c True (b_contexts u ! i))"
    using k by (auto simp: missed_def process_item_def Let_def case_prod_beta algebra_simps)
  then show ?thesis
    using assms(3) unfolding step [OF room] step [OF assms(2)]
    by (intro coupled_set_context) (auto simp: short_of_def)
qed

text \<open>A step of a run that may be short of memory is matched by a step of the run that never is.\<close>

lemma coupled_step:
  assumes c: "coupled s u" and rel: "bench_rel workers n u p" and step: "bench_step n b f s t"
  shows "\<exists>v. bench_step n b False u v \<and> coupled t v"
proof -
  have q: "b_queue u = b_queue s" "b_feeder u = b_feeder s" "length (b_contexts u) = length (b_contexts s)"
    using c by (auto simp: coupled_def list_all2_lengthD)
  note same = coupled_nth [OF c]
  from step show ?thesis
  proof cases
    case (pop i contended start_ns end_ns)
    let ?q = "lock_queue contended start_ns end_ns"
    have "coupled (pop_step i (s\<lparr>b_queue := ?q (b_queue s)\<rparr>)) (pop_step i (u\<lparr>b_queue := ?q (b_queue u)\<rparr>))"
      by (rule coupled_pop) (use c pop(2) q in \<open>simp_all add: coupled_queue\<close>)
    then show ?thesis using bench_step.pop [of i u n b False contended start_ns end_ns] same [OF pop(2)] pop(1,3) by auto
  next
    case (resume i)
    then show ?thesis using bench_step.resume [of i u n b False] same [OF resume(2)] coupled_pop [OF c resume(2)] by auto
  next
    case (work i item allocated end_ns)
    have "ctx_phase (b_contexts u ! i) = Working item" using same [OF work(2)] work(3) by simp
    note this = this work_room [OF rel same(1) [OF work(2)] this]
    then show ?thesis
      using bench_step.work [of i u item True False n b end_ns] same [OF work(2)] short_of_work [OF same(2) [OF work(2)] _ c] work(1)
      by blast
  next
    case (stamp i now)
    then show ?thesis using bench_step.stamp [of u i n b False now] coupled_queue(2) [OF c] q by auto
  next
    case (feed_signal i item q' j)
    have "short_of (wake_context (b_contexts s ! j)) (wake_context (b_contexts u ! j))"
      by (rule short_of_wake [OF same(2) [OF feed_signal(4)]])
    from coupled_set_context [OF coupled_queue(3) [OF c] this] show ?thesis
      using bench_step.feed_signal [of u i item q' j n b False] same [OF feed_signal(4)] feed_signal q by auto
  next
    case (feed_quiet i item q')
    then have "\<forall>c \<in> set (b_contexts u). ctx_phase c \<noteq> Waiting" by (subst coupled_phases [OF c])
    then show ?thesis
      using bench_step.feed_quiet [of u i item q' n b False] feed_quiet coupled_queue(3) [OF c] q by auto
  next
    case (feed_wait i item)
    then show ?thesis using bench_step.feed_wait [of u i item n b False] coupled_queue(2) [OF c] q by auto
  next
    case (feed_error i item rc q')
    then show ?thesis using bench_step.feed_error [of u i item rc q' n b False] coupled_queue(3) [OF c] q by auto
  next
    case (close i)
    have "coupled t (u\<lparr>b_queue := close_locked (b_queue u), b_contexts := map wake_context (b_contexts u), b_feeder := Awaiting\<rparr>)"
      using c close(1) q by (simp add: coupled_def list_all2_conv_all_nth short_of_wake)
    then show ?thesis using bench_step.close [of u i n b False] close(2,3) q by auto
  next
    case join
    then have "\<forall>c \<in> set (b_contexts u). ctx_phase c = Exited" by (subst coupled_phases [OF c])
    then show ?thesis using bench_step.join [of u n b False] join coupled_queue(2) [OF c] q by auto
  next
    case (context_spurious i)
    then show ?thesis
      using bench_step.context_spurious [of b i u n False] same [OF context_spurious(3)] context_spurious(1,2,4)
        coupled_set_context [OF c short_of_wake [OF same(2) [OF context_spurious(3)]]] by auto
  next
    case (feeder_spurious i item)
    then show ?thesis using bench_step.feeder_spurious [of b u i item n False] coupled_queue(2) [OF c] q by auto
  qed
qed

text \<open>And the run that never is cannot move further: whatever a thread of it can do, its counterpart can.\<close>

lemma coupled_enabled:
  assumes c: "coupled s u" and step: "bench_step n b False u v"
  shows "\<exists>t. bench_step n b f s t"
proof -
  have q: "b_feeder s = b_feeder u" "length (b_contexts s) = length (b_contexts u)"
    using c by (auto simp: coupled_def list_all2_lengthD)
  then have same: "ctx_phase (b_contexts s ! i) = ctx_phase (b_contexts u ! i)" if "i < length (b_contexts u)" for i
    using coupled_nth(3) [OF c, of i] that by simp
  from step show ?thesis
  proof cases
    case (pop i contended start_ns end_ns)
    then show ?thesis using context_can_step [of i s] same [of i] q by simp
  next
    case (resume i)
    then show ?thesis using context_can_step [of i s] same [of i] q by simp
  next
    case (work i item allocated end_ns)
    then show ?thesis using context_can_step [of i s] same [of i] q by simp
  next
    case (stamp i now)
    then show ?thesis using bench_step.stamp [of s i n b f now] q by auto
  next
    case (close i)
    then show ?thesis using bench_step.close [of s i] q by auto
  next
    case join
    then have "\<forall>c \<in> set (b_contexts s). ctx_phase c = Exited" by (subst (asm) coupled_phases [OF c])
    then show ?thesis using bench_step.join [of s n b f] join q by auto
  next
    case (context_spurious i)
    then show ?thesis using bench_step.context_spurious [of b i s] same [of i] q by auto
  next
    case (feeder_spurious i item)
    then show ?thesis using bench_step.feeder_spurious [of b s i item] q by auto
  qed (use feeding_can_step [of s] q in auto)
qed

section \<open>Runs\<close>

lemma bench_step_rel:
  assumes "bench_rel workers n s p" and "bench_step n b False s t"
  shows "\<exists>q. bench_rel workers n t q"
  using bench.sim [OF assms] by blast

lemma coupled_run:
  "(bench_step n b f ^^ k) s t \<Longrightarrow> bench_rel workers n s p \<Longrightarrow>
     \<exists>u q. (bench_step n b False ^^ k) s u \<and> coupled t u \<and> bench_rel workers n u q"
proof (induction k arbitrary: t)
  case 0
  then show ?case using coupled_refl by auto
next
  case (Suc k)
  obtain r where r: "(bench_step n b f ^^ k) s r" "bench_step n b f r t" using Suc.prems(1) by auto
  obtain u q where u: "(bench_step n b False ^^ k) s u" "coupled r u" "bench_rel workers n u q"
    using Suc.IH [OF r(1) Suc.prems(2)] by blast
  obtain v where v: "bench_step n b False u v" "coupled t v" using coupled_step [OF u(2,3) r(2)] by blast
  then show ?case using u(1) bench_step_rel [OF u(3) v(1)] by (meson relpowp_Suc_I)
qed

lemma bench_reach_coupled:
  assumes "0 < workers" and "task_count n + workers + 1 < 2 ^ 64" and "bench_reach workers n faulty s"
  shows "\<exists>u p. bench_reach workers n False u \<and> coupled s u \<and> bench_rel workers n u p"
proof -
  obtain q where q: "new_queue = Inr q" "(bench_step n True faulty)\<^sup>*\<^sup>* (initial_bench workers q) s"
    using assms(3) by (auto simp: bench_reach_def)
  then obtain k where "(bench_step n True faulty ^^ k) (initial_bench workers q) s" by (metis rtranclp_imp_relpowp)
  from coupled_run [OF this initial_bench_rel [OF assms(1,2) q(1)]] show ?thesis
    using q(1) by (meson bench_reach_def relpowp_imp_rtranclp)
qed

section \<open>The totals\<close>

lemma short_of_sums:
  "list_all2 short_of cs ds \<Longrightarrow>
     \<exists>k \<le> (\<Sum>d\<leftarrow>ds. length (ctx_latencies d)).
       (\<Sum>c\<leftarrow>cs. ctx_allocations c) + of_nat k = (\<Sum>d\<leftarrow>ds. ctx_allocations d) \<and>
       (k = 0 \<longrightarrow> xor_list (map ctx_checksum cs) = xor_list (map ctx_checksum ds))"
proof (induction rule: list_all2_induct)
  case (Cons c cs d ds)
  obtain k where k: "k \<le> (\<Sum>d\<leftarrow>ds. length (ctx_latencies d))"
    "(\<Sum>c\<leftarrow>cs. ctx_allocations c) + of_nat k = (\<Sum>d\<leftarrow>ds. ctx_allocations d)"
    "k = 0 \<longrightarrow> xor_list (map ctx_checksum cs) = xor_list (map ctx_checksum ds)"
    using Cons.IH by blast
  obtain j where j: "missed j c d" using Cons.hyps(1) by (auto simp: short_of_def)
  show ?case
  proof (intro exI [of _ "j + k"] conjI)
    have "(\<Sum>c\<leftarrow>c # cs. ctx_allocations c) + of_nat (j + k) =
        (ctx_allocations c + of_nat j) + ((\<Sum>c\<leftarrow>cs. ctx_allocations c) + of_nat k)" by (simp add: ac_simps)
    also have "ctx_allocations c + of_nat j = ctx_allocations d" using j by (simp add: missed_def)
    finally show "(\<Sum>c\<leftarrow>c # cs. ctx_allocations c) + of_nat (j + k) = (\<Sum>d\<leftarrow>d # ds. ctx_allocations d)"
      unfolding k(2) by simp
  qed (use j k in \<open>simp_all add: missed_def\<close>)
qed simp

lemma coupled_totals:
  assumes "coupled s u"
  shows "total_tasks (totals_of s) = total_tasks (totals_of u)"
    and "all_latencies (totals_of s) = all_latencies (totals_of u)"
    and "\<exists>k \<le> length (all_latencies (totals_of u)).
      total_allocations (totals_of s) + of_nat k = total_allocations (totals_of u) \<and>
      (k = 0 \<longrightarrow> total_checksum (totals_of s) = total_checksum (totals_of u))"
proof -
  have a: "list_all2 short_of (b_contexts s) (b_contexts u)" using assms by (simp add: coupled_def)
  then have "map ctx_tasks (b_contexts s) = map ctx_tasks (b_contexts u) \<and>
      map ctx_latencies (b_contexts s) = map ctx_latencies (b_contexts u)"
    by (induction rule: list_all2_induct) (auto simp: short_of_def missed_def)
  then show "total_tasks (totals_of s) = total_tasks (totals_of u)"
    "all_latencies (totals_of s) = all_latencies (totals_of u)"
    by (simp_all add: totals_of_def aggregate_eq)
  show "\<exists>k \<le> length (all_latencies (totals_of u)).
      total_allocations (totals_of s) + of_nat k = total_allocations (totals_of u) \<and>
      (k = 0 \<longrightarrow> total_checksum (totals_of s) = total_checksum (totals_of u))"
    using short_of_sums [OF a] by (simp add: totals_of_def aggregate_eq length_concat comp_def)
qed

end
