(* ===== verification/Pthread_Properties.thy ===== *)
theory Pthread_Properties
  imports Pthread_Memory Result_Properties
begin

text \<open>
  The properties of the C benchmark: its queue is a bounded list that drains after it was closed; a run hands
  the items out in order, ends, and reports what the performance engine reports on the same workload. The runs are
  those in which \<open>malloc\<close> may fail in a worker, where a property does not say otherwise. The last property is about sorting
  and percentiles.
\<close>

section \<open>The queue\<close>

text \<open>
  C29. The queue of the C benchmark behaves, on every sequence of pushes and pops that do not wait, as a list of at
  most \<open>n\<close> items: the same operations succeed and the same items come out, in the order in which they went in. Once
  it is closed it refuses every further push with \<open>ECANCELED\<close>, and a caller of pop gets exactly the items that are
  left and then 0.
\<close>

theorem pthread_queue_refines:
  assumes "pthread_work_queue_init null allocated r1 r2 r3 n = Inr q"
    and "fifo_run pq_try_push pq_try_pop ops q = (out, acc, t)"
  shows "fifo_run (list_push n) list_pop ops [] = (out, acc, pq_items t) \<and> out @ pq_items t = acc \<and>
    pthread_work_queue_push 0 wait_rc (pthread_work_queue_close 0 (Some t)) x =
      Some (ECANCELED, pthread_work_queue_close 0 (Some t)) \<and>
    pq_drain (n + 1) (close_locked t) = (pq_items t, Some 0)"
proof -
  have q: "pq_ok q \<and> \<not> pq_closed q" "pq_items q = []" "pq_capacity q = n"
    using pq_init [OF assms(1)] by simp_all
  have r: "fifo_run (list_push n) list_pop ops [] = (out, acc, pq_items t)" "pq_ok t" "pq_capacity t = n"
    using pq.run_refines [OF q(1) assms(2)] by (simp_all add: q)
  have c: "pq_ok (close_locked t)" "pq_items (close_locked t) = pq_items t" by (simp_all add: close_locked_def r(2))
  have "length (pq_items t) < n + 1" using r(2,3) by (simp add: pq_ok_def)
  then have "pq_drain (n + 1) (close_locked t) = (pq_items t, Some 0)"
    by (intro pq_drain_closed [OF c(1) _ c(2)]) (simp_all add: close_locked_def)
  then show ?thesis
    using r(1) pq.run_fifo [OF q(1) assms(2)]
    by (simp add: q(2) pthread_work_queue_close_def pthread_work_queue_push_def push_locked_def close_locked_def)
qed

definition item_at :: "nat \<Rightarrow> pthread_item" where
  "item_at i = make_item 600 i 0"

theorem pthread_queue_refines_witness:
  "\<exists>q t. pthread_work_queue_init False True 0 0 0 2 = Inr q \<and>
     fifo_run pq_try_push pq_try_pop [Push (item_at 0), Push (item_at 1), Push (item_at 2), Pop] q =
       ([item_at 0], [item_at 0, item_at 1], t) \<and>
     pq_drain 3 (close_locked t) = ([item_at 1], Some 0)"
proof -
  let ?ops = "[Push (item_at 0), Push (item_at 1), Push (item_at 2), Pop]"
  obtain q where q: "pthread_work_queue_init False True 0 0 0 2 = Inr q" by (simp add: pthread_work_queue_init_def)
  obtain out acc t where run: "fifo_run pq_try_push pq_try_pop ?ops q = (out, acc, t)" using prod_cases3 by blast
  note r = pthread_queue_refines [OF q run, of 0 zero_item]
  have "fifo_run (list_push 2) list_pop ?ops [] = ([item_at 0], [item_at 0, item_at 1], [item_at 1])"
    by (simp add: list_push_def list_pop_def)
  from trans [OF conjunct1 [OF r, symmetric] this]
  have "out = [item_at 0]" "acc = [item_at 0, item_at 1]" "pq_items t = [item_at 1]" by simp_all
  then show ?thesis using q run r by simp
qed

section \<open>Runs\<close>

text \<open>The items that the feeder has not pushed yet, in order.\<close>

fun unfed :: "nat \<Rightarrow> feeder \<Rightarrow> work_item list" where
  "unfed n (Stamping i) = works_from n i"
| "unfed n (Feeding i item) = item_work item # works_from n (i + 1)"
| "unfed n (Stalled i item) = item_work item # works_from n (i + 1)"
| "unfed n f = []"

lemma unfed_abs: "feeder_abs n f = Some r \<Longrightarrow> unqueued r = unfed n f"
  by (cases f) (auto simp: unqueued_def)

text \<open>
  C28. In every state that a run of the C benchmark reaches, with any number of spurious wake-ups and whether or not
  \<open>malloc\<close> fails in its workers, the items in the
  queue followed by those that the feeder has still to push are an end segment of the chunks of the workload, in order:
  nothing is lost, doubled or overtaken between the feeder and the workers. The queue never holds more than its
  1024 items, and no push ever fails.
\<close>

theorem pthread_order:
  assumes "0 < workers" and "task_count n + workers + 1 < 2 ^ 64" and "bench_reach workers n faulty s"
  shows "(\<exists>k. map item_work (pq_items (b_queue s)) @ unfed n (b_feeder s) = drop k (works_from n 0)) \<and>
    pq_count (b_queue s) \<le> 1024 \<and> b_feeder s \<noteq> Push_failed"
proof -
  obtain u p where u: "coupled s u" and p: "bench_rel workers n u p" using bench_reach_coupled [OF assms] by blast
  have s: "b_queue s = b_queue u" "b_feeder s = b_feeder u" using u by (simp_all add: coupled_def)
  note reach = bench_relD(1) [OF p]
  obtain k where "ahead p = drop k (work_items (pthread_config workers n))"
    using pool_reach_ahead [OF reach] by auto
  then have "\<exists>k. map item_work (pq_items (b_queue s)) @ unfed n (b_feeder s) = drop k (works_from n 0)"
    using p by (auto simp: bench_rel_def queue_rel_def ahead_def works_all [of n workers] unfed_abs s)
  moreover have "pq_count (b_queue s) \<le> 1024" "b_feeder s \<noteq> Push_failed"
    using p by (auto simp: bench_rel_def queue_rel_def pq_ok_def s)
  ultimately show ?thesis by blast
qed

lemma new_queue_Inr: "\<exists>q. new_queue = Inr q"
  by (simp add: new_queue_def pthread_work_queue_init_def)

lemma initial_bench_reach: "new_queue = Inr q \<Longrightarrow> bench_reach workers n faulty (initial_bench workers q)"
  by (auto simp: bench_reach_def)

theorem pthread_order_witness:
  "\<exists>q. new_queue = Inr q \<and> pq_items q = [] \<and> (\<exists>k. works_from 600 0 = drop k (works_from 600 0)) \<and>
     length (works_from 600 0) = 3"
proof -
  obtain q where q: "new_queue = Inr q" using new_queue_Inr by blast
  then have e: "pq_items q = []" using pq_init by (auto simp: new_queue_def)
  have "task_count 600 + 2 + 1 < 2 ^ 64" by (simp add: task_count_def chunk_def)
  from pthread_order [OF _ this initial_bench_reach [OF q, of 2 600 True]]
  have "\<exists>k. works_from 600 0 = drop k (works_from 600 0)" by (simp add: initial_bench_def e)
  then show ?thesis using q e by (auto simp: works_from_def task_count_def chunk_def)
qed

text \<open>
  C27. Without spurious wake-ups a run of the C benchmark ends: whatever the interleaving, and whether or not \<open>malloc\<close>
  fails in its workers, it takes a bounded number of steps, and as long as the threads have not been joined one of them can take a step. In particular no worker
  sleeps on after the queue was closed.
\<close>

theorem pthread_terminates:
  assumes "0 < workers" and "task_count n + workers + 1 < 2 ^ 64" and "new_queue = Inr q"
    and "(bench_step n False faulty ^^ k) (initial_bench workers q) s"
  shows "k \<le> 14 * task_count n + 6 * workers + 7 \<and> (b_feeder s = Joined \<or> (\<exists>t. bench_step n False faulty s t))"
proof -
  let ?p = "initial_pool (pthread_engine workers n) (work_items (pthread_config workers n))"
  have "pool_work ?p = 7 * task_count n + 3 * workers + 3"
    by (simp add: pool_work_def initial_pool_def new_worker_def sum_list_replicate)
  moreover obtain u where u: "(bench_step n False False ^^ k) (initial_bench workers q) u" "coupled s u"
    using coupled_run [OF assms(4) initial_bench_rel [OF assms(1-3)]] by blast
  moreover obtain r where r: "bench_rel workers n u r"
    "2 * pool_work r + bench_stutter u + k \<le> 2 * pool_work ?p + bench_stutter (initial_bench workers q)"
    using bench_bound [OF u(1) initial_bench_rel [OF assms(1-3)]] by blast
  moreover have "bench_stutter (initial_bench workers q) = 1" by (simp add: bench_stutter_def initial_bench_def)
  moreover have "b_feeder s = Joined \<or> (\<exists>t. bench_step n False faulty s t)"
  proof -
    have "b_feeder u = b_feeder s" using u(2) by (simp add: coupled_def)
    then show ?thesis using bench_progress [OF r(1), of False False] coupled_enabled [OF u(2)] by metis
  qed
  ultimately show ?thesis by auto
qed

theorem pthread_terminates_witness:
  "\<exists>q s. new_queue = Inr q \<and> (bench_step 600 False True ^^ 1) (initial_bench 2 q) s \<and>
     (b_feeder s = Joined \<or> (\<exists>t. bench_step 600 False True s t))"
proof -
  obtain q where q: "new_queue = Inr q" using new_queue_Inr by blast
  have small: "task_count 600 + 2 + 1 < 2 ^ 64" by (simp add: task_count_def chunk_def)
  have "bench_step 600 False True (initial_bench 2 q) ((initial_bench 2 q)\<lparr>b_feeder := Feeding 0 (make_item 600 0 7)\<rparr>)"
    by (rule bench_step.stamp) (simp_all add: initial_bench_def task_count_def chunk_def)
  then obtain s where s: "(bench_step 600 False True ^^ 1) (initial_bench 2 q) s" unfolding relpowp_1 by blast
  from pthread_terminates [OF _ small q s] q s show ?thesis by auto
qed

section \<open>The result\<close>

lemma unat_of_nat_u64: "k < 2 ^ 64 \<Longrightarrow> unat (of_nat k :: u64) = k"
  by (simp only: unsigned_of_nat) (simp add: take_bit_nat_eq_self)

lemma allocations_missing:
  assumes "a + of_nat k = (of_nat n :: u64)" and "k \<le> n" and "n < 2 ^ 64"
  shows "a \<le> of_nat n" and "a = of_nat n \<longleftrightarrow> k = 0"
proof -
  have "a = of_nat (n - k)" using assms(1,2) by (simp add: of_nat_diff eq_diff_eq)
  then have "unat a = n - k" using unat_of_nat_u64 [of "n - k"] assms(3) by simp
  moreover have "unat (of_nat n :: u64) = n" by (rule unat_of_nat_u64 [OF assms(3)])
  ultimately show "a \<le> of_nat n" "a = of_nat n \<longleftrightarrow> k = 0"
    using assms(2) by (auto simp: word_le_nat_alt word_unat_eq_iff)
qed

text \<open>A run in which no \<open>malloc\<close> fails.\<close>

lemma joined_agrees:
  assumes "0 < workers" and "task_count n + workers < 2 ^ 53" and p: "bench_rel workers n s p" and "b_feeder s = Joined"
  shows "\<exists>m. run_single_threaded (pthread_engine workers n) = Some (total_checksum (totals_of s), m, task_count n) \<and>
    simulated_allocations m = of_nat (task_count n) \<and>
    total_tasks (totals_of s) = tasks_completed m \<and> total_allocations (totals_of s) = simulated_allocations m \<and>
    length (all_latencies (totals_of s)) = task_count n \<and>
    workers \<le> unat (pq_lock_acquisitions (b_queue s)) \<and>
    unat (pq_lock_acquisitions (b_queue s)) \<le> task_count n + workers \<and>
    dle (Fin 0) (bench_contention (b_queue s)) \<and> dle (bench_contention (b_queue s)) (Fin 1)"
proof -
  let ?e = "pthread_engine workers n"
  note inv = bench_relD [OF p] and ret = joined_returns [OF p assms(4)] and totals = joined_totals [OF p assms(4)]
  note new = new_pthread_engine [OF assms(1), of n]
  note fin = returned_finished [OF new inv(1) ret(1)]
  note acc = returned_accounts [OF inv(4) fin(2) ret(1) fin(1), unfolded inv(5)]
  have locks: "pq_lock_acquisitions (b_queue s) = lock_acquisitions (aggregate_metrics p)"
    "pq_contended (b_queue s) = contended_lock_acquisitions (aggregate_metrics p)"
    using p by (simp_all add: bench_rel_def queue_rel_def ret(2))
  obtain m k where m: "run_single_threaded ?e = Some (pool_checksum p, m, k)"
    "tasks_completed (aggregate_metrics p) = tasks_completed m"
    "simulated_allocations (aggregate_metrics p) = simulated_allocations m"
    using returned_agrees [OF new inv(1) ret(1)] by blast
  have "k = task_count n" "simulated_allocations m = of_nat (task_count n)"
    using m(1) run_single_threaded_eq [of ?e] by (auto simp: Let_def)
  moreover have "dle (Fin 0) (bench_contention (b_queue s)) \<and> dle (bench_contention (b_queue s)) (Fin 1)"
    using rate_unit [OF acc(3)] acc(1,2) assms(1,2) by (simp add: bench_contention_def locks)
  ultimately show ?thesis
    using m totals acc(1,2,4) assms(4) by (simp add: locks)
qed

text \<open>
  C26. The two implementations agree: a run of the C benchmark that has joined its threads, whatever the
  interleaving, the lock contention, the clock, the spurious wake-ups and the failures of \<open>malloc\<close> in the workers, exits
  with 0 and reports the number of tasks of the single-threaded run of the C++ engine on the same workload in chunks of
  256. It reports at most as many allocations, and when as many, which is always so when no \<open>malloc\<close> fails, then also
  the same checksum. It has one latency per task, has acquired the lock at least once per worker and at most once more
  than there are tasks and workers together, and a contention rate between zero and one.
\<close>

theorem pthread_agrees:
  assumes "0 < workers" and "task_count n + workers < 2 ^ 53"
    and "bench_reach workers n faulty s" and "b_feeder s = Joined"
  shows "\<exists>c m. run_single_threaded (pthread_engine workers n) = Some (c, m, task_count n) \<and>
    total_tasks (totals_of s) = tasks_completed m \<and>
    total_allocations (totals_of s) \<le> simulated_allocations m \<and>
    (\<not> faulty \<longrightarrow> total_allocations (totals_of s) = simulated_allocations m) \<and>
    (total_allocations (totals_of s) = simulated_allocations m \<longrightarrow> total_checksum (totals_of s) = c) \<and>
    length (all_latencies (totals_of s)) = task_count n \<and>
    workers \<le> unat (pq_lock_acquisitions (b_queue s)) \<and>
    unat (pq_lock_acquisitions (b_queue s)) \<le> task_count n + workers \<and>
    dle (Fin 0) (bench_contention (b_queue s)) \<and> dle (bench_contention (b_queue s)) (Fin 1) \<and>
    bench_outcome workers n elapsed s = Some (exits 0 (bench_header @ bench_row workers n elapsed s) [])"
proof -
  have few: "task_count n + workers + 1 < 2 ^ 64" using assms(2) by simp
  obtain u p where u: "coupled s u" and p: "bench_rel workers n u p"
    using bench_reach_coupled [OF assms(1) few assms(3)] by blast
  have s: "b_queue s = b_queue u" "b_feeder u = Joined" using u assms(4) by (simp_all add: coupled_def)
  obtain m where m: "run_single_threaded (pthread_engine workers n) = Some (total_checksum (totals_of u), m, task_count n)"
      "total_allocations (totals_of u) = simulated_allocations m" "simulated_allocations m = of_nat (task_count n)"
      "length (all_latencies (totals_of u)) = task_count n" "total_tasks (totals_of u) = tasks_completed m"
    and locks: "workers \<le> unat (pq_lock_acquisitions (b_queue u))"
      "unat (pq_lock_acquisitions (b_queue u)) \<le> task_count n + workers"
      "dle (Fin 0) (bench_contention (b_queue u)) \<and> dle (bench_contention (b_queue u)) (Fin 1)"
    using joined_agrees [OF assms(1,2) p s(2)] by blast
  note totals = coupled_totals [OF u]
  obtain k where k: "k \<le> task_count n" "total_allocations (totals_of s) + of_nat k = of_nat (task_count n)"
    "k = 0 \<longrightarrow> total_checksum (totals_of s) = total_checksum (totals_of u)"
    using totals(3) m(2-4) by auto
  note missing = allocations_missing [OF k(2,1)]
  have "total_allocations (totals_of s) = simulated_allocations m" if "\<not> faulty"
  proof -
    have "bench_reach workers n False s" using assms(3) that by simp
    then obtain r where "bench_rel workers n s r" using bench_reach_rel [OF assms(1) few] by blast
    from joined_agrees [OF assms(1,2) this assms(4)] show ?thesis using m(1) by auto
  qed
  then show ?thesis
    using m(1,4,5) totals(1,2) locks k(3) missing few assms(4) s(1) by (simp add: m(3) bench_outcome_def)
qed

theorem pthread_agrees_witness:
  "\<exists>s m. bench_reach 2 600 False s \<and> b_feeder s = Joined \<and>
     run_single_threaded (pthread_engine 2 600) = Some (total_checksum (totals_of s), m, 3)"
proof -
  obtain q where q: "new_queue = Inr q" using new_queue_Inr by blast
  have three: "task_count 600 = 3" by (simp add: task_count_def chunk_def)
  obtain s where s: "(bench_step 600 True False)\<^sup>*\<^sup>* (initial_bench 2 q) s" "b_feeder s = Joined"
    using bench_can_join [OF initial_bench_rel [OF _ _ q, of 2 600]] three by auto
  then have r: "bench_reach 2 600 False s" using q by (auto simp: bench_reach_def)
  from pthread_agrees [OF _ _ r s(2), of 0] r s(2) three show ?thesis by auto
qed

section \<open>Short of memory\<close>

lemma bench_arguments_printed:
  assumes "0 < workers" and "workers < 2 ^ 64" and "0 < n" and "n < 2 ^ 64"
  shows "bench_arguments [dec_string workers, dec_string n] = Inr (workers, n)"
proof -
  have "unat (strtoull (dec_string k)) = k" if "k < 2 ^ 64" for k
    using that by (simp add: strtoull_def sto_u64_dec_string unat_of_nat_u64)
  then show ?thesis using assms by (simp add: bench_arguments_def Let_def)
qed

text \<open>
  The C benchmark accepts every number of workers and every workload size from 1 to the largest 64-bit
  number. But the size of its data in bytes is computed in 64 bits: the array that it allocates is large enough to be
  filled exactly when the workload is smaller than $2^{61}$; beyond that the product wraps.
\<close>

theorem pthread_arguments:
  assumes "0 < workers" and "workers < 2 ^ 64" and "0 < n" and "n < 2 ^ 64"
  shows "bench_arguments [dec_string workers, dec_string n] = Inr (workers, n) \<and>
    (8 * n \<le> unat (data_bytes n) \<longleftrightarrow> n < 2 ^ 61)"
proof -
  have "unat (data_bytes n) = 8 * n mod 2 ^ 64"
    unfolding data_bytes_def unat_word_ariths(2) unat_of_nat_u64 [OF assms(4)] by (simp add: mult.commute)
  moreover have "8 * n \<le> 8 * n mod 2 ^ 64 \<longleftrightarrow> n < 2 ^ 61"
  proof
    assume "8 * n \<le> 8 * n mod 2 ^ 64"
    also have "8 * n mod 2 ^ 64 < 2 ^ 64" by (rule mod_less_divisor) simp
    finally have "8 * n < 2 ^ 64" .
    then show "n < 2 ^ 61" by simp
  qed simp
  ultimately show ?thesis using bench_arguments_printed [OF assms] by simp
qed

theorem pthread_arguments_witness:
  "bench_arguments [dec_string 4, dec_string 2305843009213693953] = Inr (4, 2305843009213693953) \<and>
   \<not> 8 * 2305843009213693953 \<le> unat (data_bytes 2305843009213693953)"
  using pthread_arguments [of 4 2305843009213693953] by simp

lemma three_checksum: "run_single_threaded (pthread_engine 1 3) = Some (7963307232, zero_metrics\<lparr>simulated_allocations := 1, tasks_completed := 1\<rparr>, 1)"
proof -
  have i: "work_items (pthread_config 1 3) = [work_item_at 3 256 0]"
    by (simp add: work_items_def item_count_def chunk_def)
  have "task_checksum (pthread_engine 1 3) (work_item_at 3 256 0) = 7963307232"
    by (subst task_checksum_visit) (simp_all add: work_item_at_def visit_order_def Let_def pthread_engine_def engine_of_def pthread_config_def item_value_def data_word_def upt_rec)
  then show ?thesis
    using run_single_threaded_eq [of "pthread_engine 1 3"] by (simp add: i [simplified] task_count_def chunk_def Let_def zero_metrics_def)
qed


text \<open>Runs of the benchmark on one worker and one chunk, where every push has room.\<close>

lemma short_of_memory:
  assumes q: "new_queue = Inr q" and n: "task_count n = 1"
  shows "\<exists>s l. (bench_step n False True)\<^sup>*\<^sup>* (initial_bench 1 q) s \<and> b_feeder s = Joined \<and>
    b_contexts s = [\<lparr>ctx_phase = Exited, ctx_checksum = 0, ctx_tasks = 1, ctx_allocations = 0, ctx_latencies = [l]\<rparr>]"
proof -
  let ?step = "bench_step n False True"
  define x where "x = make_item n 0 0"
  have ok: "pq_ok q" "\<not> pq_closed q" "pq_items q = []" "pq_capacity q = 1024"
    using pq_init [of False True 0 0 0 1024 q] q by (simp_all add: new_queue_def)
  then have "pq_count q = 0" by (metis length_pq_items list.size(3))
  then obtain q1 where q1: "push_locked 0 x q = Some (0, q1)" "pq_ok q1" "pq_items q1 = [x]"
    using push_locked_room [OF ok(1,2), of 0 x] ok by auto
  let ?q2 = "close_locked q1"
  define q3 where "q3 = lock_queue False 0 0 ?q2"
  have ok3: "pq_ok q3" "pq_items q3 = [x]" "pq_closed q3" by (simp_all add: q3_def close_locked_def q1)
  obtain q4 where q4: "pop_locked 0 q3 = Some (1, Some x, q4)" "pq_items q4 = []" "pq_closed q4"
    using pop_locked_some [OF ok3(1,2)] ok3(3) by auto
  define q5 where "q5 = lock_queue False 0 0 q4"
  have "pq_count q5 = 0" "pq_closed q5" using q4 by (simp_all add: q5_def)
  then have pop5: "pop_locked 0 q5 = Some (0, None, q5)" by (simp add: pop_locked_def)
  let ?c = new_context
  let ?s0 = "\<lparr>b_queue = q, b_feeder = Stamping 0, b_contexts = [?c]\<rparr>"
  let ?s1 = "\<lparr>b_queue = q, b_feeder = Feeding 0 x, b_contexts = [?c]\<rparr>"
  let ?s2 = "\<lparr>b_queue = q1, b_feeder = Stamping 1, b_contexts = [?c]\<rparr>"
  let ?s3 = "\<lparr>b_queue = ?q2, b_feeder = Awaiting, b_contexts = [?c]\<rparr>"
  let ?s4 = "\<lparr>b_queue = q4, b_feeder = Awaiting, b_contexts = [?c\<lparr>ctx_phase := Working x\<rparr>]\<rparr>"
  let ?d = "?c\<lparr>ctx_tasks := 1, ctx_latencies := [0 - queued_at_ns x]\<rparr>"
  let ?s5 = "\<lparr>b_queue = q4, b_feeder = Awaiting, b_contexts = [?d]\<rparr>"
  let ?s6 = "\<lparr>b_queue = q5, b_feeder = Awaiting, b_contexts = [?d\<lparr>ctx_phase := Exited\<rparr>]\<rparr>"
  let ?s7 = "\<lparr>b_queue = q5, b_feeder = Joined, b_contexts = [?d\<lparr>ctx_phase := Exited\<rparr>]\<rparr>"
  have c: "ctx_phase ?c = Popping" "wake_context ?c = ?c" by (simp_all add: new_context_def wake_context_def)
  have 1: "?step ?s0 ?s1" using bench_step.stamp [of ?s0 0 n False True 0] n by (simp add: x_def)
  have 2: "?step ?s1 ?s2" using bench_step.feed_quiet [of ?s1 0 x q1 n False True] q1 c by simp
  have 3: "?step ?s2 ?s3" using bench_step.close [of ?s2 1 n False True] n c by simp
  have 4: "?step ?s3 ?s4" using bench_step.pop [of 0 ?s3 n False True False 0 0] c q4
    by (simp add: pop_step_def set_context_def signal_feeder_def q3_def)
  have 5: "?step ?s4 ?s5" using bench_step.work [of 0 ?s4 x False True n False 0] c n
    by (simp add: work_step_def process_item_def set_context_def new_context_def Let_def)
  have 6: "?step ?s5 ?s6" using bench_step.pop [of 0 ?s5 n False True False 0 0] c pop5
    by (simp add: pop_step_def set_context_def q5_def)
  have 7: "?step ?s6 ?s7" using bench_step.join [of ?s6 n False True] by simp
  have "?step\<^sup>*\<^sup>* ?s0 ?s7" using 1 2 3 4 5 6 7 by (meson rtranclp.intros)
  then show ?thesis
    by (intro exI [of _ ?s7] exI [of _ "0 - queued_at_ns x"]) (simp add: initial_bench_def new_context_def)
qed

text \<open>
  C30. The exit codes of the C benchmark, whether or not \<open>malloc\<close> fails in its workers: when \<open>main\<close> ends, it has printed a report and nothing on the error stream and
  returns 0 exactly when its arguments are accepted, the system has granted it its memory, its queue and its threads,
  and then all threads have been joined; otherwise it has printed a message on the error stream and no report, and returns 2
  for bad arguments and 1 for a system that refuses. The exit for a failed push is never taken.
\<close>

theorem pthread_main_outcome:
  assumes "bench_main sys args elapsed s = Some out"
    and "\<forall>workers n. bench_arguments args = Inr (workers, n) \<longrightarrow>
      task_count n + workers + 1 < 2 ^ 64 \<and> bench_reach workers n faulty s"
  shows "(\<exists>workers n q. bench_arguments args = Inr (workers, n) \<and> bench_setup sys = Inr q \<and> b_feeder s = Joined \<and>
      out = exits 0 (bench_header @ bench_row workers n elapsed s) []) \<or>
    (\<exists>workers n. bench_arguments args = Inr (workers, n) \<and> isl (bench_setup sys) \<and>
      exit_code out = 1 \<and> std_out out = [] \<and> std_err out \<noteq> []) \<or>
    (isl (bench_arguments args) \<and> exit_code out = 2 \<and> std_out out = [] \<and> std_err out \<noteq> [])"
proof (cases "bench_arguments args")
  case (Inl o1)
  then have "out = o1" using assms(1) by (simp add: bench_main_def)
  then show ?thesis using Inl by (auto simp: bench_arguments_def exits_def text_line_def Let_def split: if_splits)
next
  case (Inr wn)
  obtain workers n where wn: "bench_arguments args = Inr (workers, n)" using Inr by (cases wn) simp
  then have pos: "0 < workers" by (auto simp: bench_arguments_def Let_def split: if_splits)
  have reach: "task_count n + workers + 1 < 2 ^ 64" "bench_reach workers n faulty s" using assms(2) wn by blast+
  show ?thesis
  proof (cases "bench_setup sys")
    case (Inl o1)
    then have "out = o1" using assms(1) wn by (simp add: bench_main_def)
    moreover have "exit_code o1 = 1 \<and> std_out o1 = [] \<and> std_err o1 \<noteq> []"
      using Inl by (auto simp: bench_setup_def exits_def text_line_def split: prod.splits sum.splits if_splits)
    ultimately show ?thesis using wn Inl by simp
  next
    case (Inr q)
    have o: "bench_outcome workers n elapsed s = Some out" using assms(1) wn Inr by (simp add: bench_main_def)
    obtain u p where "coupled s u" "bench_rel workers n u p" using bench_reach_coupled [OF pos reach] by blast
    then have "b_feeder s \<noteq> Push_failed" by (auto simp: coupled_def bench_rel_def)
    then have "b_feeder s = Joined \<and> out = exits 0 (bench_header @ bench_row workers n elapsed s) []"
      using o by (auto simp: bench_outcome_def split: feeder.splits)
    then show ?thesis using wn Inr by blast
  qed
qed

definition granting :: bench_system where
  "granting = \<lparr>sys_allocations = True, sys_slots = True, sys_codes = (0, 0, 0), sys_latencies = True,
     sys_threads = True\<rparr>"

theorem pthread_main_outcome_witness:
  "\<exists>s. bench_main granting [dec_string 2, dec_string 600] 5000 s = Some (exits 0 (bench_header @ bench_row 2 600 5000 s) [])"
proof -
  have args: "bench_arguments [dec_string 2, dec_string 600] = Inr (2, 600)" by (rule bench_arguments_printed) simp_all
  have three: "task_count 600 = 3" by (simp add: task_count_def chunk_def)
  obtain q where q: "new_queue = Inr q" using new_queue_Inr by blast
  obtain s where s: "(bench_step 600 True False)\<^sup>*\<^sup>* (initial_bench 2 q) s" "b_feeder s = Joined"
    using bench_can_join [OF initial_bench_rel [OF _ _ q, of 2 600]] three by auto
  then have r: "bench_reach 2 600 False s" using q by (auto simp: bench_reach_def)
  have set: "bench_setup granting = Inr q" using q by (simp add: bench_setup_def granting_def new_queue_def)
  have "bench_main granting [dec_string 2, dec_string 600] 5000 s = Some (exits 0 (bench_header @ bench_row 2 600 5000 s) [])"
    using args set s(2) by (simp add: bench_main_def bench_outcome_def)
  from pthread_main_outcome [OF this] args r three this show ?thesis by auto
qed

text \<open>
  A worker that gets no memory for an item counts it as done all the same: there is a run of the C benchmark, with
  one worker and a workload of three numbers, in which \<open>malloc\<close> fails once, which exits with 0 and reports one task, and
  whose checksum is not that of the workload. Only the number of allocations, 0, tells.
\<close>

theorem malloc_failure_silent:
  "\<exists>q s m c. new_queue = Inr q \<and> (bench_step 3 False True)\<^sup>*\<^sup>* (initial_bench 1 q) s \<and>
     bench_outcome 1 3 elapsed s = Some (exits 0 (bench_header @ bench_row 1 3 elapsed s) []) \<and>
     run_single_threaded (pthread_engine 1 3) = Some (c, m, 1) \<and> total_checksum (totals_of s) \<noteq> c \<and>
     total_tasks (totals_of s) = tasks_completed m \<and> total_allocations (totals_of s) = 0"
proof -
  obtain q where q: "new_queue = Inr q" using new_queue_Inr by blast
  obtain s l where s: "(bench_step 3 False True)\<^sup>*\<^sup>* (initial_bench 1 q) s" "b_feeder s = Joined"
    "b_contexts s = [\<lparr>ctx_phase = Exited, ctx_checksum = 0, ctx_tasks = 1, ctx_allocations = 0, ctx_latencies = [l]\<rparr>]"
    using short_of_memory [OF q, of 3] by (auto simp: task_count_def chunk_def)
  show ?thesis
    by (intro exI conjI) (rule q, rule s(1), simp add: bench_outcome_def s(2), rule three_checksum,
      simp_all add: totals_of_def s(3))
qed

section \<open>Sorting and percentiles\<close>

text \<open>
  C31. The comparison functions of the C benchmark determine what \<open>qsort\<close> does: every permutation of 64-bit words, or
  of doubles without \<open>NaN\<close>, that they find in order is the sorted list. So \<open>percentile\<close> leaves the array sorted, and gives the
  value that the C++ engine reports for the same samples; a call on the array that an earlier call has sorted does too.
\<close>

theorem pthread_percentile_agrees:
  assumes "\<forall>x \<in> set values. x \<noteq> NaN"
  shows "(mset ws = mset us \<and> sorted_wrt (\<lambda>x y. compare_uint64 x y \<le> 0) ws \<longrightarrow> ws = c_qsort compare_uint64 us) \<and>
    (mset ys = mset values \<and> sorted_wrt (\<lambda>x y. compare_double x y \<le> 0) ys \<longrightarrow>
      ys = c_qsort compare_double values) \<and>
    c_qsort compare_uint64 us = sort us \<and>
    c_percentile values (length values) f = (percentile values f, sort values) \<and>
    c_percentile (sort values) (length values) g = (percentile values g, sort values)"
  using words.result_unique [of us ws] words.qsort_sorts [of us] numbers.result_unique [OF assms]
    numbers.qsort_sorts [OF assms] c_percentiles [OF assms]
  by simp

theorem pthread_percentile_agrees_witness:
  "c_percentile [Fin 4, Fin 1, Fin 2] 3 (Fin (1 / 2)) = (Fin 2, [Fin 1, Fin 2, Fin 4]) \<and>
   c_percentile [Fin 1, Fin 2, Fin 4] 3 (Fin 1) = (percentile [Fin 4, Fin 1, Fin 2] (Fin 1), [Fin 1, Fin 2, Fin 4])"
proof -
  let ?v = "[Fin 4, Fin 1, Fin 2]"
  have s: "sort ?v = [Fin 1, Fin 2, Fin 4]" by simp
  have "percentile ?v (Fin (1 / 2)) = sort ?v ! 1" by (rule percentile_median_odd) simp_all
  moreover have "\<forall>x \<in> set ?v. x \<noteq> NaN" by simp
  from pthread_percentile_agrees [OF this, of "[]" "[]" "[]" "Fin (1 / 2)" "Fin 1"]
  have "c_percentile ?v (length ?v) (Fin (1 / 2)) = (percentile ?v (Fin (1 / 2)), sort ?v) \<and>
    c_percentile (sort ?v) (length ?v) (Fin 1) = (percentile ?v (Fin 1), sort ?v)" by blast
  moreover have "length ?v = 3" by simp
  ultimately show ?thesis unfolding s by (simp add: numeral_3_eq_3)
qed

end
