(* ===== verification/Distance_Accuracy.thy ===== *)
theory Distance_Accuracy
  imports Trajectory_Properties
begin

text \<open>
  How accurate the distances of the trajectory graph are. \<open>accurate k v x\<close> says that \<open>v\<close> is \<open>x\<close> up to \<open>k\<close> relative
  errors of half a unit in the last place; every rounded operation of \<open>distance_between\<close> and of
  \<open>total_edge_distance\<close> adds one, a square doubles them, a root halves them.
\<close>

section \<open>Counting rounding errors\<close>

definition rounding_unit :: real where
  "rounding_unit = 1 / 2 ^ 53"

definition accurate :: "nat \<Rightarrow> real \<Rightarrow> real \<Rightarrow> bool" where
  "accurate k v x \<longleftrightarrow> 0 \<le> x \<and> (1 - rounding_unit) ^ k * x \<le> v \<and> v \<le> (1 + rounding_unit) ^ k * x"

lemma rounding_unit_bounds: "0 < rounding_unit" "rounding_unit < 1" "0 < 1 - rounding_unit" "0 < 1 + rounding_unit"
  by (simp_all add: rounding_unit_def)

lemma accurate_nonneg: "accurate k v x \<Longrightarrow> 0 \<le> v"
proof -
  assume w: "accurate k v x"
  have "0 \<le> (1 - rounding_unit) ^ k * x" using w rounding_unit_bounds by (simp add: accurate_def)
  then show ?thesis using w by (simp add: accurate_def)
qed

lemma accurate_0 [simp]: "accurate k 0 0"
  by (simp add: accurate_def)

lemma accurate_mono:
  assumes "accurate k v x" and "k \<le> m"
  shows "accurate m v x"
proof -
  have "(1 - rounding_unit) ^ m \<le> (1 - rounding_unit) ^ k"
    using assms(2) rounding_unit_bounds by (intro power_decreasing) simp_all
  moreover have "(1 + rounding_unit) ^ k \<le> (1 + rounding_unit) ^ m"
    using assms(2) rounding_unit_bounds by (intro power_increasing) simp_all
  ultimately show ?thesis using assms(1) unfolding accurate_def
    by (meson mult_right_mono order_trans)
qed

lemma accurate_trans:
  assumes "accurate k v x" and "accurate m w v"
  shows "accurate (k + m) w x"
proof -
  have "(1 - rounding_unit) ^ m * ((1 - rounding_unit) ^ k * x) \<le> (1 - rounding_unit) ^ m * v"
    using assms(1) rounding_unit_bounds by (intro mult_left_mono) (simp_all add: accurate_def)
  moreover have "(1 + rounding_unit) ^ m * v \<le> (1 + rounding_unit) ^ m * ((1 + rounding_unit) ^ k * x)"
    using assms(1) rounding_unit_bounds by (intro mult_left_mono) (simp_all add: accurate_def)
  ultimately show ?thesis using assms unfolding accurate_def power_add by (simp add: mult_ac)
qed

lemma accurate_add: "accurate k v x \<Longrightarrow> accurate k w y \<Longrightarrow> accurate k (v + w) (x + y)"
  by (simp add: accurate_def distrib_left)

lemma accurate_square:
  assumes "accurate k v x"
  shows "accurate (2 * k) (v\<^sup>2) (x\<^sup>2)"
proof -
  have "0 \<le> (1 - rounding_unit) ^ k * x" "(1 - rounding_unit) ^ k * x \<le> v"
    using assms rounding_unit_bounds by (simp_all add: accurate_def)
  then have "((1 - rounding_unit) ^ k * x)\<^sup>2 \<le> v\<^sup>2" by (intro power_mono)
  moreover have "v\<^sup>2 \<le> ((1 + rounding_unit) ^ k * x)\<^sup>2"
    using assms accurate_nonneg [OF assms] by (intro power_mono) (simp_all add: accurate_def)
  ultimately show ?thesis
    by (simp add: accurate_def power_mult_distrib power_mult [symmetric] mult.commute)
qed

lemma accurate_sqrt:
  assumes "accurate (2 * k) v x"
  shows "accurate k (sqrt v) (sqrt x)"
proof -
  have s: "sqrt (c ^ (2 * k) * x) = c ^ k * sqrt x" if "0 < c" for c :: real
  proof -
    have "c ^ (2 * k) = (c ^ k)\<^sup>2" by (simp add: power_mult [symmetric] mult.commute)
    then show ?thesis using that by (simp add: real_sqrt_mult)
  qed
  have "sqrt ((1 - rounding_unit) ^ (2 * k) * x) \<le> sqrt v" "sqrt v \<le> sqrt ((1 + rounding_unit) ^ (2 * k) * x)"
    using assms by (simp_all add: accurate_def)
  then show ?thesis using s rounding_unit_bounds assms by (simp add: accurate_def)
qed

text \<open>The errors together, while they are few.\<close>

lemma accurate_error:
  assumes "accurate k v x" and "k \<le> 2 ^ 52"
  shows "\<bar>v - x\<bar> \<le> 2 * of_nat k * rounding_unit * x"
proof -
  have lo: "1 - of_nat k * rounding_unit \<le> (1 - rounding_unit) ^ k"
    using Bernoulli_inequality [of "- rounding_unit" k] rounding_unit_bounds by simp
  have hi: "(1 + rounding_unit) ^ m \<le> 1 + 2 * of_nat m * rounding_unit" if "m \<le> k" for m
    using that
  proof (induction m)
    case (Suc m)
    have "m \<le> 2 ^ 52" using Suc.prems assms(2) by linarith
    then have "of_nat m \<le> (of_nat (2 ^ 52) :: real)" by (simp only: of_nat_le_iff)
    then have m: "2 * of_nat m * rounding_unit \<le> 1" by (simp add: rounding_unit_def)
    have "(1 + rounding_unit) ^ Suc m \<le> (1 + rounding_unit) * (1 + 2 * of_nat m * rounding_unit)"
      using Suc rounding_unit_bounds by (simp add: mult_left_mono)
    also have "\<dots> = 1 + 2 * of_nat m * rounding_unit + rounding_unit + rounding_unit * (2 * of_nat m * rounding_unit)"
      by (simp add: algebra_simps)
    also have "\<dots> \<le> 1 + 2 * of_nat m * rounding_unit + rounding_unit + rounding_unit * 1"
      using m rounding_unit_bounds by (intro add_left_mono mult_left_mono) simp_all
    finally show ?case by (simp add: algebra_simps)
  qed simp
  have x: "0 \<le> x" using assms(1) by (simp add: accurate_def)
  have "(1 - of_nat k * rounding_unit) * x \<le> v" "v \<le> (1 + 2 * of_nat k * rounding_unit) * x"
    using mult_right_mono [OF lo x] mult_right_mono [OF hi [OF order_refl] x] assms(1)
    by (simp_all add: accurate_def)
  moreover have "of_nat k * rounding_unit * x \<le> 2 * of_nat k * rounding_unit * x" "0 \<le> of_nat k * rounding_unit * x"
    using x rounding_unit_bounds by simp_all
  ultimately show ?thesis by (simp add: abs_le_iff algebra_simps)
qed

section \<open>One operation\<close>

lemma round_val_error:
  assumes "2 powi (- 1022) \<le> r"
  shows "\<bar>round_val r - r\<bar> \<le> r / 2 ^ 53"
proof -
  have pos: "0 < r" using assms powi_pos [of "- 1022"] by linarith
  have "2 powi (- 1022) < (2 :: rat) powi (binexp r + 1)" using binexp_bounds [OF pos] assms by linarith
  then have "- 1022 < binexp r + 1" by (simp only: powi_less_iff)
  then have e: "unit_exp r = binexp r - 52" by (simp add: unit_exp_def)
  let ?q = "r / 2 powi unit_exp r"
  have "round_val r - r = (of_int (round_even ?q) - ?q) * 2 powi unit_exp r"
    using pos by (simp add: round_val_def round_mag_def Let_def left_diff_distrib)
  then have "\<bar>round_val r - r\<bar> = \<bar>of_int (round_even ?q) - ?q\<bar> * 2 powi unit_exp r"
    by (simp only: abs_mult abs_of_pos [OF powi_pos])
  also have "\<dots> \<le> 1 / 2 * 2 powi (binexp r - 52)"
    unfolding e by (rule mult_right_mono [OF round_even_near]) (simp add: less_imp_le)
  also have "\<dots> = 2 powi binexp r / 2 ^ 53" by (simp add: powi_diff)
  also have "\<dots> \<le> r / 2 ^ 53" using binexp_bounds [OF pos] by (intro divide_right_mono) simp_all
  finally show ?thesis .
qed

lemma accurate_round:
  assumes "r = 0 \<or> 2 powi (- 1022) \<le> r"
  shows "accurate 1 (of_rat (round_val r)) (of_rat r)"
proof (cases "r = 0")
  case False
  then have r: "2 powi (- 1022) \<le> r" using assms by simp
  then have pos: "0 < r" using powi_pos [of "- 1022"] by linarith
  have "r - r / 2 ^ 53 \<le> round_val r" "round_val r \<le> r + r / 2 ^ 53"
    using round_val_error [OF r] by linarith+
  then have "of_rat (r - r / 2 ^ 53) \<le> (of_rat (round_val r) :: real)"
    "of_rat (round_val r) \<le> (of_rat (r + r / 2 ^ 53) :: real)"
    by (simp_all only: of_rat_less_eq)
  then have "\<bar>of_rat (round_val r) - of_rat r\<bar> \<le> (rounding_unit * of_rat r :: real)"
    unfolding of_rat_diff of_rat_add of_rat_divide of_rat_power of_rat_numeral_eq rounding_unit_def
    by (simp only: abs_le_iff) simp
  moreover have "0 \<le> (of_rat r :: real)" using pos by simp
  ultimately show ?thesis by (simp add: accurate_def abs_le_iff algebra_simps)
qed simp

lemma of_rat_powi: "of_rat (2 powi e) = (2 powi e :: real)"
  by (simp add: power_int_def of_rat_power of_rat_divide)

lemma accurate_sqrt_val:
  assumes "0 < r"
  shows "accurate 1 (of_rat (sqrt_val r)) (sqrt (of_rat r))"
proof -
  obtain n t where n: "2 ^ 63 \<le> n" and v: "of_nat n / 2 powi t \<le> sqrt_val r" "sqrt_val r < (of_nat n + 1) / 2 powi t"
    and q: "(of_nat n / 2 powi t) ^ 2 \<le> r" "r < ((of_nat n + 1) / 2 powi t) ^ 2"
    using sqrt_val_near [OF assms] by blast
  let ?l = "of_nat n / 2 powi t :: real" and ?h = "(of_nat n + 1) / 2 powi t :: real"
  have l: "of_rat (of_nat n / 2 powi t) = ?l" and h: "of_rat ((of_nat n + 1) / 2 powi t) = ?h"
    by (simp_all add: of_rat_divide of_rat_powi of_rat_add)
  have V: "?l \<le> of_rat (sqrt_val r)" "of_rat (sqrt_val r) < ?h"
    using v unfolding l [symmetric] h [symmetric] by (simp_all only: of_rat_less_eq of_rat_less)
  have Q: "?l\<^sup>2 \<le> of_rat r" "of_rat r < ?h\<^sup>2"
    using q unfolding l [symmetric] h [symmetric] of_rat_power [symmetric] by (simp_all only: of_rat_less_eq of_rat_less)
  have p: "0 < (2 powi t :: real)" by simp
  have S: "?l \<le> sqrt (of_rat r)" "sqrt (of_rat r) < ?h"
    using Q(1) by (rule real_le_rsqrt) (use real_sqrt_less_mono [OF Q(2)] p in simp)
  have "(of_nat (2 ^ 63) :: real) \<le> of_nat n" using n by (simp only: of_nat_le_iff)
  then have "of_nat n + 1 \<le> (1 + rounding_unit) * of_nat n" "(1 - rounding_unit) * (of_nat n + 1) \<le> of_nat n"
    by (simp_all add: rounding_unit_def field_simps)
  then have "?h \<le> (1 + rounding_unit) * ?l" "(1 - rounding_unit) * ?h \<le> ?l"
    using p by (simp_all only: times_divide_eq_right divide_right_mono less_imp_le)
  then show ?thesis
    using V S rounding_unit_bounds assms
      mult_left_mono [OF S(1), of "1 + rounding_unit"] mult_left_mono [OF less_imp_le [OF S(2)], of "1 - rounding_unit"]
    by (simp add: accurate_def)
qed

section \<open>One distance\<close>

text \<open>Differences of coordinates whose squares neither overflow nor underflow.\<close>

definition measurable :: "rat \<Rightarrow> bool" where
  "measurable d \<longleftrightarrow> d = 0 \<or> 2 powi (- 500) \<le> \<bar>d\<bar> \<and> \<bar>d\<bar> \<le> 2 powi 500"

declare round_zero [simp]

text \<open>The rounded square of a rounded difference.\<close>

lemma square_of_difference:
  assumes "measurable d"
  shows "\<exists>p. dmul (round_double d) (round_double d) = Fin p \<and> accurate 3 (of_rat p) ((of_rat d)\<^sup>2) \<and>
    (p = 0 \<or> 2 powi (- 1000) \<le> p) \<and> p \<le> 2 powi 1000"
proof (cases "d = 0")
  case True
  then show ?thesis by (simp add: less_imp_le)
next
  case False
  then have d: "2 powi (- 500) \<le> \<bar>d\<bar>" "\<bar>d\<bar> \<le> 2 powi 500" using assms by (simp_all add: measurable_def)
  have b: "round_double \<bar>d\<bar> = Fin (round_val \<bar>d\<bar>)" "2 powi (- 500) \<le> round_val \<bar>d\<bar>" "round_val \<bar>d\<bar> \<le> 2 powi 500"
    by (rule round_between [OF d]; simp)+
  have b0: "0 \<le> round_val \<bar>d\<bar>" by (rule round_val_nonneg) simp
  have neg: "round_double d = Fin (round_val d)"
    using b(1) round_double_minus [of "\<bar>d\<bar>"] by (cases "0 \<le> d") simp_all
  let ?s = "round_val d * round_val d"
  have s: "?s = round_val \<bar>d\<bar> * round_val \<bar>d\<bar>" by (simp only: round_val_abs [symmetric] abs_mult_self_eq)
  have "(2 :: rat) powi (- 1000) = 2 powi (- 500) * 2 powi (- 500)" "(2 :: rat) powi 1000 = 2 powi 500 * 2 powi 500"
    unfolding powi_add [symmetric] by simp_all
  moreover have "2 powi (- 500) * 2 powi (- 500) \<le> ?s" unfolding s
    by (rule mult_mono [OF b(2,2) b0 less_imp_le [OF powi_pos]])
  moreover have "?s \<le> 2 powi 500 * 2 powi 500" unfolding s
    by (rule mult_mono [OF b(3,3) less_imp_le [OF powi_pos] b0])
  ultimately have s2: "2 powi (- 1000) \<le> ?s" "?s \<le> 2 powi 1000" by (simp_all only:)
  have p: "round_double ?s = Fin (round_val ?s)" "2 powi (- 1000) \<le> round_val ?s" "round_val ?s \<le> 2 powi 1000"
    by (rule round_between [OF s2]; simp)+
  have tiny: "(2 :: rat) powi (- 1022) \<le> 2 powi (- 1000)" "(2 :: rat) powi (- 1022) \<le> 2 powi (- 500)"
    by (rule powi_mono, simp)+
  have "accurate 1 (of_rat (round_val \<bar>d\<bar>)) (of_rat \<bar>d\<bar>)"
    by (rule accurate_round [OF disjI2]) (rule order_trans [OF tiny(2) d(1)])
  note accurate_square [OF this]
  moreover have "(of_rat (round_val \<bar>d\<bar>) :: real)\<^sup>2 = of_rat ?s" by (simp only: s of_rat_mult power2_eq_square)
  moreover have "(of_rat \<bar>d\<bar> :: real)\<^sup>2 = (of_rat d)\<^sup>2" by (cases "0 \<le> d") (simp_all add: of_rat_minus)
  ultimately have "accurate 2 (of_rat ?s) ((of_rat d)\<^sup>2)" by simp
  moreover have "accurate 1 (of_rat (round_val ?s)) (of_rat ?s)"
    by (rule accurate_round [OF disjI2]) (rule order_trans [OF tiny(1) s2(1)])
  ultimately have "accurate 3 (of_rat (round_val ?s)) ((of_rat d)\<^sup>2)" using accurate_trans [of 2 _ _ 1] by simp
  moreover have "dmul (round_double d) (round_double d) = Fin (round_val ?s)" by (simp only: neg dmul.simps p(1))
  ultimately show ?thesis using p(2,3) by (intro exI [of _ "round_val ?s"] conjI disjI2)
qed

fun rat_of :: "double \<Rightarrow> rat" where
  "rat_of (Fin r) = r"
| "rat_of _ = 0"

definition surveyed :: "point \<Rightarrow> point \<Rightarrow> bool" where
  "surveyed a b \<longleftrightarrow>
     point_x a \<in> range Fin \<and> point_y a \<in> range Fin \<and> point_x b \<in> range Fin \<and> point_y b \<in> range Fin \<and>
     measurable (rat_of (point_x b) - rat_of (point_x a)) \<and> measurable (rat_of (point_y b) - rat_of (point_y a))"

definition euclid :: "point \<Rightarrow> point \<Rightarrow> real" where
  "euclid a b =
     sqrt ((of_rat (rat_of (point_x b) - rat_of (point_x a)))\<^sup>2 + (of_rat (rat_of (point_y b) - rat_of (point_y a)))\<^sup>2)"

lemma dsqrt_step:
  assumes "s = 0 \<or> 2 powi (- 1000) \<le> s" and "s \<le> 2 powi 1001"
  shows "\<exists>d. dsqrt (Fin s) = Fin d \<and> accurate 2 (of_rat d) (sqrt (of_rat s)) \<and>
    (d = 0 \<or> 2 powi (- 501) \<le> d) \<and> d \<le> 2 powi 502"
proof (cases "s = 0")
  case True
  then show ?thesis by (simp add: sqrt_val_def less_imp_le)
next
  case False
  then have s: "2 powi (- 1000) \<le> s" using assms(1) by simp
  then have pos: "0 < s" using powi_pos [of "- 1000"] by linarith
  obtain n t where n: "2 ^ 63 \<le> n" and v: "of_nat n / 2 powi t \<le> sqrt_val s" "sqrt_val s < (of_nat n + 1) / 2 powi t"
    and q: "(of_nat n / 2 powi t) ^ 2 \<le> s" "s < ((of_nat n + 1) / 2 powi t) ^ 2"
    using sqrt_val_near [OF pos] by blast
  let ?l = "of_nat n / 2 powi t :: rat" and ?h = "(of_nat n + 1) / 2 powi t :: rat"
  have "(of_nat (2 ^ 63) :: rat) \<le> of_nat n" using n by (simp only: of_nat_le_iff)
  then have "?h \<le> 2 * ?l" using powi_pos [of t] by (simp add: divide_right_mono)
  have l0: "0 \<le> ?l" "0 \<le> ?h" by (simp_all add: less_imp_le)
  have sq: "(2 :: rat) powi (- 1000) = (2 powi (- 500))\<^sup>2" "(2 :: rat) powi 1001 \<le> (2 powi 501)\<^sup>2"
    unfolding power2_eq_square powi_add [symmetric] by simp_all
  have "(2 powi (- 500))\<^sup>2 < ?h\<^sup>2" using s q(2) sq(1) by linarith
  then have "2 powi (- 500) < ?h" by (rule power2_less_imp_less) (rule l0(2))
  then have "2 powi (- 500) < 2 * ?l" using \<open>?h \<le> 2 * ?l\<close> by linarith
  moreover have "(2 :: rat) powi (- 500) = 2 * 2 powi (- 501)" using powi_add [of 1 "- 501"] by simp
  ultimately have lo: "2 powi (- 501) \<le> sqrt_val s" using v(1) by linarith
  have "?l\<^sup>2 \<le> (2 powi 501)\<^sup>2" using q(1) assms(2) sq(2) by linarith
  then have "?l \<le> 2 powi 501" by (rule power2_le_imp_le) (simp add: less_imp_le)
  moreover have "(2 :: rat) powi 502 = 2 * 2 powi 501" using powi_add [of 1 501] by simp
  ultimately have hi: "sqrt_val s \<le> 2 powi 502" using v(2) \<open>?h \<le> 2 * ?l\<close> by linarith
  have d: "round_double (sqrt_val s) = Fin (round_val (sqrt_val s))" "2 powi (- 501) \<le> round_val (sqrt_val s)"
    "round_val (sqrt_val s) \<le> 2 powi 502"
    by (rule round_between [OF lo hi]; simp)+
  have "(2 :: rat) powi (- 1022) \<le> 2 powi (- 501)" by (rule powi_mono) simp
  then have "accurate 1 (of_rat (round_val (sqrt_val s))) (of_rat (sqrt_val s))"
    using lo by (intro accurate_round disjI2) linarith
  from accurate_trans [OF accurate_sqrt_val [OF pos] this]
  have "accurate 2 (of_rat (round_val (sqrt_val s))) (sqrt (of_rat s))" by (simp add: numeral_2_eq_2)
  moreover have "dsqrt (Fin s) = Fin (round_val (sqrt_val s))" using pos by (simp add: d(1))
  ultimately show ?thesis using d(2,3) by (intro exI [of _ "round_val (sqrt_val s)"] conjI disjI2)
qed

lemma distance_accurate:
  assumes "surveyed a b"
  shows "\<exists>d. distance_between a b = Fin d \<and> accurate 4 (of_rat d) (euclid a b) \<and>
    (d = 0 \<or> 2 powi (- 501) \<le> d) \<and> d \<le> 2 powi 502"
proof -
  obtain xa ya xb yb where c: "point_x a = Fin xa" "point_y a = Fin ya" "point_x b = Fin xb" "point_y b = Fin yb"
    using assms by (auto simp: surveyed_def)
  then have m: "measurable (xb - xa)" "measurable (yb - ya)" using assms by (simp_all add: surveyed_def)
  obtain p where p: "dmul (round_double (xb - xa)) (round_double (xb - xa)) = Fin p"
    "accurate 3 (of_rat p) ((of_rat (xb - xa))\<^sup>2)" "p = 0 \<or> 2 powi (- 1000) \<le> p" "p \<le> 2 powi 1000"
    using square_of_difference [OF m(1)] by blast
  obtain q where q: "dmul (round_double (yb - ya)) (round_double (yb - ya)) = Fin q"
    "accurate 3 (of_rat q) ((of_rat (yb - ya))\<^sup>2)" "q = 0 \<or> 2 powi (- 1000) \<le> q" "q \<le> 2 powi 1000"
    using square_of_difference [OF m(2)] by blast
  have pq: "p + q = 0 \<or> 2 powi (- 1000) \<le> p + q"
    using p(3) q(3) powi_pos [of "- 1000"] by (elim disjE) linarith+
  have "(2 :: rat) powi 1001 = 2 * 2 powi 1000" using powi_add [of 1 1000] by simp
  then have up: "p + q \<le> 2 powi 1001" using p(4) q(4) by linarith
  have sum: "round_double (p + q) = Fin (round_val (p + q)) \<and>
      (round_val (p + q) = 0 \<or> 2 powi (- 1000) \<le> round_val (p + q)) \<and> round_val (p + q) \<le> 2 powi 1001"
  proof (cases "p + q = 0")
    case False
    then have "2 powi (- 1000) \<le> p + q" using pq by simp
    then show ?thesis using round_between [OF _ up, of "- 1000"] by simp
  qed (simp add: less_imp_le)
  have "(2 :: rat) powi (- 1022) \<le> 2 powi (- 1000)" by (rule powi_mono) simp
  then have "accurate 1 (of_rat (round_val (p + q))) (of_rat (p + q))"
    using pq by (intro accurate_round) linarith
  moreover have "accurate 3 (of_rat (p + q)) ((of_rat (xb - xa))\<^sup>2 + (of_rat (yb - ya))\<^sup>2)"
    using accurate_add [OF p(2) q(2)] by (simp add: of_rat_add)
  ultimately have "accurate (2 * 2) (of_rat (round_val (p + q))) ((of_rat (xb - xa))\<^sup>2 + (of_rat (yb - ya))\<^sup>2)"
    using accurate_trans [of 3 _ _ 1] by simp
  then have root: "accurate 2 (sqrt (of_rat (round_val (p + q)))) (euclid a b)"
    using accurate_sqrt by (simp add: euclid_def c)
  obtain d where d: "dsqrt (Fin (round_val (p + q))) = Fin d"
    "accurate 2 (of_rat d) (sqrt (of_rat (round_val (p + q))))" "d = 0 \<or> 2 powi (- 501) \<le> d" "d \<le> 2 powi 502"
    using dsqrt_step [of "round_val (p + q)"] sum by blast
  have "distance_between a b = dsqrt (round_double (p + q))"
    using p(1) q(1) by (simp add: distance_between_def dsub_def c)
  then have "distance_between a b = Fin d" using sum d(1) by simp
  moreover have "accurate 4 (of_rat d) (euclid a b)" using accurate_trans [OF root d(2)] by simp
  ultimately show ?thesis using d(3,4) by blast
qed

section \<open>The total\<close>

lemma total_accurate:
  assumes "\<forall>e \<in> set es. \<exists>d. edge_length e = Fin d \<and> accurate 4 (of_rat d) (f e) \<and>
      (d = 0 \<or> 2 powi (- 501) \<le> d) \<and> d \<le> 2 powi 502"
    and "length es \<le> 2 ^ 53"
  shows "\<exists>t. foldl (\<lambda>total e. dadd total (edge_length e)) (Fin 0) es = Fin t \<and>
    accurate (4 + length es) (of_rat t) (\<Sum>e\<leftarrow>es. f e) \<and>
    (t = 0 \<or> 2 powi (- 501) \<le> t) \<and> t \<le> of_nat (length es) * 2 powi 502"
  using assms
proof (induction es rule: rev_induct)
  case (snoc e es)
  obtain t where t: "foldl (\<lambda>total e. dadd total (edge_length e)) (Fin 0) es = Fin t"
    "accurate (4 + length es) (of_rat t) (\<Sum>e\<leftarrow>es. f e)" "t = 0 \<or> 2 powi (- 501) \<le> t"
    "t \<le> of_nat (length es) * 2 powi 502"
    using snoc.IH snoc.prems by auto
  obtain d where d: "edge_length e = Fin d" "accurate 4 (of_rat d) (f e)" "d = 0 \<or> 2 powi (- 501) \<le> d"
    "d \<le> 2 powi 502"
    using snoc.prems(1) by auto
  let ?n = "Suc (length es)"
  have td: "t + d = 0 \<or> 2 powi (- 501) \<le> t + d"
    using t(3) d(3) powi_pos [of "- 501"] by (elim disjE) linarith+
  have n0: "0 \<le> t + d" using td powi_pos [of "- 501"] by (elim disjE) linarith+
  have up: "t + d \<le> of_int (int ?n) * 2 powi 502"
    using t(4) d(4) by (simp add: distrib_right)
  have m: "\<bar>int ?n\<bar> \<le> 2 ^ 53" using snoc.prems(2) by simp
  have exact: "round_val (of_int (int ?n) * 2 powi 502) = of_int (int ?n) * 2 powi 502"
    by (rule round_val_exact [OF m]) simp
  have "(of_int (int ?n) :: rat) \<le> of_int (2 ^ 53)" using m by (simp only: of_int_le_iff)
  then have "of_int (int ?n) * 2 powi 502 \<le> (2 ^ 53 * 2 powi 502 :: rat)"
    by (intro mult_right_mono) (simp_all add: less_imp_le)
  also have "\<dots> = 2 powi 555" using powi_add [of 53 502] by simp
  also have "\<dots> < 2 powi 1024" by (rule powi_strict) simp
  also have "(2 :: rat) powi 1024 = 2 ^ 1024" by (simp add: power_int_def)
  finally have "is_double (of_int (int ?n) * 2 powi 502)" using exact by (simp add: is_double_def)
  from is_double_between [OF this n0 up] have r: "round_double (t + d) = Fin (round_val (t + d))"
    by (simp add: round_double_Fin_iff)
  have low: "round_val (t + d) = 0 \<or> 2 powi (- 501) \<le> round_val (t + d)"
  proof (cases "t + d = 0")
    case False
    then have "round_val (2 powi (- 501)) \<le> round_val (t + d)" using td by (intro round_val_mono) simp
    moreover have "round_val (2 powi (- 501)) = 2 powi (- 501)" using is_double_powi [of "- 501"] by (simp add: is_double_def)
    ultimately show ?thesis by simp
  qed simp
  have "round_val (t + d) \<le> of_nat ?n * 2 powi 502" using round_val_mono [OF up] exact by simp
  moreover have "accurate (4 + length (es @ [e])) (of_rat (round_val (t + d))) (\<Sum>e\<leftarrow>es @ [e]. f e)"
  proof -
    have "(2 :: rat) powi (- 1022) \<le> 2 powi (- 501)" by (rule powi_mono) simp
    then have one: "accurate 1 (of_rat (round_val (t + d))) (of_rat (t + d))"
      using td by (intro accurate_round) linarith
    have "accurate (4 + length es) (of_rat d) (f e)" by (rule accurate_mono [OF d(2)]) simp
    from accurate_add [OF t(2) this]
    have "accurate (4 + length es) (of_rat (t + d)) ((\<Sum>e\<leftarrow>es. f e) + f e)" by (simp add: of_rat_add)
    from accurate_trans [OF this one] show ?thesis by (simp add: add.assoc)
  qed
  ultimately show ?case using t(1) d(1) r low by auto
qed (simp add: less_imp_le)

definition end_points :: "trajectory_graph \<Rightarrow> edge \<Rightarrow> point \<times> point" where
  "end_points g e = (the (omap_get (tg_points g) (edge_from e)), the (omap_get (tg_points g) (edge_to e)))"

text \<open>
  C36. Accuracy of the lengths: in a parsed trajectory whose coordinates are finite and differ along every link by
  zero or by between $2^{-500}$ and $2^{500}$, every edge has the Euclidean distance of its end points up to
  a relative error of $2^{-50}$, and \<open>total_edge_distance\<close> is the sum of these distances, up to
  $(n + 4)\, 2^{-52}$ for $n$ edges.
\<close>

theorem trajectory_distances_accurate:
  assumes "parse_trajectory_csv path contents = Inr p"
    and "\<forall>e \<in> set (tg_edges (parsed_graph p)). case_prod surveyed (end_points (parsed_graph p) e)"
    and "length (tg_edges (parsed_graph p)) \<le> 2 ^ 51"
  shows "(\<forall>e \<in> set (tg_edges (parsed_graph p)). \<exists>d. edge_length e = Fin d \<and>
      \<bar>of_rat d - case_prod euclid (end_points (parsed_graph p) e)\<bar> \<le> case_prod euclid (end_points (parsed_graph p) e) / 2 ^ 50) \<and>
    (\<exists>t. total_edge_distance (parsed_graph p) = Fin t \<and>
      \<bar>of_rat t - (\<Sum>e\<leftarrow>tg_edges (parsed_graph p). case_prod euclid (end_points (parsed_graph p) e))\<bar> \<le>
        of_nat (length (tg_edges (parsed_graph p)) + 4) / 2 ^ 52 *
        (\<Sum>e\<leftarrow>tg_edges (parsed_graph p). case_prod euclid (end_points (parsed_graph p) e)))"
proof -
  let ?es = "tg_edges (parsed_graph p)" and ?f = "\<lambda>e. case_prod euclid (end_points (parsed_graph p) e)"
  have edge: "\<forall>e \<in> set ?es. \<exists>d. edge_length e = Fin d \<and> accurate 4 (of_rat d) (?f e) \<and>
      (d = 0 \<or> 2 powi (- 501) \<le> d) \<and> d \<le> 2 powi 502"
    using parsed_distances [OF assms(1)] distance_accurate assms(2) by (auto simp: end_points_def)
  then have "\<exists>d. edge_length e = Fin d \<and> \<bar>of_rat d - ?f e\<bar> \<le> ?f e / 2 ^ 50" if "e \<in> set ?es" for e
    using that accurate_error [of 4] by (fastforce simp: rounding_unit_def)
  moreover have "length ?es \<le> 2 ^ 53" using assms(3) by simp
  with total_accurate [OF edge] obtain t where t: "total_edge_distance (parsed_graph p) = Fin t"
    "accurate (4 + length ?es) (of_rat t) (\<Sum>e\<leftarrow>?es. ?f e)"
    by (auto simp: total_edge_distance_def)
  have few: "4 + length ?es \<le> 2 ^ 52" using assms(3) by simp
  have "\<bar>of_rat t - (\<Sum>e\<leftarrow>?es. ?f e)\<bar> \<le> of_nat (length ?es + 4) / 2 ^ 52 * (\<Sum>e\<leftarrow>?es. ?f e)"
  proof -
    have "2 * of_nat (4 + length ?es) * rounding_unit = of_nat (length ?es + 4) / 2 ^ 52" by (simp add: rounding_unit_def)
    then show ?thesis using accurate_error [OF t(2) few] by (simp only:)
  qed
  ultimately show ?thesis using t(1) by blast
qed

theorem trajectory_distances_accurate_witness:
  "\<exists>d. edge_length (hd (tg_edges (parsed_graph corner_parsed))) = Fin d \<and> \<bar>of_rat d - 5\<bar> \<le> (5 / 2 ^ 50 :: real)"
proof -
  have "(2 :: rat) powi (- 500) \<le> 2 powi 0" by (rule powi_mono) simp
  then have m: "measurable 3" "measurable 4" by (simp_all add: measurable_def)
  have g: "tg_edges (parsed_graph corner_parsed) = [hd (tg_edges (parsed_graph corner_parsed))]"
    "end_points (parsed_graph corner_parsed) (hd (tg_edges (parsed_graph corner_parsed))) = (corner 1 0 0, corner 2 3 4)"
    by (simp_all add: corner_parsed_def end_points_def omap_get_def)
  have s: "surveyed (corner 1 0 0) (corner 2 3 4)" using m by (simp add: surveyed_def corner_def)
  have "(25 :: real) = 5\<^sup>2" by simp
  then have "sqrt 25 = (5 :: real)" by (simp only: real_sqrt_abs)
  then have e: "euclid (corner 1 0 0) (corner 2 3 4) = 5" by (simp add: euclid_def corner_def)
  have "\<forall>x \<in> set (tg_edges (parsed_graph corner_parsed)). case_prod surveyed (end_points (parsed_graph corner_parsed) x)"
    using s g(2) by (subst g(1)) simp
  moreover have "length (tg_edges (parsed_graph corner_parsed)) \<le> 2 ^ 51" by (simp add: corner_parsed_def)
  ultimately have "\<exists>d. edge_length (hd (tg_edges (parsed_graph corner_parsed))) = Fin d \<and>
      \<bar>of_rat d - case_prod euclid (corner 1 0 0, corner 2 3 4)\<bar> \<le> case_prod euclid (corner 1 0 0, corner 2 3 4) / 2 ^ 50"
    using trajectory_distances_accurate [OF corner_parse] g by (metis list.set_intros(1))
  then show ?thesis by (simp add: e)
qed

end
