(* ===== verification/Legacy_Simulator.thy ===== *)
theory Legacy_Simulator
  imports Legacy_Units Cpp_Program
begin

text \<open>
  The first simulator: the instruction record of \<open>include/accelsim/instruction.h\<close>, the configuration and the members of
  the class \<open>Simulator\<close> of \<open>include/accelsim/simulator.h\<close>, and its program \<open>src/main.cpp\<close>. The constructor,
  \<open>load_trace_csv\<close> and \<open>run\<close> are declared there and implemented nowhere in the tree: they are arguments of \<open>main\<close>.
\<close>

section \<open>Instructions\<close>

datatype instr_state = NEW | FETCHED | DECODED | DISPATCHED | ISSUED | EXECUTING | DONE

record legacy_instruction =
  li_id :: u64
  li_op :: op
  li_src0 :: int
  li_src1 :: int
  li_dst :: int
  li_is_mem :: bool
  li_mem_bytes :: int
  li_state :: instr_state
  li_fetch_cycle :: int
  li_issue_cycle :: int
  li_done_cycle :: int
  li_compute_latency :: int
  li_mem_latency :: int

definition default_legacy_instruction :: legacy_instruction where
  "default_legacy_instruction =
     \<lparr>li_id = 0, li_op = UNKNOWN, li_src0 = 0, li_src1 = 0, li_dst = 0, li_is_mem = False, li_mem_bytes = 0,
      li_state = NEW, li_fetch_cycle = - 1, li_issue_cycle = - 1, li_done_cycle = - 1,
      li_compute_latency = 1, li_mem_latency = 0\<rparr>"

section \<open>The simulator\<close>

record sim_config =
  sc_dispatch_q_cap :: int
  sc_mem_latency :: int
  sc_max_cycles :: int

definition default_sim_config :: sim_config where
  "default_sim_config = \<lparr>sc_dispatch_q_cap = 8, sc_mem_latency = 20, sc_max_cycles = 200000\<rparr>"

record legacy_simulator =
  ls_cfg :: sim_config
  ls_instrs :: "legacy_instruction list"
  ls_id_to_index :: "u64 \<rightharpoonup> nat"
  ls_pc :: nat
  ls_dispatch_q :: "u64 bounded_queue"
  ls_ready_list :: "u64 list"
  ls_mem :: memory_controller
  ls_cu :: compute_unit

section \<open>The program\<close>

text \<open>\<open>args\<close> are the arguments after the name of the program.\<close>

definition legacy_main ::
  "(sim_config \<Rightarrow> legacy_simulator) \<Rightarrow> (string \<Rightarrow> legacy_simulator \<Rightarrow> legacy_simulator) \<Rightarrow>
     (string \<Rightarrow> legacy_simulator \<Rightarrow> int \<times> legacy_simulator) \<Rightarrow> string list \<Rightarrow> outcome" where
  "legacy_main new_simulator load_trace_csv run args =
     (if length args < 2
      then exits 1 [] (text_line ''Usage: accelsim_cli <input_trace.csv> <output_trace.csv>'')
      else
        (let sim = new_simulator default_sim_config;
             sim = load_trace_csv (args ! 0) sim;
             (cycles, sim) = run (args ! 1) sim
         in exits 0 (''Done in '' @ int_to_string cycles @ text_line '' cycles'') []))"

text \<open>It runs exactly when it has both paths, on the default configuration.\<close>

lemma legacy_main_outcome:
  "exit_code (legacy_main new load run args) = (if length args < 2 then 1 else 0) \<and>
   (std_err (legacy_main new load run args) = [] \<longleftrightarrow> 2 \<le> length args)"
  by (auto simp: legacy_main_def exits_def text_line_def split: prod.splits)

end
