(* ===== verification/Dispatch_Limit.thy ===== *)
theory Dispatch_Limit
  imports Simulator_Properties
begin

text \<open>
  Why the properties about hanging runs ask for room in the dispatch queue (C5, C11 to C13): with the default
  configuration a workload of seventeen instructions hangs although no instructions wait for each other. The first
  sixteen depend on the last one; they fill the dispatch queue, which passes instructions on in order only, and the last one never
  gets past decode. The run is followed for six cycles up to a stuck state.
\<close>

definition waiting_workload :: "instruction list" where
  "waiting_workload = map (\<lambda>i. new_instruction\<lparr>instr_id := of_nat i, deps := (if i < 16 then [16] else [])\<rparr>) [0..<17]"

text \<open>The states of that run: the four queues of the front end, and nothing behind them.\<close>

definition front_state :: "nat list \<Rightarrow> nat list \<Rightarrow> nat list \<Rightarrow> nat \<Rightarrow> sim_state \<Rightarrow> bool" where
  "front_state f d q n s \<longleftrightarrow> fetch_q s = f \<and> decode_q s = d \<and> dispatch_q s = q \<and> next_to_fetch s = n \<and>
     ready_q s = [] \<and> retire_q s = [] \<and> exec_slots s = [] \<and> retired_ids s = {} \<and>
     length (sim_instrs s) = 17 \<and> (\<forall>i < 16. deps (sim_instrs s ! i) = [16])"

text \<open>The waiting instructions go round in their queue, so a cycle is what the three passes of the front end do.\<close>

definition front_moves :: "sim_state \<Rightarrow> sim_state" where
  "front_moves s = fetch_pass default_config 0 (decode_pass default_config 0 (dispatch_pass default_config 0 s))"

lemma front_cycle:
  assumes "front_state f d q n s" and "set q \<subseteq> {..<16}"
    and moves: "\<And>u. front_state f d q n u \<Longrightarrow> front_state f' d' q' n' (front_moves u)"
  shows "\<exists>t. cycle_step default_config s = Inr t \<and> front_state f' d' q' n' t"
proof -
  have idle: "retire_pass s = s" "execute_pass s = Inr (s\<lparr>exec_slots := []\<rparr>)"
    using assms(1) by (simp_all add: front_state_def retire_pass.simps execute_pass_def)
  let ?s = "s\<lparr>exec_slots := []\<rparr>"
  have "\<forall>i \<in> set (take (length q) (dispatch_q ?s)). \<not> can_wake default_config ?s i"
    using assms(1,2) by (auto simp: front_state_def can_wake_def instr_at_def deps_satisfied_def)
  from ready_pass_static [OF _ this] assms(1) obtain st where
    r: "ready_pass default_config (length q) ?s = ?s\<lparr>sim_stats := st\<rparr>" by (auto simp: front_state_def)
  let ?u = "?s\<lparr>sim_stats := st\<rparr>"
  have u: "front_state f d q n ?u" using assms(1) by (simp add: front_state_def)
  have "cycle_step default_config s = Inr (let s = sample_stats (front_moves ?u) in s\<lparr>sim_cycle := sim_cycle s + 1\<rparr>)"
    using r u by (simp add: cycle_step_def idle cycle_tail_def Let_def front_moves_def front_state_def)
  moreover have "front_state f' d' q' n' (let s = sample_stats (front_moves ?u) in s\<lparr>sim_cycle := sim_cycle s + 1\<rparr>)"
    using moves [OF u] by (simp add: front_state_def sample_stats_def Let_def)
  ultimately show ?thesis by blast
qed

lemmas pass_defs = front_moves_def dispatch_pass.simps decode_pass.simps fetch_pass.simps
  fetch_one_def decode_one_def dispatch_one_def write_instr_def default_config_def bump_stall_def Let_def

lemma front_step:
  "front_state [] [] [] 0 s \<Longrightarrow> front_state [0, 1, 2, 3] [] [] 4 (front_moves s)"
  "front_state [0, 1, 2, 3] [] [] 4 s \<Longrightarrow> front_state [4, 5, 6, 7] [0, 1, 2, 3] [] 8 (front_moves s)"
  "front_state [4, 5, 6, 7] [0, 1, 2, 3] [] 8 s \<Longrightarrow> front_state [8, 9, 10, 11] [4, 5, 6, 7] [0, 1, 2, 3] 12 (front_moves s)"
  "front_state [8, 9, 10, 11] [4, 5, 6, 7] [0, 1, 2, 3] 12 s \<Longrightarrow>
    front_state [12, 13, 14, 15] [8, 9, 10, 11] [0, 1, 2, 3, 4, 5, 6, 7] 16 (front_moves s)"
  "front_state [12, 13, 14, 15] [8, 9, 10, 11] [0, 1, 2, 3, 4, 5, 6, 7] 16 s \<Longrightarrow>
    front_state [16] [12, 13, 14, 15] [0, 1, 2, 3, 4, 5, 6, 7, 8, 9, 10, 11] 17 (front_moves s)"
  "front_state [16] [12, 13, 14, 15] [0, 1, 2, 3, 4, 5, 6, 7, 8, 9, 10, 11] 17 s \<Longrightarrow>
    front_state [] [16] [0, 1, 2, 3, 4, 5, 6, 7, 8, 9, 10, 11, 12, 13, 14, 15] 17 (front_moves s)"
  by (simp_all add: pass_defs front_state_def nth_list_update)

lemma front_stuck:
  "front_state [] [16] [0, 1, 2, 3, 4, 5, 6, 7, 8, 9, 10, 11, 12, 13, 14, 15] 17 s \<Longrightarrow> stuck default_config s \<and> has_work_left s"
  by (simp add: front_state_def stuck_def blocked_def has_work_left_def can_wake_def instr_at_def deps_satisfied_def default_config_def)

lemma front_start: "front_state [] [] [] 0 (initial_state waiting_workload)"
  by (simp add: front_state_def initial_state_def waiting_workload_def new_instruction_def)

definition front_at :: "nat list \<Rightarrow> nat list \<Rightarrow> nat list \<Rightarrow> nat \<Rightarrow> bool" where
  "front_at f d q n \<longleftrightarrow> (\<exists>m s. reach default_config waiting_workload m s \<and> front_state f d q n s \<and>
     run_loop default_config (initial_state waiting_workload) = run_loop default_config s)"

lemma front_at_step:
  assumes "front_at f d q n" and "\<And>u. front_state f d q n u \<Longrightarrow> front_state f' d' q' n' (front_moves u)"
    and "set q \<subseteq> {..<16}" and "n < 17 \<or> f \<noteq> [] \<or> d \<noteq> []"
  shows "front_at f' d' q' n'"
proof -
  obtain m s where s: "reach default_config waiting_workload m s" "front_state f d q n s"
    "run_loop default_config (initial_state waiting_workload) = run_loop default_config s"
    using assms(1) by (auto simp: front_at_def)
  obtain t where t: "cycle_step default_config s = Inr t" "front_state f' d' q' n' t"
    using front_cycle [OF s(2) assms(3,2)] by blast
  have "has_work_left s" using s(2) assms(4) by (auto simp: front_state_def has_work_left_def)
  then show ?thesis
    using reach_cycle [OF s(1) _ t(1)] run_loop_cycle [OF _ t(1)] s(3) t(2) unfolding front_at_def by metis
qed

lemma front_at_stuck: "front_at [] [16] [0, 1, 2, 3, 4, 5, 6, 7, 8, 9, 10, 11, 12, 13, 14, 15] 17"
proof -
  have "front_at [] [] [] 0" using reach_start front_start unfolding front_at_def by blast
  note front_at_step [OF this front_step(1)] note front_at_step [OF this front_step(2)]
  note front_at_step [OF this front_step(3)] note front_at_step [OF this front_step(4)]
  note front_at_step [OF this front_step(5)] note front_at_step [OF this front_step(6)]
  then show ?thesis by simp
qed

lemma waiting_acyclic: "\<not> waits_for_itself waiting_workload S"
proof
  assume S: "waits_for_itself waiting_workload S"
  then obtain i where i: "i \<in> S" by (auto simp: waits_for_itself_def)
  have last: "waiting_workload ! 16 = new_instruction\<lparr>instr_id := 16, deps := []\<rparr>" "length waiting_workload = 17"
    by (simp_all add: waiting_workload_def)
  have "set (deps (waiting_workload ! j)) \<subseteq> {16}" if "j < 17" for j
    using that by (auto simp: waiting_workload_def new_instruction_def)
  then have "16 \<in> S" using S i last by (fastforce simp: waits_for_itself_def)
  then show False using S last by (auto simp: waits_for_itself_def)
qed

theorem full_dispatch_queue_hangs:
  "run_workload waiting_workload default_config = None \<and> \<not> (\<exists>S. waits_for_itself waiting_workload S)"
proof -
  obtain m s where s: "reach default_config waiting_workload m s"
    "front_state [] [16] [0, 1, 2, 3, 4, 5, 6, 7, 8, 9, 10, 11, 12, 13, 14, 15] 17 s"
    "run_loop default_config (initial_state waiting_workload) = run_loop default_config s"
    using front_at_stuck by (auto simp: front_at_def)
  have "run_loop default_config s = None"
    using stuck_runs_for_ever [OF s(1)] front_stuck [OF s(2)] by blast
  then show ?thesis using waiting_acyclic by (simp add: run_workload_def s(3))
qed

end
