(* ===== verification/Spec2Isabelle.thy ===== *)
theory Spec2Isabelle
  imports Workload_Properties Device_Properties Engine_Properties Trajectory_Properties Storage_Properties
    Cli_Properties Result_Properties Pthread_Properties Distance_Accuracy Legacy_Simulator Dispatch_Limit
begin

text \<open>
  AccelSim-Lite: a model of its C++ programs and of its C benchmark, and the properties that make them correct.

  \<^bold>\<open>The program.\<close> The repository holds five programs and some units that they do not use:
  \<^item> \<open>accelsim-lite\<close> (\<open>tools/accelsim_cli.cpp\<close>) loads a workload from a CSV file
    (\<open>src/workload_runner.cpp\<close>), runs it on a cycle simulator of a pipeline with compute units and memory
    ports (\<open>src/simulator.cpp\<close>, \<open>src/scheduler.cpp\<close>), and prints and writes reports.
  \<^item> \<open>performance-benchmark\<close> (\<open>performance_engine/\<close>) cuts a data vector into work items and processes
    them in one thread, or in a pool of workers that take batches from a bounded queue.
  \<^item> \<open>storage-datapath\<close> (\<open>storage_datapath/\<close>) computes latencies of a list of requests and classifies
    what limits them.
  \<^item> \<open>trajectory-graph\<close> (\<open>trajectory_graph_lite/\<close>) builds a graph of points from a CSV file and summarizes it.
  \<^item> \<open>pthread-queue-benchmark\<close> (\<open>benchmarks/pthreads_queue/\<close>, in C) does the work of \<open>performance-benchmark\<close> with
    the threads library: a feeder pushes the chunks through a bounded queue to the workers.
  \<^item> Units on their own: the bounded queue (\<open>include/accelsim/queue.h\<close>), the ring buffer, the fixed-point filter
    and the register mock (\<open>firmware_style_validation/\<close>), and the compute unit, the memory controller and the
    trace writer of an earlier simulator.

  \<^bold>\<open>The language.\<close> \<open>Cpp_Prelude\<close> has the machine integers as words, exceptions as values of \<open>result\<close> and
  the lemmas that all components share; \<open>Cpp_Map\<close> has \<open>std::map\<close> as an association list in key order
  (locale \<open>counter_map\<close>: the laws that the counters need); \<open>Cpp_String\<close> has \<open>std::getline\<close>, \<open>std::stoull\<close>,
  \<open>std::to_string\<close>; \<open>Cpp_Double\<close> has \<open>double\<close> as a rational with the rounding of every operation written out,
  the infinities and \<open>NaN\<close>; \<open>Double_Text\<close> prints and reads them; \<open>Csv_Rows\<close> has
  files of comma-separated rows and the loop that two of the loaders share (locale \<open>csv_loop\<close>, with a printer
  \<open>csv_printed\<close>); \<open>Cpp_Program\<close> says what a run of \<open>main\<close> leaves behind.
  The order of \<open>double\<close> is an instance of \<open>linorder\<close>, which \<open>sort\<close> uses; \<open>dlt\<close>, \<open>dle\<close> and \<open>deq\<close> are the
  comparisons of the language, false on \<open>NaN\<close>.

  \<^bold>\<open>The cycle simulator.\<close> \<open>Instruction_Model\<close> has the records of \<open>include/accelsim/model/\<close>.
  \<open>Cycle_Simulator\<close> has \<open>run_workload\<close>, one definition per block of the loop: the queues are lists of indices into the
  instructions, as in the code, a pass is a function on \<open>sim_state\<close> and \<open>cycle_step\<close> composes the passes in their order.
  The loop is a \<open>partial_function (option)\<close>: \<open>None\<close> is a run that does not return. For the proofs
  \<open>Pipeline_Steps\<close> splits the passes into moves of one instruction (\<open>pipe_step\<close>); \<open>Pipeline_Invariants\<close> has the
  invariants that every move keeps, \<open>Pipeline_Causality\<close> and \<open>Pipeline_Counters\<close> the ones about time and statistics,
  \<open>Pipeline_Progress\<close> a measure that decreases in every cycle that is not stuck, \<open>Pipeline_Deadlock\<close> what a stuck
  state looks like, and \<open>Pipeline_Runs\<close> what follows for whole runs. \<open>Simulator_Properties\<close> states C1 to C8.
  The bound \<open>run_fuel\<close>, seven cycles per instruction plus the latencies, is the initial value of the measure: each
  instruction has seven stage moves and executes its latency, and every cycle of a run that is not stuck uses up at
  least one. So a run that needs more cycles never returns (C4), and with room in the queues this happens
  exactly when instructions wait for each other (C5). \<open>Dispatch_Limit\<close> shows that the room in the dispatch queue is
  needed: with the default capacity of sixteen, sixteen instructions that depend on a seventeenth hang.

  \<^bold>\<open>Loading, reporting, command line.\<close> \<open>Workload_Parser\<close> has the loader over the contents of the file and a printer
  for the round trip; \<open>Workload_Properties\<close> states C9 and C10. \<open>Reports\<close> has the averages and the text of
  \<open>summarize\<close>, \<open>compare_runs\<close> and \<open>write_report\<close>, the latter as the list of files with their contents, and a reader of
  its CSV files. \<open>Accelsim_Cli\<close> has the flags and the four commands. \<open>Report_Properties\<close> states C11, C16 and C17,
  \<open>Cli_Properties\<close> C12 to C15: C11 to C13 go from the arguments and the files to the exit status, what is printed and which
  files are written, for the three commands that run workloads; C14 classifies how the program can end.

  \<^bold>\<open>Queues and units.\<close> \<open>Bounded_Fifo\<close> has the contract of a bounded queue as the locale \<open>bounded_fifo\<close> and the
  template \<open>BoundedQueue\<close> as its instance; \<open>Firmware_Units\<close> has the ring buffer, the other instance, the filter on 16-
  and 32-bit words and the register mock; \<open>Legacy_Units\<close> has the compute unit, the memory controller and
  the trace writer, whose stream is the text written; \<open>Legacy_Simulator\<close> has the data of the simulator that used them
  and \<open>src/main.cpp\<close>, with the operations of the class, which no file implements, as arguments.
  \<open>Device_Properties\<close> states C18 and C19.

  \<^bold>\<open>The performance engine.\<close> \<open>Performance_Engine\<close> has the constructor, the work items, \<open>process_work\<close> and the
  single-threaded run. \<open>Worker_Pool\<close> has the multithreaded run as the step relation \<open>pool_step\<close> on the shared
  state and the locals of every worker and of the producer: a step is what a thread does while it holds a lock, the task
  outside it, or a wake-up; clock readings are arbitrary, spurious wake-ups are steps that a parameter allows.
  \<open>Pool_Accounts\<close> has the invariant behind the counters: locks per task and worker, one latency per task.
  \<open>Engine_Properties\<close> states C20, C21 and C23 to C25. \<open>Percentile\<close> and \<open>Engine_Results\<close> have the reported results,
  the command line and the profile runner; \<open>Result_Properties\<close> states C22, C32 and C33. On samples with a \<open>NaN\<close> the call of
  \<open>std::sort\<close> is undefined and the value of \<open>percentile\<close> means nothing; C33 excludes them, and the programs pass none.

  \<^bold>\<open>The C benchmark.\<close> \<open>Pthread_Queue\<close> has the queue of \<open>pthread_queue.c\<close>, its operations split at the points where they
  wait for a condition variable; it is the third instance of \<open>bounded_fifo\<close>. \<open>Pthread_Support\<close> has the clock, the
  comparison functions (instances of the locale \<open>comparison_function\<close>, which shows that they leave \<open>qsort\<close> no choice) and the
  percentiles. \<open>Pthread_Benchmark\<close> has \<open>process_item\<close>,
  the workers and the feeding loop as the step relation \<open>bench_step\<close>, the aggregation and \<open>main\<close>.
  \<open>Pthread_Refinement\<close> proves that it refines the worker pool of the performance engine with the same chunks, one
  task per batch and 1024 slots: \<open>bench_rel\<close> relates the states, and the interpretation \<open>bench\<close> of the locale
  \<open>stuttering_simulation\<close> carries reachability and step bounds over. One step of the C code is one or two of the pool,
  or none when the feeder only stamps an item. \<open>Pthread_Memory\<close> extends this to the runs in which \<open>malloc\<close> fails in a
  worker: such a run moves in step with one in which it does not, and differs in the checksum and the number
  of allocations only. \<open>Pthread_Properties\<close> states C26 to C31; C26 and C31 say that the
  two implementations compute and report the same.

  \<^bold>\<open>Trajectories and storage.\<close> \<open>Trajectory_Graph\<close> has the graph, its search (a \<open>function\<close> whose measure
  counts the nodes not visited) and the loader, \<open>Trajectory_Cli\<close> the command line; the order in which the hash map is
  iterated is an argument, and the results hold for all orders. \<open>Trajectory_Invariants\<close> has the invariant of graphs
  built by the public operations and what the search visits; \<open>Trajectory_Files\<close> prints the files that the loader
  reads back; \<open>Trajectory_Properties\<close> states C34, C35 and C37, the last from the file to the exit status.
  \<open>Distance_Accuracy\<close> counts the rounding errors of the lengths against the real Euclidean distance, with \<open>accurate k\<close> for
  $k$ of them, and states C36; that \<open>std::sqrt\<close> is rounded correctly is \<open>sqrt_val_side\<close> of \<open>Cpp_Double\<close>.
  \<open>Storage_Datapath\<close> has the storage simulator, its classifier, loader and command line; \<open>Storage_Properties\<close> states C38 to C40.

  \<^bold>\<open>Recorded outputs.\<close> The repository holds outputs of its own programs. Evaluated with the code generator, the definitions
  reproduce them: all files of \<open>reports/benchmarks/\<close> and of \<open>reports/latest/\<close> (\<open>left\<close>, \<open>right\<close>, \<open>compare.txt\<close>) character by
  character from the files of \<open>workloads/\<close>, the metrics of the storage and trajectory reports, and the checksums
  and counts of \<open>performance_engine/reports/performance_matrix.csv\<close> up to 10000 items. This is a test of the model, not a proof.

  \<^bold>\<open>Bounds.\<close> Sizes of containers are natural numbers; statements about 64-bit counters carry the bound that
  keeps them from wrapping ($2^{64}$ cycles, $2^{53}$ where a counter becomes a double). A subtraction of
  counters as \<open>long long\<close> (\<open>compare_runs\<close>) is exact, without its overflow.

  \<^bold>\<open>Not modelled.\<close>
  \<^item> The operations of the class \<open>Simulator\<close> of \<open>include/accelsim/simulator.h\<close>: no file implements them.
  \<^item> The tests and the scripts.
  \<^item> Failures of the file system; directories are created and files open for writing. Failures of memory allocation, except
    in the C benchmark, which tests for them.
  \<^item> Failures to lock a mutex or to wait on a condition variable in the runs of the C benchmark; the operations of its queue
    take the codes as arguments, the runs have them zero.
  \<^item> The sign of a zero and the payload of \<open>NaN\<close>; contraction of products and sums; the last bits of \<open>std::acos\<close>, which
    is an argument of the trajectory graph.
\<close>

end
